(* ===== verification/FM_Prelude.thy ===== *)
theory FM_Prelude
  imports Main "HOL-Library.Word" "HOL-Library.Multiset"
begin

unbundle bit_operations_syntax

text \<open>
  Shared vocabulary of the FastMap development: the machine types of the C code, the compile-time
  constants of \<^verbatim>\<open>shared_defines.h\<close>, the error numbers, the named collections of rewrite rules, and the
  generic lemmas on lists, words and function updates that several components use.
\<close>

section \<open>Machine types\<close>

text \<open>
  The driver is built for 64-bit kernels: \<^verbatim>\<open>unsigned long\<close>, \<^verbatim>\<open>pgoff_t\<close>, \<^verbatim>\<open>sector_t\<close> and pointers are
  64 bits wide; \<^verbatim>\<open>uint32_t\<close> is 32 and \<^verbatim>\<open>uint8_t\<close> is 8 bits wide. \<^verbatim>\<open>pgoff_t\<close> is the number of a 4 KiB
  page inside a file or a block device. A tagged page is named by its position in the array
  \<^verbatim>\<open>page_map->pages\<close>.
\<close>

type_synonym u64 = "64 word"
type_synonym u32 = "32 word"
type_synonym u8 = "8 word"
type_synonym pid = nat
type_synonym pdata = "8 word list"

abbreviation (input) ULONG_MAX :: u64 where "ULONG_MAX \<equiv> 0xFFFFFFFFFFFFFFFF"
abbreviation (input) UINT_MAX :: u64 where "UINT_MAX \<equiv> 0xFFFFFFFF"
abbreviation (input) PAGE_SIZE :: u64 where "PAGE_SIZE \<equiv> 0x1000"

section \<open>Compile-time constants\<close>

definition NUM_QUEUES :: nat where "NUM_QUEUES = 32"
definition EVICTOR_THREADS :: nat where "EVICTOR_THREADS = 8"
definition MAX_RMAPS_PER_PAGE :: nat where "MAX_RMAPS_PER_PAGE = 3"
definition ETLB_ENTRIES :: nat where "ETLB_ENTRIES = 16"
definition MAX_OPEN_FDS :: nat where "MAX_OPEN_FDS = 256"

lemmas fm_const_defs = NUM_QUEUES_def EVICTOR_THREADS_def MAX_RMAPS_PER_PAGE_def
  ETLB_ENTRIES_def MAX_OPEN_FDS_def

text \<open>The error numbers the driver returns, negated as in the kernel.\<close>

abbreviation (input) EPERM :: int where "EPERM \<equiv> 1"
abbreviation (input) ENOENT :: int where "ENOENT \<equiv> 2"
abbreviation (input) ENOMEM :: int where "ENOMEM \<equiv> 12"
abbreviation (input) EFAULT :: int where "EFAULT \<equiv> 14"
abbreviation (input) EBUSY :: int where "EBUSY \<equiv> 16"
abbreviation (input) EEXIST :: int where "EEXIST \<equiv> 17"
abbreviation (input) ENODEV :: int where "ENODEV \<equiv> 19"
abbreviation (input) EINVAL :: int where "EINVAL \<equiv> 22"
abbreviation (input) ENOTTY :: int where "ENOTTY \<equiv> 25"

section \<open>Rule collections\<close>

text \<open>
  \<open>fm_simps\<close> collects the behavioural equations of the operations.
\<close>

named_theorems fm_simps

section \<open>Lists\<close>

lemma remove1_append_notin [simp]: "x \<notin> set xs \<Longrightarrow> remove1 x (xs @ ys) = xs @ remove1 x ys"
  by (induction xs) auto


lemma length_remove1_in: "x \<in> set xs \<Longrightarrow> Suc (length (remove1 x xs)) = length xs"
  by (induction xs) auto

lemma int_length_remove1: "x \<in> set xs \<Longrightarrow> int (length (remove1 x xs)) = int (length xs) - 1"
  using length_remove1_in [of x xs] by linarith

lemma sorted_wrt_append_less:
  "sorted_wrt (<) (xs @ x # ys) \<Longrightarrow> y \<in> set xs \<Longrightarrow> (y :: 'a :: linorder) < x"
  by (simp add: sorted_wrt_append)

lemma sorted_wrt_remove1: "sorted_wrt P xs \<Longrightarrow> sorted_wrt P (remove1 x xs)"
  using set_remove1_subset [of x] by (induction xs) auto

lemma nth_list_update_if:
  "i < length xs \<Longrightarrow> (xs[j := v]) ! i = (if i = j then v else xs ! i)"
  by (simp add: nth_list_update)

section \<open>Words\<close>

lemma unat_u64_mod_less: "0 < n \<Longrightarrow> unat (w :: u64) mod n < n"
  by simp

lemma bit_word_of_nat_shift_eq:
  "bit (push_bit m w :: u64) n \<longleftrightarrow> m \<le> n \<and> n < 64 \<and> bit w (n - m)"
  by (auto simp: bit_simps)

section \<open>Transition systems\<close>

inductive reach :: "('s \<Rightarrow> bool) \<Rightarrow> ('s \<Rightarrow> 's \<Rightarrow> bool) \<Rightarrow> 's \<Rightarrow> bool" for init step where
  reach_init: "init s \<Longrightarrow> reach init step s"
| reach_step: "reach init step s \<Longrightarrow> step s s' \<Longrightarrow> reach init step s'"

locale inductive_invariant =
  fixes init :: "'s \<Rightarrow> bool" and step :: "'s \<Rightarrow> 's \<Rightarrow> bool" and inv :: "'s \<Rightarrow> bool"
  assumes inv_init: "init s \<Longrightarrow> inv s" and inv_step: "inv s \<Longrightarrow> step s s' \<Longrightarrow> inv s'"
begin

lemma reach_inv: "reach init step s \<Longrightarrow> inv s"
  by (induction rule: reach.induct) (auto intro: inv_init inv_step)

end

end
