(* ===== verification/Tagged_Page.thy ===== *)
theory Tagged_Page
  imports FM_Prelude
begin

text \<open>
  \<^verbatim>\<open>tagged_page.h\<close> and \<^verbatim>\<open>tagged_page.c\<close>: the descriptor of a cached 4 KiB page, its lock, its dirty
  flags, and the reverse-map entries whose two words carry five fields.
  A reverse-map entry is refined to the record of its five fields (\<open>pvr_abs\<close>): every setter
  updates its own field and no other one.
\<close>

unbundle bit_operations_syntax

section \<open>Reverse-map entries\<close>

text \<open>
  \<^verbatim>\<open>struct pr_vma_rmap\<close>: the page-aligned virtual address shares its word with the owner index
  (bits 11:7) and the CPU (bits 6:0); the pointer to the VMA carries the valid flag in bit 0.
  The list link \<^verbatim>\<open>vma_mapped\<close> is represented by the lists of the \<^verbatim>\<open>pr_vma_entry\<close> it links into.
\<close>

record pr_vma_rmap =
  pvr_vaddr_word :: u64
  pvr_vma_word :: u64

definition pvr_is_valid :: "pr_vma_rmap \<Rightarrow> bool" where
  "pvr_is_valid p = ((pvr_vma_word p AND 0x01) = 1)"

definition pvr_mk_valid :: "pr_vma_rmap \<Rightarrow> pr_vma_rmap" where
  "pvr_mk_valid p = p\<lparr>pvr_vma_word := pvr_vma_word p OR 0x01\<rparr>"

definition pvr_mk_invalid :: "pr_vma_rmap \<Rightarrow> pr_vma_rmap" where
  "pvr_mk_invalid p = p\<lparr>pvr_vma_word := pvr_vma_word p AND NOT 0x01\<rparr>"

definition pvr_get_cpu :: "pr_vma_rmap \<Rightarrow> u64" where
  "pvr_get_cpu p = pvr_vaddr_word p AND 0x7F"

definition pvr_set_cpu :: "pr_vma_rmap \<Rightarrow> u64 \<Rightarrow> pr_vma_rmap" where
  "pvr_set_cpu p cpu =
     (let p1 = p\<lparr>pvr_vaddr_word := pvr_vaddr_word p AND NOT 0x7F\<rparr>
      in p1\<lparr>pvr_vaddr_word := pvr_vaddr_word p1 OR cpu\<rparr>)"

definition pvr_get_idx :: "pr_vma_rmap \<Rightarrow> u64" where
  "pvr_get_idx p = drop_bit 7 (pvr_vaddr_word p AND 0x0F80)"

definition pvr_set_idx :: "pr_vma_rmap \<Rightarrow> u64 \<Rightarrow> pr_vma_rmap" where
  "pvr_set_idx p idx =
     (let cpu = pvr_vaddr_word p AND 0x7F;
          vaddr = pvr_vaddr_word p AND NOT 0xFFF
      in p\<lparr>pvr_vaddr_word := (vaddr OR push_bit 7 idx) OR cpu\<rparr>)"

definition pvr_get_vaddr :: "pr_vma_rmap \<Rightarrow> u64" where
  "pvr_get_vaddr p = pvr_vaddr_word p AND NOT 0xFFF"

definition pvr_set_vaddr :: "pr_vma_rmap \<Rightarrow> u64 \<Rightarrow> pr_vma_rmap" where
  "pvr_set_vaddr p vaddr =
     (let meta = pvr_vaddr_word p AND 0xFFF in p\<lparr>pvr_vaddr_word := vaddr OR meta\<rparr>)"

definition pvr_get_vma :: "pr_vma_rmap \<Rightarrow> u64" where
  "pvr_get_vma p = pvr_vma_word p AND NOT 0x01"

definition pvr_set_vma :: "pr_vma_rmap \<Rightarrow> u64 \<Rightarrow> pr_vma_rmap" where
  "pvr_set_vma p vma =
     (let valid = pvr_vma_word p AND 0x01 in p\<lparr>pvr_vma_word := vma OR valid\<rparr>)"

text \<open>
  \<^verbatim>\<open>sizeof(struct pr_vma_rmap)\<close>: two words and a two-pointer list link. The entries are the first
  member of \<^verbatim>\<open>struct tagged_page\<close>, so the address of entry \<open>i\<close> is that of the page plus \<open>i\<close> entries.
\<close>

definition sizeof_pr_vma_rmap :: u64 where "sizeof_pr_vma_rmap = 32"

definition pvr_get_owner :: "u64 \<Rightarrow> pr_vma_rmap \<Rightarrow> u64" where
  "pvr_get_owner p_addr p = p_addr - pvr_get_idx p * sizeof_pr_vma_rmap"

definition rmap_addr :: "u64 \<Rightarrow> nat \<Rightarrow> u64" where
  "rmap_addr tp_addr i = tp_addr + word_of_nat i * sizeof_pr_vma_rmap"

section \<open>Tagged pages\<close>

text \<open>
  The fields of \<^verbatim>\<open>struct page\<close> the driver uses, and its content. \<open>pg_is_null\<close> marks the NULL pointer.
  \<open>pg_private\<close> is the tagged page the frame belongs to.
\<close>

record page =
  pg_is_null :: bool
  pg_index :: u64
  pg_locked :: bool
  pg_dirty :: bool
  pg_reserved :: bool
  pg_private :: pid
  pg_data :: pdata

definition page_NULL :: page where
  "page_NULL = \<lparr>pg_is_null = True, pg_index = 0, pg_locked = False, pg_dirty = False,
     pg_reserved = False, pg_private = 0, pg_data = []\<rparr>"

text \<open>The values of \<^verbatim>\<open>buffer_id\<close>.\<close>

datatype buffer_id = BI_NONE | BI_CLEAN | BI_DIRTY

text \<open>
  \<^verbatim>\<open>struct tagged_page\<close>. The atomics keep their integer values. \<open>tp_pvd\<close> names the backing object
  (a file or a block device), \<open>None\<close> being NULL. The links \<^verbatim>\<open>qlist\<close>, \<^verbatim>\<open>free\<close> and \<^verbatim>\<open>node\<close> are represented by
  the queues, free lists and trees they link into; spin locks and the wait queue have no value.
\<close>

record tagged_page =
  tp_rmap :: "pr_vma_rmap list"
  tp_page :: page
  tp_pvd :: "nat option"
  tp_page_valid :: int
  tp_is_dirty :: int
  tp_buffer_id :: buffer_id
  tp_in_use :: int
  tp_priority :: nat
  tp_cpuid :: nat

type_synonym pages = "pid \<Rightarrow> tagged_page"

abbreviation tp_index :: "tagged_page \<Rightarrow> u64" where
  "tp_index tp \<equiv> pg_index (tp_page tp)"

text \<open>The writes to a member of \<^verbatim>\<open>tp->page\<close>.\<close>

definition tp_set_index :: "u64 \<Rightarrow> tagged_page \<Rightarrow> tagged_page" where
  "tp_set_index i tp = tp\<lparr>tp_page := (tp_page tp)\<lparr>pg_index := i\<rparr>\<rparr>"

definition tp_set_locked :: "bool \<Rightarrow> tagged_page \<Rightarrow> tagged_page" where
  "tp_set_locked b tp = tp\<lparr>tp_page := (tp_page tp)\<lparr>pg_locked := b\<rparr>\<rparr>"

definition tp_set_pg_dirty :: "bool \<Rightarrow> tagged_page \<Rightarrow> tagged_page" where
  "tp_set_pg_dirty b tp = tp\<lparr>tp_page := (tp_page tp)\<lparr>pg_dirty := b\<rparr>\<rparr>"

lemmas tp_set_defs = tp_set_index_def tp_set_locked_def tp_set_pg_dirty_def

text \<open>The body of the loop over \<^verbatim>\<open>rmap[i]\<close> in \<^verbatim>\<open>clear_tagged_page_meta_data\<close>.\<close>

definition clear_rmap_entry :: "nat \<Rightarrow> pr_vma_rmap \<Rightarrow> pr_vma_rmap" where
  "clear_rmap_entry i r =
     (let r = r\<lparr>pvr_vma_word := 0\<rparr>;
          r = r\<lparr>pvr_vaddr_word := 0\<rparr>;
          r = pvr_mk_invalid r;
          r = pvr_set_idx r (word_of_nat i);
          r = pvr_set_vaddr r 0;
          r = pvr_set_vma r 0
      in pvr_set_cpu r 0)"

definition clear_tagged_page_meta_data :: "tagged_page \<Rightarrow> tagged_page" where
  "clear_tagged_page_meta_data tp =
     tp\<lparr>tp_in_use := 0, tp_page_valid := 0, tp_page := page_NULL, tp_buffer_id := BI_NONE,
        tp_rmap := map (\<lambda>i. clear_rmap_entry i (tp_rmap tp ! i)) [0..<MAX_RMAPS_PER_PAGE]\<rparr>"

definition init_tagged_page_meta_data :: "tagged_page \<Rightarrow> tagged_page" where
  "init_tagged_page_meta_data tp =
     (clear_tagged_page_meta_data tp)\<lparr>tp_is_dirty := 0, tp_in_use := 0\<rparr>"

text \<open>
  \<^verbatim>\<open>alloc_tagged_page_data\<close>: \<open>alloc_node\<close> is the frame \<^verbatim>\<open>alloc_pages_node(cpu_to_node(cpu), GFP_NOIO, 0)\<close>
  returns; \<open>p\<close> is the tagged page itself, stored in \<^verbatim>\<open>page->private\<close>.
\<close>

definition alloc_tagged_page_data :: "(nat \<Rightarrow> page) \<Rightarrow> pid \<Rightarrow> nat \<Rightarrow> tagged_page \<Rightarrow> tagged_page" where
  "alloc_tagged_page_data alloc_node p cpu tp =
     (let tp = tp\<lparr>tp_page := alloc_node cpu\<rparr>;
          tp = tp\<lparr>tp_page := (tp_page tp)\<lparr>pg_reserved := True\<rparr>\<rparr>
      in tp\<lparr>tp_page := (tp_page tp)\<lparr>pg_private := p\<rparr>\<rparr>)"

definition free_tagged_page_data :: "tagged_page \<Rightarrow> tagged_page" where
  "free_tagged_page_data tp =
     (let tp = tp\<lparr>tp_page := (tp_page tp)\<lparr>pg_reserved := False\<rparr>\<rparr>
      in tp\<lparr>tp_page := page_NULL\<rparr>)"

text \<open>
  \<^verbatim>\<open>trylock_tp\<close> returns the code and the page. The whole body runs under \<^verbatim>\<open>tp_lock_guard\<close>, so it is one
  atomic step.
\<close>

definition trylock_tp :: "tagged_page \<Rightarrow> u64 \<Rightarrow> int \<times> tagged_page" where
  "trylock_tp tp index =
     (if tp_in_use tp \<noteq> 1 then (-3, tp)
      else if index \<noteq> ULONG_MAX \<and> tp_index tp \<noteq> index then (-2, tp)
      else if pg_locked (tp_page tp) then (-1, tp)
      else (0, tp_set_locked True tp))"

definition unlock_tp :: "tagged_page \<Rightarrow> tagged_page" where
  "unlock_tp tp = tp_set_locked False tp"

definition locked_tp :: "tagged_page \<Rightarrow> bool" where
  "locked_tp tp = pg_locked (tp_page tp)"

definition is_tagged_page_in_a_buffer :: "tagged_page \<Rightarrow> buffer_id \<Rightarrow> bool" where
  "is_tagged_page_in_a_buffer tp b = (tp_buffer_id tp = b)"

definition TaggedPageDirty :: "tagged_page \<Rightarrow> bool" where
  "TaggedPageDirty tp = (pg_dirty (tp_page tp) \<or> tp_is_dirty tp \<noteq> 0)"

definition ClearTaggedPageDirty :: "tagged_page \<Rightarrow> tagged_page" where
  "ClearTaggedPageDirty tp =
     (if pg_dirty (tp_page tp) then tp_set_pg_dirty False tp else tp)"

section \<open>Reverse-map entries refine the record of their fields\<close>

text \<open>The abstract reverse-map entry: five independent fields.\<close>

record pvr_fields =
  f_vaddr :: u64
  f_idx :: u64
  f_cpu :: u64
  f_vma :: u64
  f_valid :: bool

definition pvr_abs :: "pr_vma_rmap \<Rightarrow> pvr_fields" where
  "pvr_abs p = \<lparr>f_vaddr = pvr_get_vaddr p, f_idx = pvr_get_idx p, f_cpu = pvr_get_cpu p,
     f_vma = pvr_get_vma p, f_valid = pvr_is_valid p\<rparr>"

lemma u64_masks: "(0x7F :: u64) = mask 7" "(0xFFF :: u64) = mask 12"
  "(0x0F80 :: u64) = push_bit 7 (mask 5)" 
  by (simp_all add: mask_eq_exp_minus_1)

lemma u64_and_not_mask: "(w :: u64) AND mask n = 0 \<Longrightarrow> w AND NOT (mask n) = w"
proof -
  assume "w AND mask n = 0"
  moreover have "w = (w AND mask n) OR (w AND NOT (mask n))"
    by (rule bit_word_eqI) (auto simp: bit_simps)
  ultimately show ?thesis by simp
qed

lemmas pvr_get_defs = pvr_get_vaddr_def pvr_get_idx_def pvr_get_cpu_def pvr_get_vma_def
lemmas pvr_set_defs = pvr_set_vaddr_def pvr_set_idx_def pvr_set_cpu_def pvr_set_vma_def
  pvr_mk_valid_def pvr_mk_invalid_def

lemma pvr_is_valid_bit: "pvr_is_valid p \<longleftrightarrow> bit (pvr_vma_word p) 0"
  by (simp add: pvr_is_valid_def and_one_eq bit_0 odd_iff_mod_2_eq_one)

lemmas pvr_abs_defs = pvr_abs_def pvr_get_defs pvr_set_defs pvr_is_valid_bit Let_def u64_masks

lemma pvr_abs_set_cpu:
  assumes "cpu < 128"
  shows "pvr_abs (pvr_set_cpu p cpu) = (pvr_abs p)\<lparr>f_cpu := cpu\<rparr>"
proof -
  have "cpu AND mask 7 = cpu" using assms by (simp add: less_mask_eq)
  moreover have "pvr_abs (pvr_set_cpu p (cpu AND mask 7)) = (pvr_abs p)\<lparr>f_cpu := cpu AND mask 7\<rparr>"
    by (auto simp: pvr_abs_defs bit_simps intro!: bit_word_eqI)
  ultimately show ?thesis by simp
qed

lemma pvr_abs_set_idx:
  assumes "idx < 32"
  shows "pvr_abs (pvr_set_idx p idx) = (pvr_abs p)\<lparr>f_idx := idx\<rparr>"
proof -
  have "idx AND mask 5 = idx" using assms by (simp add: less_mask_eq)
  moreover have "pvr_abs (pvr_set_idx p (idx AND mask 5)) = (pvr_abs p)\<lparr>f_idx := idx AND mask 5\<rparr>"
    by (auto simp: pvr_abs_defs bit_simps intro!: bit_word_eqI)
  ultimately show ?thesis by simp
qed

lemma pvr_abs_set_vaddr:
  assumes "vaddr AND 0xFFF = 0"
  shows "pvr_abs (pvr_set_vaddr p vaddr) = (pvr_abs p)\<lparr>f_vaddr := vaddr\<rparr>"
proof -
  have "vaddr AND NOT (mask 12) = vaddr"
    using assms by (intro u64_and_not_mask) (simp add: u64_masks)
  moreover have "pvr_abs (pvr_set_vaddr p (vaddr AND NOT (mask 12)))
      = (pvr_abs p)\<lparr>f_vaddr := vaddr AND NOT (mask 12)\<rparr>"
    by (auto simp: pvr_abs_defs bit_simps intro!: bit_word_eqI)
  ultimately show ?thesis by simp
qed

lemma pvr_abs_set_vma:
  assumes "vma AND 1 = 0"
  shows "pvr_abs (pvr_set_vma p vma) = (pvr_abs p)\<lparr>f_vma := vma\<rparr>"
proof -
  have "vma AND NOT (mask 1) = vma"
    using assms by (intro u64_and_not_mask) simp
  moreover have "pvr_abs (pvr_set_vma p (vma AND NOT (mask 1)))
      = (pvr_abs p)\<lparr>f_vma := vma AND NOT (mask 1)\<rparr>"
    by (auto simp: pvr_abs_defs bit_simps intro!: bit_word_eqI)
  ultimately show ?thesis by simp
qed

lemma pvr_abs_mk:
  "pvr_abs (pvr_mk_valid p) = (pvr_abs p)\<lparr>f_valid := True\<rparr>"
  "pvr_abs (pvr_mk_invalid p) = (pvr_abs p)\<lparr>f_valid := False\<rparr>"
  by (auto simp: pvr_abs_def pvr_get_defs pvr_set_defs pvr_is_valid_bit bit_simps
        intro!: bit_word_eqI)

lemma clear_rmap_entry_abs:
  assumes "i < 32"
  shows "pvr_abs (clear_rmap_entry i r)
    = \<lparr>f_vaddr = 0, f_idx = word_of_nat i, f_cpu = 0, f_vma = 0, f_valid = False\<rparr>"
proof -
  have "(word_of_nat i :: u64) < 32"
    using assms by (simp add: word_less_nat_alt unat_of_nat)
  then show ?thesis
    by (simp add: clear_rmap_entry_def Let_def pvr_abs_set_cpu pvr_abs_set_idx pvr_abs_set_vaddr
        pvr_abs_set_vma pvr_abs_mk)
qed

lemma pvr_fields_iff [fm_simps]:
  "pvr_get_vaddr p = f_vaddr (pvr_abs p)" "pvr_get_idx p = f_idx (pvr_abs p)"
  "pvr_get_cpu p = f_cpu (pvr_abs p)" "pvr_get_vma p = f_vma (pvr_abs p)"
  "pvr_is_valid p = f_valid (pvr_abs p)"
  by (simp_all add: pvr_abs_def)

lemmas pvr_refine = pvr_abs_set_cpu pvr_abs_set_idx pvr_abs_set_vaddr pvr_abs_set_vma pvr_abs_mk

text \<open>
  C28. Each setter of the packed reverse-map entry refines the update of its one field, for a CPU
  below 128, an index below 32, a page-aligned address and an even VMA pointer: no setter disturbs a
  field that shares its word.
\<close>

theorem pvr_setters_refine_fields:
  assumes "cpu < 128" and "idx < 32" and "vaddr AND 0xFFF = 0" and "vma AND 1 = 0"
  shows "pvr_abs (pvr_set_cpu p cpu) = (pvr_abs p)\<lparr>f_cpu := cpu\<rparr> \<and>
    pvr_abs (pvr_set_idx p idx) = (pvr_abs p)\<lparr>f_idx := idx\<rparr> \<and>
    pvr_abs (pvr_set_vaddr p vaddr) = (pvr_abs p)\<lparr>f_vaddr := vaddr\<rparr> \<and>
    pvr_abs (pvr_set_vma p vma) = (pvr_abs p)\<lparr>f_vma := vma\<rparr> \<and>
    pvr_abs (pvr_mk_valid p) = (pvr_abs p)\<lparr>f_valid := True\<rparr> \<and>
    pvr_abs (pvr_mk_invalid p) = (pvr_abs p)\<lparr>f_valid := False\<rparr>"
  using assms by (intro conjI) (simp_all add: pvr_refine)

theorem pvr_setters_refine_fields_witness:
  "pvr_abs (pvr_set_cpu \<lparr>pvr_vaddr_word = 0x7F85FA500185, pvr_vma_word = 0xFF01\<rparr> 5) =
     \<lparr>f_vaddr = 0x7F85FA500000, f_idx = 3, f_cpu = 5, f_vma = 0xFF00, f_valid = True\<rparr>"
proof -
  have "pvr_abs (pvr_set_cpu \<lparr>pvr_vaddr_word = 0x7F85FA500185, pvr_vma_word = 0xFF01\<rparr> 5) =
      (pvr_abs \<lparr>pvr_vaddr_word = 0x7F85FA500185, pvr_vma_word = 0xFF01\<rparr>)\<lparr>f_cpu := 5\<rparr>"
    using pvr_setters_refine_fields [of 5 3 "0x7F85FA500000" "0xFF00"] by simp
  then show ?thesis
    by (simp add: pvr_abs_def pvr_get_defs pvr_is_valid_def)
qed

lemma word_of_nat_less_32: "i < 32 \<Longrightarrow> (word_of_nat i :: u64) < 32"
  by (simp add: word_less_nat_alt unat_of_nat)

text \<open>
  The owner of a reverse-map entry is found from the entry alone: once \<^verbatim>\<open>pvr_set_idx\<close> has stored
  the position of the entry in its page, \<^verbatim>\<open>pvr_get_owner\<close> returns the address of the page, and storing an
  address, a VMA, a CPU or the valid flag in the entry afterwards does not change that.
\<close>

lemma pvr_owner_stable:
  assumes "i < 32" and "cpu < 128" and "vaddr AND 0xFFF = 0" and "vma AND 1 = 0"
  shows "pvr_get_owner (rmap_addr a i)
     (pvr_mk_valid (pvr_set_cpu (pvr_set_vma (pvr_set_vaddr
        (pvr_set_idx p (word_of_nat i)) vaddr) vma) cpu)) = a"
  using assms by (simp add: pvr_get_owner_def rmap_addr_def fm_simps pvr_refine word_of_nat_less_32)

lemma pvr_owner_stable_witness:
  "pvr_get_owner 0x1040
     (pvr_mk_valid (pvr_set_cpu (pvr_set_vma (pvr_set_vaddr
        (pvr_set_idx \<lparr>pvr_vaddr_word = 0, pvr_vma_word = 0\<rparr> (word_of_nat 2)) 0x5000) 0x80) 7)) = 0x1000"
  using pvr_owner_stable [of 2 7 "0x5000" "0x80" "0x1000" "\<lparr>pvr_vaddr_word = 0, pvr_vma_word = 0\<rparr>"]
  by (simp add: rmap_addr_def sizeof_pr_vma_rmap_def)

section \<open>Page lock and dirty flags\<close>

lemma tp_set_simps [simp]:
  "tp_page (tp_set_index i tp) = (tp_page tp)\<lparr>pg_index := i\<rparr>"
  "tp_page (tp_set_locked b tp) = (tp_page tp)\<lparr>pg_locked := b\<rparr>"
  "tp_page (tp_set_pg_dirty b tp) = (tp_page tp)\<lparr>pg_dirty := b\<rparr>"
  by (simp_all add: tp_set_defs)

lemma tp_set_frame [simp]:
  "tp_rmap (tp_set_index i tp) = tp_rmap tp" "tp_rmap (tp_set_locked b tp) = tp_rmap tp"
  "tp_rmap (tp_set_pg_dirty b tp) = tp_rmap tp"
  "tp_pvd (tp_set_index i tp) = tp_pvd tp" "tp_pvd (tp_set_locked b tp) = tp_pvd tp"
  "tp_pvd (tp_set_pg_dirty b tp) = tp_pvd tp"
  "tp_page_valid (tp_set_index i tp) = tp_page_valid tp"
  "tp_page_valid (tp_set_locked b tp) = tp_page_valid tp"
  "tp_page_valid (tp_set_pg_dirty b tp) = tp_page_valid tp"
  "tp_is_dirty (tp_set_index i tp) = tp_is_dirty tp"
  "tp_is_dirty (tp_set_locked b tp) = tp_is_dirty tp"
  "tp_is_dirty (tp_set_pg_dirty b tp) = tp_is_dirty tp"
  "tp_buffer_id (tp_set_index i tp) = tp_buffer_id tp"
  "tp_buffer_id (tp_set_locked b tp) = tp_buffer_id tp"
  "tp_buffer_id (tp_set_pg_dirty b tp) = tp_buffer_id tp"
  "tp_in_use (tp_set_index i tp) = tp_in_use tp" "tp_in_use (tp_set_locked b tp) = tp_in_use tp"
  "tp_in_use (tp_set_pg_dirty b tp) = tp_in_use tp"
  "tp_priority (tp_set_index i tp) = tp_priority tp"
  "tp_priority (tp_set_locked b tp) = tp_priority tp"
  "tp_priority (tp_set_pg_dirty b tp) = tp_priority tp"
  "tp_cpuid (tp_set_index i tp) = tp_cpuid tp" "tp_cpuid (tp_set_locked b tp) = tp_cpuid tp"
  "tp_cpuid (tp_set_pg_dirty b tp) = tp_cpuid tp"
  by (simp_all add: tp_set_defs)

lemma tp_set_locked_same: "pg_locked (tp_page tp) = b \<Longrightarrow> tp_set_locked b tp = tp"
  by (cases tp, cases "tp_page tp") (auto simp: tp_set_defs)

lemma tp_set_locked_twice [simp]: "tp_set_locked b (tp_set_locked c tp) = tp_set_locked b tp"
  by (simp add: tp_set_defs)

text \<open>
  C29. The page lock excludes: when \<^verbatim>\<open>trylock_tp\<close> returns 0 the page was in use, unlocked and had the
  requested index; it is locked now, no second \<^verbatim>\<open>trylock_tp\<close> on it returns 0, for any index, and
  \<^verbatim>\<open>unlock_tp\<close> gives the page back as it was.
\<close>

theorem trylock_tp_exclusive:
  assumes "trylock_tp tp index = (0, tp')"
  shows "tp_in_use tp = 1 \<and> (index = ULONG_MAX \<or> tp_index tp = index) \<and> \<not> locked_tp tp \<and>
    locked_tp tp' \<and> fst (trylock_tp tp' j) \<noteq> 0 \<and> unlock_tp tp' = tp"
  using assms
  by (auto simp: trylock_tp_def locked_tp_def unlock_tp_def tp_set_locked_same split: if_splits)

definition tp_example :: tagged_page where
  "tp_example = \<lparr>tp_rmap = [], tp_page = page_NULL\<lparr>pg_index := 7\<rparr>, tp_pvd = None,
     tp_page_valid = 1, tp_is_dirty = 0, tp_buffer_id = BI_CLEAN, tp_in_use = 1, tp_priority = 0,
     tp_cpuid = 0\<rparr>"

theorem trylock_tp_exclusive_witness:
  "locked_tp (tp_set_locked True tp_example) \<and>
   fst (trylock_tp (tp_set_locked True tp_example) ULONG_MAX) \<noteq> 0"
proof -
  have "trylock_tp tp_example 7 = (0, tp_set_locked True tp_example)"
    by (simp add: trylock_tp_def tp_example_def page_NULL_def)
  from trylock_tp_exclusive [OF this, of ULONG_MAX] show ?thesis by simp
qed

lemma trylock_tp_0_iff [fm_simps]:
  "trylock_tp tp index = (0, tp') \<longleftrightarrow> tp_in_use tp = 1 \<and> (index = ULONG_MAX \<or> tp_index tp = index)
     \<and> \<not> locked_tp tp \<and> tp' = tp_set_locked True tp"
  by (auto simp: trylock_tp_def locked_tp_def)

end
