(* ===== verification/Page_Map.thy ===== *)
theory Page_Map
  imports Tagged_Page
begin

text \<open>
  \<^verbatim>\<open>mmap_buffer_hash_table.c\<close>: the array of tagged pages, the per-CPU free lists, and the table that
  orders the NUMA nodes by distance. The record \<open>page_map\<close> is the first part of the driver's state:
  later theories extend it, so its operations apply to the whole state.
\<close>

section \<open>The kernel's topology\<close>

text \<open>
  What the driver asks the kernel about the machine: the CPUs, the NUMA nodes, their distances, the
  CPUs of a node in the order of \<^verbatim>\<open>for_each_cpu\<close>, and the page frames of the allocator. All of it is a
  parameter.
\<close>

record topology =
  num_online_cpus :: nat
  num_online_nodes :: nat
  node_distance :: "nat \<Rightarrow> nat \<Rightarrow> int"
  cpumask_of_node :: "nat \<Rightarrow> nat list"
  alloc_pages_node :: "pid \<Rightarrow> nat \<Rightarrow> page"

section \<open>The NUMA distance vector\<close>

text \<open>The inner \<^verbatim>\<open>while\<close> of the insertion sort: \<open>b\<close> is the start of the row, \<open>d\<close> the distance to its node.\<close>

fun numa_sink :: "(nat \<Rightarrow> int) \<Rightarrow> nat \<Rightarrow> nat list \<Rightarrow> nat \<Rightarrow> nat list" where
  "numa_sink d b dv 0 = dv"
| "numa_sink d b dv (Suc l) =
     (if d (dv ! (b + l)) > d (dv ! (b + Suc l))
      then numa_sink d b (dv[b + l := dv ! (b + Suc l), b + Suc l := dv ! (b + l)]) l
      else dv)"

definition numa_fill_row :: "nat \<Rightarrow> nat \<Rightarrow> nat list \<Rightarrow> nat list" where
  "numa_fill_row b nodes dv = fold (\<lambda>k dv. dv[b + k := k]) [0..<nodes] dv"

definition numa_sort_row :: "(nat \<Rightarrow> int) \<Rightarrow> nat \<Rightarrow> nat \<Rightarrow> nat list \<Rightarrow> nat list" where
  "numa_sort_row d b nodes dv = fold (\<lambda>k dv. numa_sink d b dv k) [1..<nodes] dv"

text \<open>\<open>dv0\<close> is the memory \<^verbatim>\<open>vmalloc\<close> returned, of \<open>nodes * nodes\<close> entries.\<close>

definition init_numa_distance_vector :: "topology \<Rightarrow> nat list \<Rightarrow> nat list" where
  "init_numa_distance_vector T dv0 =
     (let nodes = num_online_nodes T
      in fold (\<lambda>j dv. numa_sort_row (node_distance T j) (j * nodes) nodes
                        (numa_fill_row (j * nodes) nodes dv)) [0..<nodes] dv0)"

section \<open>The page map\<close>

text \<open>
  \<^verbatim>\<open>buffer_map_t\<close>: the array \<^verbatim>\<open>pages\<close>, its length, the free lists \<^verbatim>\<open>fl\<close> and the global \<^verbatim>\<open>__NUMA_DV__\<close>
  (\<open>None\<close> is NULL).
\<close>

record page_map =
  pm_pages :: pages
  pm_total :: nat
  pm_fl :: "nat \<Rightarrow> pid list"
  pm_numa_dv :: "nat list option"

definition upd_page :: "pid \<Rightarrow> (tagged_page \<Rightarrow> tagged_page) \<Rightarrow> 'a page_map_scheme \<Rightarrow> 'a page_map_scheme" where
  "upd_page p f s = s\<lparr>pm_pages := (pm_pages s)(p := f (pm_pages s p))\<rparr>"

definition init_free_page :: "topology \<Rightarrow> nat \<Rightarrow> pid \<Rightarrow> 'a page_map_scheme \<Rightarrow> 'a page_map_scheme" where
  "init_free_page T cpu i s =
     (let s = upd_page i init_tagged_page_meta_data s;
          s = upd_page i (alloc_tagged_page_data (alloc_pages_node T i) i cpu) s
      in s\<lparr>pm_fl := (pm_fl s)(cpu := pm_fl s cpu @ [i])\<rparr>)"

definition init_hash_table_free_pages ::
  "topology \<Rightarrow> nat \<Rightarrow> 'a page_map_scheme \<Rightarrow> 'a page_map_scheme" where
  "init_hash_table_free_pages T num_free_pages s =
     (let ncpus = num_online_cpus T;
          s = s\<lparr>pm_fl := (\<lambda>cpu. if cpu < ncpus then [] else pm_fl s cpu)\<rparr>;
          s = s\<lparr>pm_total := num_free_pages\<rparr>;
          num_pages_percpu = num_free_pages div ncpus
      in fold (\<lambda>cpu. fold (init_free_page T cpu)
                        [cpu * num_pages_percpu..<(cpu + 1) * num_pages_percpu])
           [0..<ncpus] s)"

text \<open>
  \<^verbatim>\<open>free_hash_table\<close> empties the free lists, gives the frames of the listed pages back and drops the
  distance vector. Its callers pass the address of a member, so the test for NULL has no branch here.
\<close>

definition free_hash_table :: "topology \<Rightarrow> 'a page_map_scheme \<Rightarrow> 'a page_map_scheme" where
  "free_hash_table T s =
     (let s = fold (\<lambda>cpu s. fold (\<lambda>p s. upd_page p free_tagged_page_data
                                   (s\<lparr>pm_fl := (pm_fl s)(cpu := remove1 p (pm_fl s cpu))\<rparr>))
                              (pm_fl s cpu) s)
                [0..<num_online_cpus T] s
      in s\<lparr>pm_numa_dv := None\<rparr>)"

text \<open>
  The two nested loops of \<^verbatim>\<open>alloc_page_lock\<close>. The local variable \<^verbatim>\<open>tagged_page\<close> is the first argument:
  each CPU visited overwrites it, and the loop over the nodes has no \<^verbatim>\<open>break\<close>.
\<close>

fun alloc_scan_cpus ::
  "pid option \<Rightarrow> nat list \<Rightarrow> 'a page_map_scheme \<Rightarrow> pid option \<times> 'a page_map_scheme" where
  "alloc_scan_cpus tp [] s = (tp, s)"
| "alloc_scan_cpus tp (cpu # cpus) s =
     (case pm_fl s cpu of
        [] \<Rightarrow> alloc_scan_cpus None cpus s
      | p # rest \<Rightarrow>
          (Some p, upd_page p (\<lambda>t. t\<lparr>tp_cpuid := cpu\<rparr>) (s\<lparr>pm_fl := (pm_fl s)(cpu := rest)\<rparr>)))"

fun alloc_scan_nodes ::
  "topology \<Rightarrow> pid option \<Rightarrow> nat list \<Rightarrow> 'a page_map_scheme \<Rightarrow> pid option \<times> 'a page_map_scheme" where
  "alloc_scan_nodes T tp [] s = (tp, s)"
| "alloc_scan_nodes T tp (node # nodes) s =
     (let (tp, s) = alloc_scan_cpus tp (cpumask_of_node T node) s
      in alloc_scan_nodes T tp nodes s)"

definition reset_rmap :: "nat \<Rightarrow> pr_vma_rmap \<Rightarrow> pr_vma_rmap" where
  "reset_rmap i r =
     (let r = pvr_mk_invalid r;
          r = pvr_set_vaddr r 0;
          r = pvr_set_vma r 0;
          r = pvr_set_cpu r 0
      in pvr_set_idx r (word_of_nat i))"

definition reset_rmaps :: "tagged_page \<Rightarrow> tagged_page" where
  "reset_rmaps tp =
     tp\<lparr>tp_rmap := map (\<lambda>i. reset_rmap i (tp_rmap tp ! i)) [0..<MAX_RMAPS_PER_PAGE]\<rparr>"

definition claim_page :: "u64 \<Rightarrow> nat \<Rightarrow> tagged_page \<Rightarrow> tagged_page" where
  "claim_page page_offset pvd tp =
     (let tp = tp\<lparr>tp_page_valid := 0\<rparr>;
          tp = tp\<lparr>tp_buffer_id := BI_NONE\<rparr>;
          tp = tp_set_index page_offset tp;
          tp = tp\<lparr>tp_pvd := Some pvd\<rparr>;
          tp = tp\<lparr>tp_is_dirty := 0\<rparr>;
          tp = tp\<lparr>tp_priority := 0\<rparr>;
          tp = reset_rmaps tp
      in tp\<lparr>tp_in_use := 1\<rparr>)"

text \<open>\<open>nodeid\<close> is the node of the running CPU.\<close>

definition alloc_page_lock ::
  "topology \<Rightarrow> nat \<Rightarrow> u64 \<Rightarrow> nat \<Rightarrow> 'a page_map_scheme \<Rightarrow> pid option \<times> 'a page_map_scheme" where
  "alloc_page_lock T nodeid page_offset pvd s =
     (let nodes = num_online_nodes T;
          dv = (case pm_numa_dv s of None \<Rightarrow> [] | Some dv \<Rightarrow> dv);
          (tp, s) = alloc_scan_nodes T None (map (\<lambda>i. dv ! (nodeid * nodes + i)) [0..<nodes]) s
      in case tp of
           None \<Rightarrow> (None, s)
         | Some p \<Rightarrow> (Some p, upd_page p (claim_page page_offset pvd) s))"

definition release_page :: "tagged_page \<Rightarrow> tagged_page" where
  "release_page tp =
     (let tp = tp\<lparr>tp_in_use := 0\<rparr>;
          tp = tp_set_index 0 tp;
          tp = tp\<lparr>tp_pvd := None\<rparr>;
          tp = tp\<lparr>tp_page_valid := 0\<rparr>;
          tp = tp\<lparr>tp_buffer_id := BI_NONE\<rparr>;
          tp = tp\<lparr>tp_is_dirty := 0\<rparr>;
          tp = tp\<lparr>tp_priority := 0\<rparr>;
          tp = tp\<lparr>tp_cpuid := 0\<rparr>;
          tp = reset_rmaps tp
      in unlock_tp tp)"

definition free_page_lock :: "pid \<Rightarrow> 'a page_map_scheme \<Rightarrow> 'a page_map_scheme" where
  "free_page_lock p s =
     (let cpu = tp_cpuid (pm_pages s p);
          s = upd_page p release_page s
      in s\<lparr>pm_fl := (pm_fl s)(cpu := pm_fl s cpu @ [p])\<rparr>)"

section \<open>The distance vector is sorted\<close>

lemma numa_sink_slice:
  "l < length row \<Longrightarrow> length xs = b \<Longrightarrow>
   numa_sink d b (xs @ row @ zs) l = xs @ numa_sink d 0 row l @ zs"
proof (induction l arbitrary: row)
  case (Suc l)
  then have "(xs @ row @ zs) ! (b + l) = row ! l" "(xs @ row @ zs) ! (b + Suc l) = row ! Suc l"
    by (simp_all add: nth_append)
  moreover have "(xs @ row @ zs)[b + l := x, b + Suc l := y] = xs @ row[l := x, Suc l := y] @ zs"
    for x y using Suc.prems by (simp add: list_update_append)
  ultimately show ?case using Suc by simp
qed simp

lemma numa_sink_length [simp]: "length (numa_sink d b dv l) = length dv"
  by (induction d b dv l rule: numa_sink.induct) auto

lemma numa_sink_mset: "b + l < length dv \<Longrightarrow> mset (numa_sink d b dv l) = mset dv"
proof (induction d b dv l rule: numa_sink.induct)
  case (2 d b dv l)
  then show ?case using mset_swap [of "b + l" dv "b + Suc l"]
    by (auto simp: list_update_swap)
qed simp

lemma numa_sort_row_slice:
  assumes "length xs = b" and "length row = nodes"
  shows "numa_sort_row d b nodes (xs @ row @ zs) = xs @ numa_sort_row d 0 nodes row @ zs"
proof -
  have "n \<le> nodes \<Longrightarrow> length row = nodes \<Longrightarrow>
      fold (\<lambda>k dv. numa_sink d b dv k) [1..<n] (xs @ row @ zs)
      = xs @ fold (\<lambda>k dv. numa_sink d 0 dv k) [1..<n] row @ zs \<and>
      length (fold (\<lambda>k dv. numa_sink d 0 dv k) [1..<n] row) = nodes" for n
  proof (induction n)
    case (Suc n)
    show ?case
    proof (cases "n = 0")
      case False
      with Suc have "fold (\<lambda>k dv. numa_sink d b dv k) [1..<Suc n] (xs @ row @ zs)
          = numa_sink d b (xs @ fold (\<lambda>k dv. numa_sink d 0 dv k) [1..<n] row @ zs) n" by simp
      with Suc False assms(1) show ?thesis by (simp add: numa_sink_slice)
    qed (use Suc in simp)
  qed simp
  then show ?thesis using assms(2) by (simp add: numa_sort_row_def)
qed

text \<open>Sinking the element at \<open>l\<close> into the sorted prefix before it.\<close>

lemma numa_sink_sorted_upto:
  assumes "l \<le> m" and "m < length a"
    and "\<And>i j. i < j \<Longrightarrow> j \<le> m \<Longrightarrow> i \<noteq> l \<Longrightarrow> j \<noteq> l \<Longrightarrow> d (a ! i) \<le> d (a ! j)"
    and "\<And>j. l < j \<Longrightarrow> j \<le> m \<Longrightarrow> d (a ! l) \<le> d (a ! j)"
  shows "i < j \<Longrightarrow> j \<le> m \<Longrightarrow> d (numa_sink d 0 a l ! i) \<le> d (numa_sink d 0 a l ! j)"
  using assms
proof (induction l arbitrary: a)
  case 0
  then show ?case by (cases "i = 0") auto
next
  case (Suc l)
  show ?case
  proof (cases "d (a ! l) > d (a ! Suc l)")
    case True
    let ?a = "a[l := a ! Suc l, Suc l := a ! l]"
    have n: "?a ! i = (if i = l then a ! Suc l else if i = Suc l then a ! l else a ! i)" for i
      using Suc.prems(3,4) by (auto simp: nth_list_update)
    have "d (numa_sink d 0 ?a l ! i) \<le> d (numa_sink d 0 ?a l ! j)"
    proof (rule Suc.IH)
      fix i j assume ij: "i < j" "j \<le> m" "i \<noteq> l" "j \<noteq> l"
      show "d (?a ! i) \<le> d (?a ! j)"
        using ij Suc.prems(5) [of i j] Suc.prems(5) [of l j] Suc.prems(5) [of i l]
        by (cases "i = Suc l"; cases "j = Suc l") (auto simp: n)
    next
      fix j assume "l < j" "j \<le> m"
      then show "d (?a ! l) \<le> d (?a ! j)"
        using True Suc.prems(6) [of j] by (auto simp: n)
    qed (use Suc.prems in auto)
    with True show ?thesis by simp
  next
    case False
    have le: "d (a ! i) \<le> d (a ! Suc l)" if "i < Suc l" for i
      using that False Suc.prems(3) Suc.prems(5) [of i l] by (cases "i = l") auto
    show ?thesis
      using False Suc.prems(1,2) Suc.prems(5) [of i j] Suc.prems(6) [of j] le [of i]
      by (cases "i = Suc l"; cases "j = Suc l") auto
  qed
qed

lemma numa_sink_sorted:
  assumes "l < length a" and "sorted (map d (take l a))"
  shows "sorted (map d (take (Suc l) (numa_sink d 0 a l)))"
proof -
  have "d (numa_sink d 0 a l ! i) \<le> d (numa_sink d 0 a l ! j)" if "i < j" "j \<le> l" for i j
    by (rule numa_sink_sorted_upto [where m = l])
      (use assms that in \<open>auto simp: sorted_iff_nth_mono_less\<close>)
  then show ?thesis
    by (auto simp: sorted_iff_nth_mono_less less_Suc_eq_le)
qed

lemma numa_sort_row_spec:
  assumes "length row = nodes"
  shows "mset (numa_sort_row d 0 nodes row) = mset row \<and> sorted (map d (numa_sort_row d 0 nodes row))"
proof -
  let ?f = "\<lambda>n. fold (\<lambda>k dv. numa_sink d 0 dv k) [1..<n] row"
  have "1 \<le> n \<Longrightarrow> n \<le> nodes \<Longrightarrow>
      length (?f n) = nodes \<and> mset (?f n) = mset row \<and> sorted (map d (take n (?f n)))" for n
  proof (induction n)
    case (Suc n)
    show ?case
    proof (cases "n = 0")
      case True
      with Suc assms show ?thesis by (cases row) auto
    next
      case False
      with Suc have "length (?f n) = nodes" "mset (?f n) = mset row" "sorted (map d (take n (?f n)))"
        by auto
      with Suc False show ?thesis
        using numa_sink_sorted [of n "?f n" d] numa_sink_mset [of 0 n "?f n" d] by simp
    qed
  qed simp
  from this [of nodes] assms show ?thesis
    by (cases "nodes = 0") (auto simp: numa_sort_row_def)
qed

lemma numa_fill_row_slice:
  assumes "length xs = b" and "length row = nodes"
  shows "numa_fill_row b nodes (xs @ row @ zs) = xs @ [0..<nodes] @ zs"
proof -
  have "n \<le> nodes \<Longrightarrow>
      fold (\<lambda>k dv. dv[b + k := k]) [0..<n] (xs @ row @ zs) = xs @ ([0..<n] @ drop n row) @ zs" for n
  proof (induction n)
    case (Suc n)
    then have "drop n row = row ! n # drop (Suc n) row" using assms(2) by (simp add: Cons_nth_drop_Suc)
    with Suc assms show ?case by (simp add: list_update_append)
  qed simp
  from this [of nodes] assms(2) show ?thesis by (simp add: numa_fill_row_def)
qed

definition numa_row :: "topology \<Rightarrow> nat \<Rightarrow> nat list" where
  "numa_row T j = numa_sort_row (node_distance T j) 0 (num_online_nodes T) [0..<num_online_nodes T]"

lemma numa_row_length [simp]: "length (numa_row T j) = num_online_nodes T"
  using numa_sort_row_spec [of "[0..<num_online_nodes T]" "num_online_nodes T" "node_distance T j"]
  by (metis diff_zero length_upt numa_row_def size_mset)

lemma numa_rows_length [simp]: "length (concat (map (numa_row T) js)) = length js * num_online_nodes T"
  by (simp add: length_concat comp_def sum_list_triv)

lemma init_numa_rows:
  assumes "m \<le> num_online_nodes T" "length dv0 = num_online_nodes T * num_online_nodes T"
  shows "fold (\<lambda>j dv. numa_sort_row (node_distance T j) (j * num_online_nodes T) (num_online_nodes T)
      (numa_fill_row (j * num_online_nodes T) (num_online_nodes T) dv)) [0..<m] dv0
    = concat (map (numa_row T) [0..<m]) @ drop (m * num_online_nodes T) dv0"
  using assms(1)
proof (induction m)
  case (Suc m)
  let ?n = "num_online_nodes T"
  let ?xs = "concat (map (numa_row T) [0..<m])"
  let ?row = "take ?n (drop (m * ?n) dv0)" and ?zs = "drop (Suc m * ?n) dv0"
  have "Suc m * ?n \<le> length dv0" unfolding assms(2) using Suc.prems by (rule mult_le_mono1)
  then have row: "length ?row = ?n" by simp
  have eq: "drop (m * ?n) dv0 = ?row @ ?zs"
    by (metis add.commute append_take_drop_id drop_drop mult_Suc)
  have xs: "length ?xs = m * ?n" by simp
  have "numa_sort_row (node_distance T m) (m * ?n) ?n
      (numa_fill_row (m * ?n) ?n (?xs @ ?row @ ?zs)) = ?xs @ numa_row T m @ ?zs"
    unfolding numa_fill_row_slice [OF xs row] numa_row_def [of T m]
    by (rule numa_sort_row_slice [OF xs]) simp
  with Suc eq show ?case by simp
qed simp

text \<open>
  C33. Row \<open>j\<close> of the distance vector lists every NUMA node exactly once, in the order of increasing
  distance from node \<open>j\<close>, whatever the allocated memory held.
\<close>

theorem init_numa_distance_vector_sorted:
  assumes "length dv0 = num_online_nodes T * num_online_nodes T" and "j < num_online_nodes T"
  shows "let row = take (num_online_nodes T)
                     (drop (j * num_online_nodes T) (init_numa_distance_vector T dv0))
    in mset row = mset [0..<num_online_nodes T] \<and> sorted (map (node_distance T j) row)"
proof -
  let ?n = "num_online_nodes T"
  have dv: "init_numa_distance_vector T dv0 = concat (map (numa_row T) [0..<?n])"
    using assms(1) init_numa_rows [of ?n T dv0] by (simp add: init_numa_distance_vector_def)
  have "[0..<?n] = [0..<j] @ j # [Suc j..<?n]"
    using assms(2) upt_add_eq_append [of 0 j "?n - j"] by (simp add: upt_conv_Cons)
  then have "init_numa_distance_vector T dv0 =
      concat (map (numa_row T) [0..<j]) @ numa_row T j @ concat (map (numa_row T) [Suc j..<?n])"
    unfolding dv by (simp del: upt_conv_Cons)
  then have "take ?n (drop (j * ?n) (init_numa_distance_vector T dv0)) = numa_row T j"
    by simp
  then show ?thesis
    using numa_sort_row_spec [of "[0..<?n]" ?n "node_distance T j"] by (simp add: numa_row_def)
qed

definition two_node_topology :: topology where
  "two_node_topology = \<lparr>num_online_cpus = 4, num_online_nodes = 2,
     node_distance = (\<lambda>i j. if i = j then 10 else 21),
     cpumask_of_node = (\<lambda>n. [2 * n, 2 * n + 1]), alloc_pages_node = (\<lambda>p cpu. page_NULL\<lparr>pg_is_null := False\<rparr>)\<rparr>"

theorem init_numa_distance_vector_sorted_witness:
  "mset (take 2 (drop 2 (init_numa_distance_vector two_node_topology [0, 0, 0, 0]))) = {#0, 1#} \<and>
   init_numa_distance_vector two_node_topology [0, 0, 0, 0] = [0, 1, 1, 0]"
proof -
  have "length [0, 0, 0, 0 :: nat] = num_online_nodes two_node_topology * num_online_nodes two_node_topology"
    and "1 < num_online_nodes two_node_topology"
    by (simp_all add: two_node_topology_def)
  from init_numa_distance_vector_sorted [OF this] show ?thesis
    by (simp add: two_node_topology_def init_numa_distance_vector_def numa_sort_row_def
        numa_fill_row_def upt_rec numeral_nat)
qed

section \<open>Free lists\<close>

definition free_set :: "topology \<Rightarrow> 'a page_map_scheme \<Rightarrow> pid set" where
  "free_set T s = (\<Union>c\<in>{..<num_online_cpus T}. set (pm_fl s c))"

text \<open>
  A well-formed page map: no page is on two free lists or twice on one, and a page on a free list
  is a page of the array that is not in use, not locked and in no buffer.
\<close>

definition pm_wf :: "topology \<Rightarrow> 'a page_map_scheme \<Rightarrow> bool" where
  "pm_wf T s \<longleftrightarrow>
     (\<forall>c<num_online_cpus T. distinct (pm_fl s c)) \<and>
     (\<forall>c<num_online_cpus T. \<forall>c'<num_online_cpus T. c \<noteq> c' \<longrightarrow> set (pm_fl s c) \<inter> set (pm_fl s c') = {}) \<and>
     (\<forall>p\<in>free_set T s. p < pm_total s \<and> tp_in_use (pm_pages s p) = 0 \<and> \<not> locked_tp (pm_pages s p) \<and>
        tp_buffer_id (pm_pages s p) = BI_NONE)"

definition topology_ok :: "topology \<Rightarrow> bool" where
  "topology_ok T \<longleftrightarrow> (\<forall>n. \<forall>c\<in>set (cpumask_of_node T n). c < num_online_cpus T)"

lemma upd_page_simps [simp]:
  "pm_pages (upd_page p f s) = (pm_pages s)(p := f (pm_pages s p))"
  "pm_fl (upd_page p f s) = pm_fl s" "pm_total (upd_page p f s) = pm_total s"
  "pm_numa_dv (upd_page p f s) = pm_numa_dv s" "page_map.more (upd_page p f s) = page_map.more s"
  "free_set T (upd_page p f s) = free_set T s"
  by (simp_all add: upd_page_def free_set_def)

lemma pm_wf_upd_page:
  assumes "pm_wf T s" and "p \<notin> free_set T s"
  shows "pm_wf T (upd_page p f s)"
  using assms by (auto simp: pm_wf_def)

lemma free_setI: "c < num_online_cpus T \<Longrightarrow> p \<in> set (pm_fl s c) \<Longrightarrow> p \<in> free_set T s"
  by (auto simp: free_set_def)

text \<open>Taking the first page of the list of CPU \<open>c\<close>.\<close>

definition fl_pop :: "nat \<Rightarrow> pid \<Rightarrow> pid list \<Rightarrow> 'a page_map_scheme \<Rightarrow> 'a page_map_scheme" where
  "fl_pop c p rest s = upd_page p (\<lambda>t. t\<lparr>tp_cpuid := c\<rparr>) (s\<lparr>pm_fl := (pm_fl s)(c := rest)\<rparr>)"

lemma fl_pop_wf:
  assumes "pm_wf T s" and "c < num_online_cpus T" and "pm_fl s c = p # rest"
  shows "pm_wf T (fl_pop c p rest s)" and "free_set T (fl_pop c p rest s) = free_set T s - {p}"
    and "p \<in> free_set T s"
proof -
  show p: "p \<in> free_set T s" using assms(2,3) by (auto intro: free_setI)
  have "p \<notin> set (pm_fl s c')" if "c' < num_online_cpus T" "c' \<noteq> c" for c'
    using assms that by (fastforce simp: pm_wf_def)
  moreover have "p \<notin> set rest" using assms by (auto simp: pm_wf_def)
  moreover have "free_set T t = set (pm_fl t c) \<union> (\<Union>c'\<in>{..<num_online_cpus T} - {c}. set (pm_fl t c'))"
    for t :: "'a page_map_scheme" using assms(2) by (auto simp: free_set_def)
  ultimately show fs: "free_set T (fl_pop c p rest s) = free_set T s - {p}"
    using assms(3) by (auto simp: fl_pop_def)
  have "distinct rest" using assms by (auto simp: pm_wf_def)
  moreover have "set rest \<subseteq> set (pm_fl s c)" using assms(3) by auto
  ultimately show "pm_wf T (fl_pop c p rest s)"
    using assms(1,2) fs unfolding pm_wf_def
    by (intro conjI) (auto simp: fl_pop_def, blast+)
qed

lemma alloc_scan_cpus_cases:
  "alloc_scan_cpus tp cpus s = (r, s') \<Longrightarrow>
     (\<forall>c\<in>set cpus. pm_fl s c = []) \<and> s' = s \<and> r = (if cpus = [] then tp else None) \<or>
     (\<exists>c p rest. c \<in> set cpus \<and> pm_fl s c = p # rest \<and> r = Some p \<and> s' = fl_pop c p rest s)"
proof (induction tp cpus s rule: alloc_scan_cpus.induct)
  case (2 tp cpu cpus s)
  then show ?case by (cases "pm_fl s cpu") (auto simp: fl_pop_def split: if_splits)
qed simp

text \<open>
  What a scan may do to the map: it takes pages off the free lists and writes their \<^verbatim>\<open>cpuid\<close>, nothing
  else.
\<close>

definition scan_effect :: "topology \<Rightarrow> 'a page_map_scheme \<Rightarrow> 'a page_map_scheme \<Rightarrow> bool" where
  "scan_effect T s s' \<longleftrightarrow>
     pm_wf T s' \<and> free_set T s' \<subseteq> free_set T s \<and>
     (\<exists>ps fl. s' = s\<lparr>pm_pages := ps, pm_fl := fl\<rparr>) \<and>
     (\<forall>p. pm_pages s' p = pm_pages s p \<or>
        p \<in> free_set T s - free_set T s' \<and>
        (\<exists>c<num_online_cpus T. pm_pages s' p = (pm_pages s p)\<lparr>tp_cpuid := c\<rparr>))"

lemma scan_effect_refl: "pm_wf T s \<Longrightarrow> scan_effect T s s"
proof -
  have "s = s\<lparr>pm_pages := pm_pages s, pm_fl := pm_fl s\<rparr>" by simp
  then show "pm_wf T s \<Longrightarrow> scan_effect T s s" unfolding scan_effect_def by blast
qed

lemma scan_effect_pop:
  assumes "pm_wf T s" and "c < num_online_cpus T" and "pm_fl s c = p # rest"
  shows "scan_effect T s (fl_pop c p rest s)"
proof -
  have "fl_pop c p rest s = s\<lparr>pm_pages := (pm_pages s)(p := (pm_pages s p)\<lparr>tp_cpuid := c\<rparr>),
      pm_fl := (pm_fl s)(c := rest)\<rparr>"
    by (simp add: fl_pop_def upd_page_def)
  then have "\<exists>ps fl. fl_pop c p rest s = s\<lparr>pm_pages := ps, pm_fl := fl\<rparr>" by blast
  moreover have "pm_pages (fl_pop c p rest s) q = pm_pages s q \<or> q = p \<and>
      pm_pages (fl_pop c p rest s) q = (pm_pages s q)\<lparr>tp_cpuid := c\<rparr>" for q
    by (simp add: fl_pop_def)
  ultimately show ?thesis
    using fl_pop_wf [OF assms] assms(2) unfolding scan_effect_def by blast
qed

lemma scan_effect_trans:
  assumes "scan_effect T s s1" and "scan_effect T s1 s2"
  shows "scan_effect T s s2"
proof -
  have sub: "free_set T s2 \<subseteq> free_set T s1" "free_set T s1 \<subseteq> free_set T s"
    using assms by (auto simp: scan_effect_def)
  obtain ps fl ps' fl' where eq: "s1 = s\<lparr>pm_pages := ps, pm_fl := fl\<rparr>" "s2 = s1\<lparr>pm_pages := ps', pm_fl := fl'\<rparr>"
    using assms unfolding scan_effect_def by blast
  then have "s2 = s\<lparr>pm_pages := ps', pm_fl := fl'\<rparr>" by simp
  moreover have "pm_pages s2 p = pm_pages s p \<or> p \<in> free_set T s - free_set T s2 \<and>
      (\<exists>c<num_online_cpus T. pm_pages s2 p = (pm_pages s p)\<lparr>tp_cpuid := c\<rparr>)" for p
    using assms sub unfolding scan_effect_def by (metis Diff_iff subsetD)
  ultimately show ?thesis
    using assms sub unfolding scan_effect_def by blast
qed

lemma alloc_scan_nodes_spec:
  assumes "topology_ok T" and "pm_wf T s" and "alloc_scan_nodes T tp nodes s = (r, s')"
  shows "scan_effect T s s' \<and>
    (\<forall>p. r = Some p \<longrightarrow> tp = Some p \<or>
       p \<in> free_set T s - free_set T s' \<and> tp_cpuid (pm_pages s' p) < num_online_cpus T)"
  using assms(2,3)
proof (induction nodes arbitrary: tp s)
  case Nil
  then show ?case by (simp add: scan_effect_refl)
next
  case (Cons node nodes)
  obtain tp1 s1 where sc: "alloc_scan_cpus tp (cpumask_of_node T node) s = (tp1, s1)" by fastforce
  with Cons.prems(2) have rest: "alloc_scan_nodes T tp1 nodes s1 = (r, s')" by simp
  from alloc_scan_cpus_cases [OF sc] show ?case
  proof (elim disjE conjE exE)
    assume "s1 = s" "tp1 = (if cpumask_of_node T node = [] then tp else None)"
    with Cons.IH [of s tp1] Cons.prems(1) rest show ?thesis by (auto split: if_splits)
  next
    fix c p ps
    assume c: "c \<in> set (cpumask_of_node T node)" "pm_fl s c = p # ps" "tp1 = Some p" "s1 = fl_pop c p ps s"
    then have n: "c < num_online_cpus T" using assms(1) by (auto simp: topology_ok_def)
    note pop = fl_pop_wf [OF Cons.prems(1) n c(2)] scan_effect_pop [OF Cons.prems(1) n c(2)]
    have IH: "scan_effect T s1 s'" "\<forall>q. r = Some q \<longrightarrow> tp1 = Some q \<or>
       q \<in> free_set T s1 - free_set T s' \<and> tp_cpuid (pm_pages s' q) < num_online_cpus T"
      using Cons.IH [OF _ rest] pop c(4) by auto
    have "pm_pages s' p = pm_pages s1 p" "p \<notin> free_set T s'"
      using IH(1) pop(2) c(4) by (auto simp: scan_effect_def)
    then have "tp_cpuid (pm_pages s' p) = c" by (simp add: c(4) fl_pop_def)
    then show ?thesis
      using IH c pop n scan_effect_trans [OF pop(4)] \<open>p \<notin> free_set T s'\<close> by (auto simp: c(4))
  qed
qed

lemma reset_rmap_abs:
  assumes "i < 32"
  shows "pvr_abs (reset_rmap i r)
    = \<lparr>f_vaddr = 0, f_idx = word_of_nat i, f_cpu = 0, f_vma = 0, f_valid = False\<rparr>"
  using word_of_nat_less_32 [OF assms] by (simp add: reset_rmap_def Let_def pvr_refine)

definition page_reset :: "tagged_page \<Rightarrow> bool" where
  "page_reset tp \<longleftrightarrow> length (tp_rmap tp) = MAX_RMAPS_PER_PAGE \<and>
     (\<forall>i<MAX_RMAPS_PER_PAGE. pvr_abs (tp_rmap tp ! i) =
        \<lparr>f_vaddr = 0, f_idx = word_of_nat i, f_cpu = 0, f_vma = 0, f_valid = False\<rparr>) \<and>
     tp_page_valid tp = 0 \<and> tp_is_dirty tp = 0 \<and> tp_buffer_id tp = BI_NONE \<and> tp_priority tp = 0"

lemma page_reset_reset_rmaps: "page_reset (reset_rmaps tp) \<longleftrightarrow>
    tp_page_valid tp = 0 \<and> tp_is_dirty tp = 0 \<and> tp_buffer_id tp = BI_NONE \<and> tp_priority tp = 0"
  by (auto simp: page_reset_def reset_rmaps_def reset_rmap_abs fm_const_defs)

lemma page_reset_cong [simp]:
  "page_reset (tp\<lparr>tp_in_use := n\<rparr>) = page_reset tp" "page_reset (tp_set_locked b tp) = page_reset tp"
  by (simp_all add: page_reset_def)

lemma claim_page_spec [fm_simps]:
  "page_reset (claim_page off pvd tp)" "tp_in_use (claim_page off pvd tp) = 1"
  "tp_index (claim_page off pvd tp) = off" "tp_pvd (claim_page off pvd tp) = Some pvd"
  "tp_cpuid (claim_page off pvd tp) = tp_cpuid tp" "locked_tp (claim_page off pvd tp) = locked_tp tp"
  by (simp_all add: claim_page_def Let_def page_reset_reset_rmaps, simp_all add: reset_rmaps_def locked_tp_def)

lemma release_page_spec [fm_simps]:
  "page_reset (release_page tp)" "tp_in_use (release_page tp) = 0" "tp_index (release_page tp) = 0"
  "tp_pvd (release_page tp) = None" "\<not> locked_tp (release_page tp)"
  by (simp_all add: release_page_def Let_def page_reset_reset_rmaps unlock_tp_def,
      simp_all add: reset_rmaps_def locked_tp_def)

lemma scan_effect_page:
  assumes "scan_effect T s s'" and "pm_wf T s"
  shows "pm_pages s' p = pm_pages s p \<or> tp_in_use (pm_pages s p) = 0 \<and> tp_buffer_id (pm_pages s p) = BI_NONE \<and>
    (\<exists>c. pm_pages s' p = (pm_pages s p)\<lparr>tp_cpuid := c\<rparr>)"
proof -
  have free: "p \<in> free_set T s \<Longrightarrow> tp_in_use (pm_pages s p) = 0 \<and> tp_buffer_id (pm_pages s p) = BI_NONE"
    using assms(2) by (simp add: pm_wf_def)
  have "pm_pages s' p = pm_pages s p \<or> p \<in> free_set T s \<and> (\<exists>c. pm_pages s' p = (pm_pages s p)\<lparr>tp_cpuid := c\<rparr>)"
    using assms(1) unfolding scan_effect_def by blast
  with free show ?thesis by blast
qed

lemma alloc_page_lock_cases:
  assumes "topology_ok T" and "pm_wf T s" and "alloc_page_lock T nodeid off pvd s = (r, s')"
  obtains s1 where "scan_effect T s s1"
    and "case r of None \<Rightarrow> s' = s1
         | Some p \<Rightarrow> s' = upd_page p (claim_page off pvd) s1 \<and> p \<in> free_set T s \<and> p \<notin> free_set T s1 \<and>
             tp_cpuid (pm_pages s1 p) < num_online_cpus T"
proof -
  obtain nodes tp s1 where sc: "alloc_scan_nodes T None nodes s = (tp, s1)"
    and s': "r = tp \<and> s' = (case tp of None \<Rightarrow> s1 | Some p \<Rightarrow> upd_page p (claim_page off pvd) s1)"
    using assms(3) by (auto simp: alloc_page_lock_def Let_def split: prod.splits option.splits)
  from alloc_scan_nodes_spec [OF assms(1,2) sc] s' show ?thesis
    by (intro that [of s1]) (auto split: option.splits)
qed

text \<open>
  C34. A page that \<^verbatim>\<open>alloc_page_lock\<close> returns was on a free list and is on none any more; it is in use,
  unlocked, carries the requested page number and backing object, has no mapping, is not dirty and
  remembers a CPU whose list it came from; the free lists stay well formed and no page that was not
  on a free list has changed.
\<close>

theorem alloc_page_lock_fresh:
  assumes "topology_ok T" and "pm_wf T s" and "alloc_page_lock T nodeid off pvd s = (Some p, s')"
  shows "p \<in> free_set T s \<and> p \<notin> free_set T s' \<and> pm_wf T s' \<and> free_set T s' \<subseteq> free_set T s \<and>
    tp_in_use (pm_pages s' p) = 1 \<and> \<not> locked_tp (pm_pages s' p) \<and> tp_index (pm_pages s' p) = off \<and>
    tp_pvd (pm_pages s' p) = Some pvd \<and> page_reset (pm_pages s' p) \<and>
    tp_cpuid (pm_pages s' p) < num_online_cpus T \<and>
    (\<forall>q. q \<notin> free_set T s \<longrightarrow> pm_pages s' q = pm_pages s q)"
proof -
  from alloc_page_lock_cases [OF assms] obtain s1 where eff: "scan_effect T s s1"
    and s': "s' = upd_page p (claim_page off pvd) s1" and p: "p \<in> free_set T s" "p \<notin> free_set T s1"
    "tp_cpuid (pm_pages s1 p) < num_online_cpus T" by auto
  have "locked_tp (pm_pages s1 p) = locked_tp (pm_pages s p)"
    using eff unfolding scan_effect_def locked_tp_def by (metis tagged_page.select_convs(2) tagged_page.surjective tagged_page.update_convs(9))
  moreover have "\<not> locked_tp (pm_pages s p)" using assms(2) p(1) by (auto simp: pm_wf_def)
  moreover have "pm_wf T s'" unfolding s' using eff p(2) by (auto simp: scan_effect_def intro: pm_wf_upd_page)
  ultimately show ?thesis
    using eff p unfolding s' scan_effect_def by (auto simp: fm_simps)
qed

lemma alloc_page_lock_one_node:
  assumes "topology_ok T" and "pm_wf T s" and "num_online_nodes T = 1" and "pm_numa_dv s = Some [0]"
  shows "case alloc_page_lock T 0 off pvd s of
      (None, s') \<Rightarrow> s' = s \<and> (\<forall>c\<in>set (cpumask_of_node T 0). pm_fl s c = [])
    | (Some p, s') \<Rightarrow> free_set T s' = free_set T s - {p} \<and>
        (\<exists>c\<in>set (cpumask_of_node T 0). pm_fl s c = p # pm_fl s' c \<and> tp_cpuid (pm_pages s' p) = c)"
proof -
  obtain r s1 where sc: "alloc_scan_cpus None (cpumask_of_node T 0) s = (r, s1)" by fastforce
  have al: "alloc_page_lock T 0 off pvd s = (case r of None \<Rightarrow> (None, s1)
      | Some p \<Rightarrow> (Some p, upd_page p (claim_page off pvd) s1))"
    using sc assms(3,4) by (simp add: alloc_page_lock_def)
  from alloc_scan_cpus_cases [OF sc] show ?thesis
  proof (elim disjE conjE exE)
    fix c p rest
    assume c: "c \<in> set (cpumask_of_node T 0)" "pm_fl s c = p # rest" "r = Some p" "s1 = fl_pop c p rest s"
    then have "c < num_online_cpus T" using assms(1) by (auto simp: topology_ok_def)
    from fl_pop_wf [OF assms(2) this c(2)] c show ?thesis
      by (auto simp: al fm_simps fl_pop_def)
  qed (auto simp: al)
qed

text \<open>
  On a machine with one NUMA node the allocation is exact: it fails only when every free list of
  the node is empty, and then changes nothing; otherwise exactly one page leaves the free lists.
\<close>

lemma alloc_page_lock_single_node:
  assumes "topology_ok T" and "pm_wf T s" and "num_online_nodes T = 1" and "pm_numa_dv s = Some [0]"
  shows "case alloc_page_lock T 0 off pvd s of
      (None, s') \<Rightarrow> s' = s \<and> (\<forall>c\<in>set (cpumask_of_node T 0). pm_fl s c = [])
    | (Some p, s') \<Rightarrow> free_set T s' = free_set T s - {p} \<and>
        (\<exists>c\<in>set (cpumask_of_node T 0). pm_fl s c = p # pm_fl s' c \<and> tp_cpuid (pm_pages s' p) = c)"
  using assms by (rule alloc_page_lock_one_node)

lemma free_page_lock_simps [simp]:
  "pm_total (free_page_lock p s) = pm_total s"
  "pm_pages (free_page_lock p s) = (pm_pages s)(p := release_page (pm_pages s p))"
  "pm_fl (free_page_lock p s) = (pm_fl s)(tp_cpuid (pm_pages s p) := pm_fl s (tp_cpuid (pm_pages s p)) @ [p])"
  "pm_numa_dv (free_page_lock p s) = pm_numa_dv s" "page_map.more (free_page_lock p s) = page_map.more s"
  by (simp_all add: free_page_lock_def Let_def)

lemma release_page_buffer_id [simp]: "tp_buffer_id (release_page tp) = BI_NONE"
  using release_page_spec(1) [of tp] by (simp add: page_reset_def)

lemma free_page_lock_wf:
  assumes "pm_wf T s" and "p \<notin> free_set T s" and "p < pm_total s" and "tp_cpuid (pm_pages s p) < num_online_cpus T"
  shows "pm_wf T (free_page_lock p s)" and "free_set T (free_page_lock p s) = insert p (free_set T s)"
proof -
  show fs: "free_set T (free_page_lock p s) = insert p (free_set T s)"
    using assms(4) by (auto simp: free_set_def split: if_splits)
  have "p \<notin> set (pm_fl s c')" if "c' < num_online_cpus T" for c'
    using assms(2) that by (auto simp: free_set_def)
  then show "pm_wf T (free_page_lock p s)"
    using assms unfolding pm_wf_def fs by (auto simp: fm_simps)
qed

text \<open>
  C35. \<^verbatim>\<open>free_page_lock\<close> puts a page that is on no free list at the tail of the list it was allocated
  from, unlocked, not in use and without mappings, and keeps the free lists well formed.
\<close>

theorem free_page_lock_spec:
  assumes "pm_wf T s" and "p \<notin> free_set T s" and "p < pm_total s"
    and "tp_cpuid (pm_pages s p) = c" and "c < num_online_cpus T"
  shows "pm_wf T (free_page_lock p s) \<and> free_set T (free_page_lock p s) = insert p (free_set T s) \<and>
    pm_fl (free_page_lock p s) c = pm_fl s c @ [p] \<and>
    tp_in_use (pm_pages (free_page_lock p s) p) = 0 \<and> \<not> locked_tp (pm_pages (free_page_lock p s) p) \<and>
    page_reset (pm_pages (free_page_lock p s) p)"
  using free_page_lock_wf [OF assms(1-3)] assms(4,5) by (simp add: fm_simps)

lemma init_free_page_simps [simp]:
  "pm_fl (init_free_page T cpu i s) = (pm_fl s)(cpu := pm_fl s cpu @ [i])"
  "pm_pages (init_free_page T cpu i s) = (pm_pages s)(i :=
     alloc_tagged_page_data (alloc_pages_node T i) i cpu (init_tagged_page_meta_data (pm_pages s i)))"
  "pm_total (init_free_page T cpu i s) = pm_total s"
  by (simp_all add: init_free_page_def Let_def)

lemma init_free_pages_fold:
  assumes "distinct is"
  shows "pm_fl (fold (init_free_page T cpu) is s) = (pm_fl s)(cpu := pm_fl s cpu @ is)"
    and "pm_pages (fold (init_free_page T cpu) is s) p =
      (if p \<in> set is
       then alloc_tagged_page_data (alloc_pages_node T p) p cpu (init_tagged_page_meta_data (pm_pages s p))
       else pm_pages s p)"
    and "pm_total (fold (init_free_page T cpu) is s) = pm_total s"
  using assms by (induction "is" arbitrary: s) auto

lemma in_block_iff: "0 < n \<Longrightarrow> c * n \<le> p \<and> p < n + c * n \<longleftrightarrow> p div n = (c :: nat)"
  using div_less_iff_less_mult [of n p "Suc c"] less_eq_div_iff_mult_less_eq [of n c p] by auto

definition initial_page :: "topology \<Rightarrow> pid \<Rightarrow> nat \<Rightarrow> tagged_page \<Rightarrow> tagged_page" where
  "initial_page T p cpu tp = alloc_tagged_page_data (alloc_pages_node T p) p cpu (init_tagged_page_meta_data tp)"

lemma init_cpus_fold:
  assumes "\<And>c. c < m \<Longrightarrow> pm_fl s c = []" and "0 < n"
    and "s' = fold (\<lambda>cpu. fold (init_free_page T cpu) [cpu * n..<(cpu + 1) * n]) [0..<m] s"
  shows "(\<forall>c. pm_fl s' c = (if c < m then [c * n..<(c + 1) * n] else pm_fl s c)) \<and>
    (\<forall>p. pm_pages s' p = (if p < m * n then initial_page T p (p div n) (pm_pages s p) else pm_pages s p)) \<and>
    pm_total s' = pm_total s"
  using assms(1) unfolding assms(3)
proof (induction m)
  case (Suc m)
  have blk: "p < n + m * n \<longleftrightarrow> p < m * n \<or> p div n = m" for p
    using in_block_iff [OF assms(2), of m p] by linarith
  have "\<not> (p < m * n \<and> p div n = m)" for p
    using in_block_iff [OF assms(2), of m p] by linarith
  then show ?case
    using Suc by (auto simp: init_free_pages_fold initial_page_def blk in_block_iff [OF assms(2)])
qed simp

lemma initial_page_free:
  "tp_in_use (initial_page T p c tp) = 0" "tp_buffer_id (initial_page T p c tp) = BI_NONE"
  "locked_tp (initial_page T p c tp) = pg_locked (alloc_pages_node T p c)"
  by (simp_all add: initial_page_def alloc_tagged_page_data_def init_tagged_page_meta_data_def
      clear_tagged_page_meta_data_def locked_tp_def Let_def)

text \<open>
  After \<^verbatim>\<open>init_hash_table_free_pages\<close> the free lists are well formed when the allocator returns
  unlocked frames; the list of CPU \<open>c\<close> holds the \<open>c\<close>-th block of \<open>num_free_pages div ncpus\<close>
  consecutive pages, so that all pages are free exactly when the number of CPUs divides their number.
\<close>

lemma init_hash_table_free_pages_spec:
  assumes "0 < num_online_cpus T" and "\<And>p c. \<not> pg_locked (alloc_pages_node T p c)"
    and "num_online_cpus T \<le> num"
  shows "let s' = init_hash_table_free_pages T num s; n = num div num_online_cpus T
    in pm_wf T s' \<and> (\<forall>c<num_online_cpus T. pm_fl s' c = [c * n..<(c + 1) * n]) \<and>
    free_set T s' = {..<num_online_cpus T * n} \<and>
    (free_set T s' = {..<num} \<longleftrightarrow> num_online_cpus T dvd num)"
proof -
  let ?m = "num_online_cpus T"
  define s' where "s' = init_hash_table_free_pages T num s"
  define n where "n = num div num_online_cpus T"
  have n: "0 < n" unfolding n_def using assms(1,3) by (simp add: div_greater_zero_iff)
  have le: "?m * n \<le> num" unfolding n_def by simp
  let ?s0 = "s\<lparr>pm_fl := \<lambda>cpu. if cpu < ?m then [] else pm_fl s cpu, pm_total := num\<rparr>"
  have s': "s' = fold (\<lambda>cpu. fold (init_free_page T cpu) [cpu * n..<(cpu + 1) * n]) [0..<?m] ?s0"
    by (simp add: s'_def init_hash_table_free_pages_def n_def Let_def)
  have init: "(\<forall>c. pm_fl s' c = (if c < ?m then [c * n..<(c + 1) * n] else pm_fl ?s0 c)) \<and>
      (\<forall>p. pm_pages s' p = (if p < ?m * n then initial_page T p (p div n) (pm_pages s p) else pm_pages s p)) \<and>
      pm_total s' = num"
    using init_cpus_fold [OF _ n s'] by simp
  then have fl: "pm_fl s' c = [c * n..<(c + 1) * n]" if "c < ?m" for c using that by simp
  have pg: "pm_pages s' p = initial_page T p (p div n) (pm_pages s p)" if "p < ?m * n" for p
    using init that by simp
  have tot: "pm_total s' = num" using init by simp
  have in_block: "p \<in> set (pm_fl s' c) \<longleftrightarrow> p div n = c" if "c < ?m" for p c
    using fl [OF that] in_block_iff [OF n, of c p] by simp
  have fs: "free_set T s' = {..<?m * n}"
    using n by (auto simp: free_set_def in_block div_less_iff_less_mult)
  have "pm_wf T s'"
  proof -
    have "set (pm_fl s' c) \<inter> set (pm_fl s' c') = {}" if "c < ?m" "c' < ?m" "c \<noteq> c'" for c c'
      using in_block that by auto
    then show ?thesis
      unfolding pm_wf_def fs using le tot pg assms(2) by (simp add: fl initial_page_free)
  qed
  moreover have "{..<?m * n} = {..<num} \<longleftrightarrow> ?m dvd num"
    unfolding n_def by (auto simp: dvd_mult_div_cancel) (metis dvd_triv_left)
  ultimately show ?thesis unfolding Let_def using fl fs by (simp add: s'_def n_def)
qed


section \<open>Witnesses\<close>

definition pm_example :: page_map where
  "pm_example = \<lparr>pm_pages = (\<lambda>p. tp_example\<lparr>tp_in_use := 0, tp_buffer_id := BI_NONE\<rparr>), pm_total = 4,
     pm_fl = (\<lambda>c. if c = 1 then [0, 2] else if c = 2 then [1] else []), pm_numa_dv = Some [0, 1, 1, 0]\<rparr>"

lemma pm_example_ok:
  "topology_ok two_node_topology \<Longrightarrow> pm_wf two_node_topology pm_example"
  by (auto simp: pm_wf_def free_set_def pm_example_def two_node_topology_def locked_tp_def tp_example_def
      page_NULL_def split: if_splits)

definition one_node_topology :: topology where
  "one_node_topology = \<lparr>num_online_cpus = 4, num_online_nodes = 1, node_distance = (\<lambda>i j. 10),
     cpumask_of_node = (\<lambda>n. [0, 1, 2, 3]), alloc_pages_node = (\<lambda>p cpu. page_NULL\<lparr>pg_is_null := False\<rparr>)\<rparr>"

lemma one_node_ok: "topology_ok one_node_topology" "pm_wf one_node_topology pm_example"
  by (auto simp: topology_ok_def pm_wf_def free_set_def pm_example_def one_node_topology_def
      locked_tp_def tp_example_def page_NULL_def split: if_splits)

theorem alloc_page_lock_fresh_witness:
  "\<exists>s'. alloc_page_lock one_node_topology 0 77 5 (pm_example\<lparr>pm_numa_dv := Some [0]\<rparr>) = (Some 0, s') \<and>
     tp_index (pm_pages s' 0) = 77 \<and> 0 \<notin> free_set one_node_topology s'"
proof -
  let ?s = "pm_example\<lparr>pm_numa_dv := Some [0]\<rparr>"
  obtain s' where al: "alloc_page_lock one_node_topology 0 77 5 ?s = (Some 0, s')"
    by (simp add: alloc_page_lock_def one_node_topology_def pm_example_def)
  have "pm_wf one_node_topology ?s" using one_node_ok(2) by (simp add: pm_wf_def free_set_def)
  from alloc_page_lock_fresh [OF one_node_ok(1) this al] al show ?thesis by blast
qed

lemma alloc_page_lock_single_node_witness:
  "\<exists>s'. alloc_page_lock one_node_topology 0 77 5 (pm_example\<lparr>pm_numa_dv := Some [0]\<rparr>) = (Some 0, s') \<and>
     free_set one_node_topology s' = {1, 2}"
proof -
  let ?s = "pm_example\<lparr>pm_numa_dv := Some [0]\<rparr>"
  obtain s' where al: "alloc_page_lock one_node_topology 0 77 5 ?s = (Some 0, s')"
    by (simp add: alloc_page_lock_def one_node_topology_def pm_example_def)
  have wf: "pm_wf one_node_topology ?s" using one_node_ok(2) by (simp add: pm_wf_def free_set_def)
  have "num_online_nodes one_node_topology = 1" "pm_numa_dv ?s = Some [0]"
    by (simp_all add: one_node_topology_def)
  from alloc_page_lock_single_node [OF one_node_ok(1) wf this, of 77 5] al
  have "free_set one_node_topology s' = free_set one_node_topology ?s - {0}" by simp
  also have "free_set one_node_topology ?s = {0, 1, 2}"
  proof -
    have "{..<4 :: nat} = {0, 1, 2, 3}" by auto
    then show ?thesis by (auto simp: free_set_def pm_example_def one_node_topology_def)
  qed
  finally show ?thesis using al by auto
qed

theorem free_page_lock_spec_witness:
  "pm_fl (free_page_lock 3 pm_example) 0 = [3] \<and> pm_wf one_node_topology (free_page_lock 3 pm_example)"
proof -
  have "3 \<notin> free_set one_node_topology pm_example" "3 < pm_total pm_example"
    "tp_cpuid (pm_pages pm_example 3) = 0" "0 < num_online_cpus one_node_topology"
    by (auto simp: free_set_def pm_example_def one_node_topology_def tp_example_def split: if_splits)
  from free_page_lock_spec [OF one_node_ok(2) this] show ?thesis
    by (simp add: pm_example_def)
qed

lemma init_hash_table_free_pages_spec_witness:
  "free_set one_node_topology (init_hash_table_free_pages one_node_topology 9 pm_example) = {..<8}"
  using init_hash_table_free_pages_spec [of one_node_topology 9 pm_example]
  by (simp add: one_node_topology_def page_NULL_def Let_def)

section \<open>The missing break over the NUMA nodes\<close>

text \<open>
  With two NUMA nodes \<^verbatim>\<open>alloc_page_lock\<close> takes a page from each node and returns the last one: the
  first is then on no free list and in use by nobody.
\<close>

lemma alloc_page_lock_leaks:
  "\<exists>s'. alloc_page_lock two_node_topology 0 77 5 pm_example = (Some 1, s') \<and>
     0 \<in> free_set two_node_topology pm_example \<and> 0 \<notin> free_set two_node_topology s' \<and>
     tp_in_use (pm_pages s' 0) = 0"
  by (auto simp: alloc_page_lock_def two_node_topology_def pm_example_def free_set_def upt_rec
      numeral_nat tp_example_def split: if_splits)

text \<open>
  When the farthest node has no free page the allocation fails although a nearer node had one, and
  the page taken there is lost.
\<close>

lemma alloc_page_lock_spurious_failure:
  "\<exists>s'. alloc_page_lock two_node_topology 1 77 5 (pm_example\<lparr>pm_fl := (\<lambda>c. if c = 2 then [1] else [])\<rparr>)
       = (None, s') \<and> free_set two_node_topology s' = {}"
  by (auto simp: alloc_page_lock_def two_node_topology_def pm_example_def free_set_def upt_rec
      numeral_nat split: if_splits)

end
