(* ===== verification/Page_Fifo.thy ===== *)
theory Page_Fifo
  imports Tagged_Page
begin

text \<open>
  \<^verbatim>\<open>lpfifo_non_atomic.c\<close> and \<^verbatim>\<open>dfifo_non_atomic.c\<close>: the clean (primary) and the dirty queues of tagged
  pages. The operations run under the queue's spin lock and are atomic; they act on the queue and
  on the page store, because they also write \<^verbatim>\<open>buffer_id\<close>. The locale \<open>page_fifo\<close> states what both
  promise and derives the facts their clients use; both modules interpret it.
\<close>

text \<open>The counters are of type \<^verbatim>\<open>unsigned long\<close>: they wrap around at \<open>2 ^ 64\<close>.\<close>

definition wrap64 :: "int \<Rightarrow> int" where
  "wrap64 n = n mod 2 ^ 64"

lemma wrap64_id [simp]: "0 \<le> n \<Longrightarrow> n < 2 ^ 64 \<Longrightarrow> wrap64 n = n"
  by (simp add: wrap64_def)

section \<open>The clean queues: lpfifo\<close>

record lpfifo =
  lp_buffer :: "pid list"
  lp_size :: int
  lp_max_size :: int

definition set_buffer_id :: "buffer_id \<Rightarrow> pid \<Rightarrow> pages \<Rightarrow> pages" where
  "set_buffer_id b p ps = ps(p := (ps p)\<lparr>tp_buffer_id := b\<rparr>)"

definition lp_init :: "int \<Rightarrow> lpfifo" where
  "lp_init n = \<lparr>lp_buffer = [], lp_size = 0, lp_max_size = n\<rparr>"

definition lp_reset :: "lpfifo \<Rightarrow> lpfifo" where
  "lp_reset f = f\<lparr>lp_buffer := [], lp_size := 0\<rparr>"

definition lp_fifo_full :: "lpfifo \<Rightarrow> bool" where
  "lp_fifo_full f = (lp_size f > lp_max_size f)"

definition lp_dequeue :: "lpfifo \<Rightarrow> pages \<Rightarrow> pid option \<times> lpfifo \<times> pages" where
  "lp_dequeue f ps =
     (if lp_size f = 0 then (None, f, ps)
      else case lp_buffer f of
        [] \<Rightarrow> (None, f, ps)
      | p # rest \<Rightarrow>
          (Some p, f\<lparr>lp_buffer := rest, lp_size := wrap64 (lp_size f - 1)\<rparr>, set_buffer_id BI_NONE p ps))"

text \<open>
  The condition is a C function on the page that may change it (\<^verbatim>\<open>deq\<close> and \<^verbatim>\<open>ev_deq\<close> lock it), so it
  returns the page store too. A page that fails the condition moves to the tail.
\<close>

definition lp_dequeue_if ::
  "lpfifo \<Rightarrow> (pid \<Rightarrow> pages \<Rightarrow> bool \<times> pages) \<Rightarrow> pages \<Rightarrow> pid option \<times> lpfifo \<times> pages" where
  "lp_dequeue_if f cond ps =
     (if lp_size f = 0 then (None, f, ps)
      else case lp_buffer f of
        [] \<Rightarrow> (None, f, ps)
      | p # rest \<Rightarrow>
          (let (ok, ps1) = cond p ps
           in if ok
              then (Some p, f\<lparr>lp_buffer := rest, lp_size := wrap64 (lp_size f - 1)\<rparr>,
                    set_buffer_id BI_NONE p ps1)
              else (None, f\<lparr>lp_buffer := rest @ [p]\<rparr>, ps1)))"

definition lp_enqueue :: "lpfifo \<Rightarrow> pid \<Rightarrow> pages \<Rightarrow> int \<times> lpfifo \<times> pages" where
  "lp_enqueue f p ps =
     (if lp_size f > lp_max_size f then (-1, f, ps)
      else (0, f\<lparr>lp_buffer := lp_buffer f @ [p], lp_size := wrap64 (lp_size f + 1)\<rparr>,
            set_buffer_id BI_CLEAN p ps))"

definition lp_remove :: "lpfifo \<Rightarrow> pid \<Rightarrow> pages \<Rightarrow> lpfifo \<times> pages" where
  "lp_remove f p ps =
     (f\<lparr>lp_buffer := remove1 p (lp_buffer f), lp_size := wrap64 (lp_size f - 1)\<rparr>, set_buffer_id BI_NONE p ps)"

text \<open>\<^verbatim>\<open>change_priority\<close> is \<^verbatim>\<open>BUG()\<close>: the kernel stops. \<open>None\<close> is that outcome.\<close>

definition lp_change_priority :: "lpfifo \<Rightarrow> nat \<Rightarrow> pid \<Rightarrow> lpfifo option" where
  "lp_change_priority f new_pri p = None"

definition lp_size_op :: "lpfifo \<Rightarrow> int" where
  "lp_size_op f = lp_size f"

section \<open>The dirty queues: dfifo\<close>

record dfifo =
  d_buffer :: "pid list"
  d_size :: int
  d_max_size :: int

definition d_init :: "int \<Rightarrow> dfifo" where
  "d_init n = \<lparr>d_buffer = [], d_size = 0, d_max_size = n\<rparr>"

definition d_reset :: "dfifo \<Rightarrow> dfifo" where
  "d_reset f = f\<lparr>d_buffer := [], d_size := 0\<rparr>"

definition d_fifo_full :: "dfifo \<Rightarrow> bool" where
  "d_fifo_full f = (d_size f > d_max_size f)"

definition d_front :: "dfifo \<Rightarrow> pid option" where
  "d_front f = (case d_buffer f of [] \<Rightarrow> None | p # rest \<Rightarrow> Some p)"

definition d_dequeue :: "dfifo \<Rightarrow> pages \<Rightarrow> pid option \<times> dfifo \<times> pages" where
  "d_dequeue f ps =
     (if d_size f = 0 then (None, f, ps)
      else case d_buffer f of
        [] \<Rightarrow> (None, f, ps)
      | p # rest \<Rightarrow>
          (Some p, f\<lparr>d_buffer := rest, d_size := wrap64 (d_size f - 1)\<rparr>, set_buffer_id BI_NONE p ps))"

definition d_dequeue_if ::
  "dfifo \<Rightarrow> (pid \<Rightarrow> pages \<Rightarrow> bool \<times> pages) \<Rightarrow> pages \<Rightarrow> pid option \<times> dfifo \<times> pages" where
  "d_dequeue_if f cond ps =
     (if d_size f = 0 then (None, f, ps)
      else case d_buffer f of
        [] \<Rightarrow> (None, f, ps)
      | p # rest \<Rightarrow>
          (let (ok, ps1) = cond p ps
           in if ok
              then (Some p, f\<lparr>d_buffer := rest, d_size := wrap64 (d_size f - 1)\<rparr>,
                    set_buffer_id BI_NONE p ps1)
              else (None, f\<lparr>d_buffer := rest @ [p]\<rparr>, ps1)))"

definition d_enqueue :: "dfifo \<Rightarrow> pid \<Rightarrow> pages \<Rightarrow> int \<times> dfifo \<times> pages" where
  "d_enqueue f p ps =
     (if d_size f > d_max_size f then (-1, f, ps)
      else (0, f\<lparr>d_buffer := d_buffer f @ [p], d_size := wrap64 (d_size f + 1)\<rparr>,
            set_buffer_id BI_DIRTY p ps))"

definition d_remove :: "dfifo \<Rightarrow> pid \<Rightarrow> pages \<Rightarrow> dfifo \<times> pages" where
  "d_remove f p ps =
     (f\<lparr>d_buffer := remove1 p (d_buffer f), d_size := wrap64 (d_size f - 1)\<rparr>, set_buffer_id BI_NONE p ps)"

definition d_remove_if ::
  "dfifo \<Rightarrow> pid \<Rightarrow> (pid \<Rightarrow> pages \<Rightarrow> bool \<times> pages) \<Rightarrow> pages \<Rightarrow> bool \<times> dfifo \<times> pages" where
  "d_remove_if f p cond ps =
     (let (ok, ps1) = cond p ps
      in if ok
         then (True, f\<lparr>d_buffer := remove1 p (d_buffer f), d_size := wrap64 (d_size f - 1)\<rparr>,
               set_buffer_id BI_NONE p ps1)
         else (False, f, ps1))"

section \<open>What a queue of pages promises\<close>

text \<open>
  A well-formed queue: \<^verbatim>\<open>size\<close> counts the entries, no page is linked twice, every linked page carries
  the queue's \<^verbatim>\<open>buffer_id\<close>, and the size is at most one above \<^verbatim>\<open>max_size\<close> (the full test is strict),
  which leaves room for that in the counter.
\<close>

definition fifo_wf :: "buffer_id \<Rightarrow> pid list \<Rightarrow> int \<Rightarrow> int \<Rightarrow> pages \<Rightarrow> bool" where
  "fifo_wf tag xs n m ps \<longleftrightarrow>
     n = int (length xs) \<and> distinct xs \<and> n \<le> m + 1 \<and> m + 1 < 2 ^ 64 \<and> (\<forall>p\<in>set xs. tp_buffer_id (ps p) = tag)"

abbreviation lp_wf :: "lpfifo \<Rightarrow> pages \<Rightarrow> bool" where
  "lp_wf f ps \<equiv> fifo_wf BI_CLEAN (lp_buffer f) (lp_size f) (lp_max_size f) ps"

abbreviation d_wf :: "dfifo \<Rightarrow> pages \<Rightarrow> bool" where
  "d_wf f ps \<equiv> fifo_wf BI_DIRTY (d_buffer f) (d_size f) (d_max_size f) ps"

locale page_fifo =
  fixes tag :: buffer_id
    and buf :: "'q \<Rightarrow> pid list"
    and sz :: "'q \<Rightarrow> int"
    and maxsz :: "'q \<Rightarrow> int"
    and enq :: "'q \<Rightarrow> pid \<Rightarrow> pages \<Rightarrow> int \<times> 'q \<times> pages"
    and deq :: "'q \<Rightarrow> pages \<Rightarrow> pid option \<times> 'q \<times> pages"
    and deq_if :: "'q \<Rightarrow> (pid \<Rightarrow> pages \<Rightarrow> bool \<times> pages) \<Rightarrow> pages \<Rightarrow> pid option \<times> 'q \<times> pages"
    and rem :: "'q \<Rightarrow> pid \<Rightarrow> pages \<Rightarrow> 'q \<times> pages"
  assumes tag_not_none: "tag \<noteq> BI_NONE"
    and enq_room: "0 \<le> sz q \<Longrightarrow> sz q \<le> maxsz q \<Longrightarrow> maxsz q + 1 < 2 ^ 64 \<Longrightarrow>
      \<exists>q'. enq q p ps = (0, q', set_buffer_id tag p ps) \<and> buf q' = buf q @ [p] \<and> sz q' = sz q + 1
        \<and> maxsz q' = maxsz q"
    and enq_ok: "fst (enq q p ps) = 0 \<longleftrightarrow> sz q \<le> maxsz q"
    and enq_full: "maxsz q < sz q \<Longrightarrow> enq q p ps = (-1, q, ps)"
    and deq_empty: "sz q = 0 \<or> buf q = [] \<Longrightarrow> deq q ps = (None, q, ps)"
    and deq_first: "0 < sz q \<Longrightarrow> sz q < 2 ^ 64 \<Longrightarrow> buf q = p # rest \<Longrightarrow>
      \<exists>q'. deq q ps = (Some p, q', set_buffer_id BI_NONE p ps) \<and> buf q' = rest \<and> sz q' = sz q - 1
        \<and> maxsz q' = maxsz q"
    and deq_if_empty: "sz q = 0 \<or> buf q = [] \<Longrightarrow> deq_if q c ps = (None, q, ps)"
    and deq_if_yes: "0 < sz q \<Longrightarrow> sz q < 2 ^ 64 \<Longrightarrow> buf q = p # rest \<Longrightarrow> c p ps = (True, ps1) \<Longrightarrow>
      \<exists>q'. deq_if q c ps = (Some p, q', set_buffer_id BI_NONE p ps1) \<and> buf q' = rest
        \<and> sz q' = sz q - 1 \<and> maxsz q' = maxsz q"
    and deq_if_no: "sz q \<noteq> 0 \<Longrightarrow> buf q = p # rest \<Longrightarrow> c p ps = (False, ps1) \<Longrightarrow>
      \<exists>q'. deq_if q c ps = (None, q', ps1) \<and> buf q' = rest @ [p] \<and> sz q' = sz q
        \<and> maxsz q' = maxsz q"
    and rem_page: "0 < sz q \<Longrightarrow> sz q < 2 ^ 64 \<Longrightarrow> \<exists>q'. rem q p ps = (q', set_buffer_id BI_NONE p ps) \<and> buf q' = remove1 p (buf q)
        \<and> sz q' = sz q - 1 \<and> maxsz q' = maxsz q"
begin

abbreviation wf :: "'q \<Rightarrow> pages \<Rightarrow> bool" where
  "wf q ps \<equiv> fifo_wf tag (buf q) (sz q) (maxsz q) ps"

lemma enq_wf:
  assumes "wf q ps" and "p \<notin> set (buf q)" and "enq q p ps = (0, q', ps')"
  shows "wf q' ps' \<and> buf q' = buf q @ [p]"
proof -
  have room: "sz q \<le> maxsz q"
    using assms(3) enq_full [of q p ps] by (cases "sz q \<le> maxsz q") auto
  have "0 \<le> sz q" "maxsz q + 1 < 2 ^ 64" using assms(1) by (auto simp: fifo_wf_def)
  with enq_room [OF _ room, of p ps] assms room show ?thesis
    by (auto simp: fifo_wf_def set_buffer_id_def)
qed

lemma wf_sz: "wf q ps \<Longrightarrow> 0 \<le> sz q \<and> sz q < 2 ^ 64 \<and> maxsz q + 1 < 2 ^ 64 \<and> (buf q \<noteq> [] \<longrightarrow> 0 < sz q)"
  by (auto simp: fifo_wf_def)

lemma deq_wf:
  assumes "wf q ps" and "deq q ps = (r, q', ps')"
  shows "wf q' ps' \<and> (case r of None \<Rightarrow> buf q = [] \<and> q' = q \<and> ps' = ps
                      | Some p \<Rightarrow> buf q = p # buf q' \<and> tp_buffer_id (ps' p) = BI_NONE)"
proof (cases "buf q")
  case Nil
  with assms deq_empty [of q ps] show ?thesis by auto
next
  case (Cons p rest)
  with wf_sz [OF assms(1)] have "0 < sz q" "sz q < 2 ^ 64" by auto
  from deq_first [OF this Cons, of ps] Cons assms show ?thesis
    by (auto simp: fifo_wf_def set_buffer_id_def)
qed

lemma rem_wf:
  assumes "wf q ps" and "p \<in> set (buf q)" and "rem q p ps = (q', ps')"
  shows "wf q' ps' \<and> set (buf q') = set (buf q) - {p} \<and> tp_buffer_id (ps' p) = BI_NONE"
proof -
  have "0 < sz q" "sz q < 2 ^ 64" using wf_sz [OF assms(1)] assms(2) by auto
  from rem_page [OF this, of p ps] assms int_length_remove1 [of p "buf q"] show ?thesis
    by (auto simp: fifo_wf_def set_buffer_id_def)
qed

lemma deq_if_wf:
  assumes "wf q ps" and "deq_if q c ps = (r, q', ps')"
    and keep: "\<And>p x. tp_buffer_id (snd (c p ps) x) = tp_buffer_id (ps x)"
  shows "wf q' ps' \<and> (case r of None \<Rightarrow> set (buf q') = set (buf q)
                      | Some p \<Rightarrow> buf q = p # buf q' \<and> fst (c p ps) \<and> tp_buffer_id (ps' p) = BI_NONE)"
proof (cases "buf q")
  case Nil
  with assms deq_if_empty [of q c ps] show ?thesis by auto
next
  case (Cons p rest)
  with wf_sz [OF assms(1)] have nz: "0 < sz q" "sz q < 2 ^ 64" by auto
  obtain ok ps1 where c: "c p ps = (ok, ps1)" by fastforce
  have keep1: "tp_buffer_id (ps1 x) = tp_buffer_id (ps x)" for x using keep [of p x] c by simp
  show ?thesis
  proof (cases ok)
    case True
    from deq_if_yes [OF nz Cons, of c ps ps1] c True Cons assms(1,2) keep1 show ?thesis
      by (auto simp: fifo_wf_def set_buffer_id_def)
  next
    case False
    have "sz q \<noteq> 0" using nz by simp
    from deq_if_no [OF this Cons, of c ps ps1] c False Cons assms(1,2) keep1 show ?thesis
      by (auto simp: fifo_wf_def)
  qed
qed

end

interpretation lpq: page_fifo BI_CLEAN lp_buffer lp_size lp_max_size lp_enqueue lp_dequeue
  lp_dequeue_if lp_remove
  by unfold_locales
    (auto simp: lp_enqueue_def lp_dequeue_def lp_dequeue_if_def lp_remove_def split: list.splits)

interpretation dq: page_fifo BI_DIRTY d_buffer d_size d_max_size d_enqueue d_dequeue
  d_dequeue_if d_remove
  by unfold_locales
    (auto simp: d_enqueue_def d_dequeue_def d_dequeue_if_def d_remove_def split: list.splits)

section \<open>Properties of the queues\<close>

definition ps_example :: pages where
  "ps_example = (\<lambda>p. tp_example\<lparr>tp_buffer_id := (if p < 2 then BI_CLEAN else BI_NONE)\<rparr>)"

text \<open>
  The clean queue is a FIFO: enqueueing a page that is not linked and dequeueing once returns
  the head of the old queue followed by the new page, leaves the rest in order, keeps the queue
  well formed, and marks the returned page as being in no buffer.
\<close>

lemma lp_fifo_order:
  assumes wf: "lp_wf f ps" and new: "p \<notin> set (lp_buffer f)"
    and enq: "lp_enqueue f p ps = (0, f1, ps1)" and deq: "lp_dequeue f1 ps1 = (r, f2, ps2)"
  shows "r = Some (hd (lp_buffer f @ [p])) \<and> lp_buffer f2 = tl (lp_buffer f @ [p]) \<and>
    lp_wf f2 ps2 \<and> tp_buffer_id (ps2 (hd (lp_buffer f @ [p]))) = BI_NONE"
proof -
  have "lp_wf f1 ps1 \<and> lp_buffer f1 = lp_buffer f @ [p]"
    by (rule lpq.enq_wf [OF wf new enq])
  with lpq.deq_wf [of f1 ps1 r f2 ps2] deq show ?thesis
    by (cases "lp_buffer f") (auto split: option.splits)
qed

lemma lp_fifo_order_witness:
  "lp_wf \<lparr>lp_buffer = [1, 7], lp_size = 2, lp_max_size = 4\<rparr>
     (set_buffer_id BI_NONE 0 (set_buffer_id BI_CLEAN 7 ps_example))"
proof -
  let ?f = "\<lparr>lp_buffer = [0, 1], lp_size = 2, lp_max_size = 4\<rparr>"
  let ?f1 = "\<lparr>lp_buffer = [0, 1, 7], lp_size = 3, lp_max_size = 4\<rparr>"
  let ?f2 = "\<lparr>lp_buffer = [1, 7], lp_size = 2, lp_max_size = 4\<rparr>"
  let ?ps1 = "set_buffer_id BI_CLEAN 7 ps_example"
  have wf: "lp_wf ?f ps_example" by (simp add: fifo_wf_def ps_example_def)
  have new: "7 \<notin> set (lp_buffer ?f)" by simp
  have enq: "lp_enqueue ?f 7 ps_example = (0, ?f1, ?ps1)" by (simp add: lp_enqueue_def)
  have deq: "lp_dequeue ?f1 ?ps1 = (Some 0, ?f2, set_buffer_id BI_NONE 0 ?ps1)"
    by (simp add: lp_dequeue_def)
  from lp_fifo_order [OF wf new enq deq] show ?thesis by blast
qed



end
