(* ===== verification/Dirty_Tree.thy ===== *)
theory Dirty_Tree
  imports Tagged_Page "HOL-Library.Tree"
begin

text \<open>
  \<^verbatim>\<open>mmap_buffer_rbtree.c\<close>: the per-CPU red-black trees of dirty pages, ordered by \<^verbatim>\<open>page->index\<close>. The
  search and the descent of the insertion are the driver's own and are modelled on binary trees of
  pages; \<^verbatim>\<open>rb_insert_color\<close>, \<^verbatim>\<open>rb_erase\<close> and \<^verbatim>\<open>rb_first\<close> belong to the kernel and are
  parameters, of which only the documented contract is used: the first two keep the in-order sequence,
  \<^verbatim>\<open>rb_erase\<close> takes its node out of it, and \<^verbatim>\<open>rb_first\<close> returns its first node.
\<close>

section \<open>The trees\<close>

type_synonym rb_root = "pid tree"

record rb_lib =
  rb_insert_color :: "pid \<Rightarrow> rb_root \<Rightarrow> rb_root"
  rb_erase :: "pid \<Rightarrow> rb_root \<Rightarrow> rb_root"
  rb_first :: "rb_root \<Rightarrow> pid option"

fun tagged_rb_search :: "pages \<Rightarrow> rb_root \<Rightarrow> u64 \<Rightarrow> pid option" where
  "tagged_rb_search ps Leaf pgoff = None"
| "tagged_rb_search ps (Node l data r) pgoff =
     (if pgoff < tp_index (ps data) then tagged_rb_search ps l pgoff
      else if pgoff > tp_index (ps data) then tagged_rb_search ps r pgoff
      else Some data)"

fun tagged_rb_greater_equal :: "pages \<Rightarrow> rb_root \<Rightarrow> u64 \<Rightarrow> pid option" where
  "tagged_rb_greater_equal ps Leaf pgoff = None"
| "tagged_rb_greater_equal ps (Node l data r) pgoff =
     (let i = tp_index (ps data) in
      if i = pgoff then Some data
      else if l = Leaf \<and> r = Leaf then (if i > pgoff then Some data else None)
      else if l = Leaf then
        (if i > pgoff then Some data else tagged_rb_greater_equal ps r pgoff)
      else if r = Leaf then
        (if i > pgoff then tagged_rb_greater_equal ps l pgoff else None)
      else if i > pgoff then tagged_rb_greater_equal ps l pgoff
      else tagged_rb_greater_equal ps r pgoff)"

text \<open>
  The descent of \<^verbatim>\<open>tagged_rb_insert\<close> to the NULL link where \<^verbatim>\<open>rb_link_node\<close> puts the new node;
  \<open>None\<close> when a node with the same index is met.
\<close>

fun rb_link :: "pages \<Rightarrow> rb_root \<Rightarrow> pid \<Rightarrow> rb_root option" where
  "rb_link ps Leaf data = Some (Node Leaf data Leaf)"
| "rb_link ps (Node l this r) data =
     (if tp_index (ps data) < tp_index (ps this)
      then map_option (\<lambda>l'. Node l' this r) (rb_link ps l data)
      else if tp_index (ps data) > tp_index (ps this)
      then map_option (\<lambda>r'. Node l this r') (rb_link ps r data)
      else None)"

definition tagged_rb_insert :: "rb_lib \<Rightarrow> pages \<Rightarrow> rb_root \<Rightarrow> pid \<Rightarrow> int \<times> rb_root" where
  "tagged_rb_insert L ps root data =
     (case rb_link ps root data of
        None \<Rightarrow> (0, root)
      | Some t \<Rightarrow> (1, rb_insert_color L data t))"

definition tagged_rb_erase :: "rb_lib \<Rightarrow> pages \<Rightarrow> rb_root \<Rightarrow> u64 \<Rightarrow> int \<times> rb_root" where
  "tagged_rb_erase L ps root pgoff =
     (case tagged_rb_search ps root pgoff of
        None \<Rightarrow> (0, root)
      | Some data \<Rightarrow> (1, rb_erase L data root))"


section \<open>The contract of the kernel's rebalancing\<close>

definition rb_lib_ok :: "rb_lib \<Rightarrow> bool" where
  "rb_lib_ok L \<longleftrightarrow>
     (\<forall>p t. inorder (rb_insert_color L p t) = inorder t) \<and>
     (\<forall>p t. p \<in> set_tree t \<longrightarrow> inorder (rb_erase L p t) = remove1 p (inorder t)) \<and>
     (\<forall>t. rb_first L t = (case inorder t of [] \<Rightarrow> None | p # ps \<Rightarrow> Some p))"

text \<open>
  Trees without rebalancing satisfy it: they show that the contract can be met and let examples
  evaluate.
\<close>

fun plain_join :: "'a tree \<Rightarrow> 'a tree \<Rightarrow> 'a tree" where
  "plain_join Leaf r = r"
| "plain_join (Node ll x lr) r = Node ll x (plain_join lr r)"

fun plain_erase :: "'a \<Rightarrow> 'a tree \<Rightarrow> 'a tree" where
  "plain_erase p Leaf = Leaf"
| "plain_erase p (Node l x r) =
     (if p \<in> set_tree l then Node (plain_erase p l) x r
      else if p = x then plain_join l r
      else Node l x (plain_erase p r))"

definition plain_rb :: rb_lib where
  "plain_rb = \<lparr>rb_insert_color = (\<lambda>p t. t), rb_erase = plain_erase,
     rb_first = (\<lambda>t. case inorder t of [] \<Rightarrow> None | p # ps \<Rightarrow> Some p)\<rparr>"

lemma inorder_plain_join [simp]: "inorder (plain_join l r) = inorder l @ inorder r"
  by (induction l r rule: plain_join.induct) auto

lemma inorder_plain_erase: "inorder (plain_erase p t) = remove1 p (inorder t)"
  by (induction p t rule: plain_erase.induct) (auto simp: remove1_append)

lemma plain_rb_ok: "rb_lib_ok plain_rb"
  by (simp add: rb_lib_ok_def plain_rb_def inorder_plain_erase)

section \<open>Well-formed trees are finite maps from page numbers\<close>

definition dt_wf :: "pages \<Rightarrow> rb_root \<Rightarrow> bool" where
  "dt_wf ps t \<longleftrightarrow> sorted_wrt (<) (map (\<lambda>p. tp_index (ps p)) (inorder t))"

lemma dt_wf_Leaf [simp]: "dt_wf ps Leaf"
  by (simp add: dt_wf_def)

lemma dt_wf_Node:
  "dt_wf ps (Node l x r) \<longleftrightarrow> dt_wf ps l \<and> dt_wf ps r \<and>
     (\<forall>p\<in>set_tree l. tp_index (ps p) < tp_index (ps x)) \<and>
     (\<forall>p\<in>set_tree r. tp_index (ps x) < tp_index (ps p))"
proof -
  have "tp_index (ps p) < tp_index (ps q)"
    if "tp_index (ps p) < tp_index (ps x)" "tp_index (ps x) < tp_index (ps q)" for p q
    using that by (rule less_trans)
  then show ?thesis by (simp add: dt_wf_def sorted_wrt_append) blast
qed

lemma dt_wf_distinct_indices: "dt_wf ps t \<Longrightarrow> distinct (map (\<lambda>p. tp_index (ps p)) (inorder t))"
  by (simp add: dt_wf_def strict_sorted_iff)

lemma dt_wf_inj:
  assumes "dt_wf ps t" "p \<in> set_tree t" "q \<in> set_tree t" "tp_index (ps p) = tp_index (ps q)"
  shows "p = q"
proof -
  have "inj_on (\<lambda>p. tp_index (ps p)) (set_tree t)"
    using dt_wf_distinct_indices [OF assms(1)] by (simp add: distinct_map)
  then show ?thesis using assms(2-4) by (auto dest: inj_onD)
qed

lemma dt_wf_distinct: "dt_wf ps t \<Longrightarrow> distinct (inorder t)"
  using dt_wf_distinct_indices [of ps t] by (simp add: distinct_map)

lemma tagged_rb_search_Some:
  "dt_wf ps t \<Longrightarrow> tagged_rb_search ps t pgoff = Some p \<longleftrightarrow> p \<in> set_tree t \<and> tp_index (ps p) = pgoff"
  by (induction t) (auto simp: dt_wf_Node)

lemma tagged_rb_search_None:
  "dt_wf ps t \<Longrightarrow> tagged_rb_search ps t pgoff = None \<longleftrightarrow> (\<forall>p\<in>set_tree t. tp_index (ps p) \<noteq> pgoff)"
  by (induction t) (auto simp: dt_wf_Node)

lemma rb_link_Some:
  "dt_wf ps t \<Longrightarrow> rb_link ps t p = Some t' \<Longrightarrow> dt_wf ps t' \<and> set_tree t' = insert p (set_tree t)"
proof (induction t arbitrary: t')
  case Leaf
  then show ?case by (auto simp: dt_wf_Node)
next
  case (Node l x r)
  show ?case
  proof (cases "tp_index (ps p)" "tp_index (ps x)" rule: linorder_cases)
    case less
    with Node.prems obtain l' where "rb_link ps l p = Some l'" "t' = Node l' x r" by auto
    with Node.IH(1) Node.prems(1) less show ?thesis by (auto simp: dt_wf_Node)
  next
    case equal
    with Node.prems show ?thesis by simp
  next
    case greater
    with Node.prems obtain r' where "rb_link ps r p = Some r'" "t' = Node l x r'"
      by (auto split: if_splits dest: less_asym)
    with Node.IH(2) Node.prems(1) greater show ?thesis by (auto simp: dt_wf_Node)
  qed
qed

lemma rb_link_None:
  "dt_wf ps t \<Longrightarrow> rb_link ps t p = None \<longleftrightarrow> (\<exists>q\<in>set_tree t. tp_index (ps q) = tp_index (ps p))"
proof (induction t)
  case (Node l x r)
  then show ?case
    by (cases "tp_index (ps p)" "tp_index (ps x)" rule: linorder_cases) (auto simp: dt_wf_Node)
qed simp

lemma rb_insert_color_wf:
  assumes "rb_lib_ok L"
  shows "dt_wf ps (rb_insert_color L p t) = dt_wf ps t"
    and "set_tree (rb_insert_color L p t) = set_tree t"
  using assms by (simp_all add: rb_lib_ok_def dt_wf_def flip: set_inorder)

lemma rb_erase_wf:
  assumes "rb_lib_ok L" and "dt_wf ps t" and "p \<in> set_tree t"
  shows "dt_wf ps (rb_erase L p t)" and "set_tree (rb_erase L p t) = set_tree t - {p}"
proof -
  have io: "inorder (rb_erase L p t) = remove1 p (inorder t)"
    using assms(1,3) by (simp add: rb_lib_ok_def)
  from assms(2) have "sorted_wrt (\<lambda>p q. tp_index (ps p) < tp_index (ps q)) (inorder t)"
    by (simp add: dt_wf_def sorted_wrt_map)
  then have "sorted_wrt (\<lambda>p q. tp_index (ps p) < tp_index (ps q)) (remove1 p (inorder t))"
    by (rule sorted_wrt_remove1)
  then show "dt_wf ps (rb_erase L p t)"
    by (simp add: dt_wf_def sorted_wrt_map io)
  show "set_tree (rb_erase L p t) = set_tree t - {p}"
    using io dt_wf_distinct [OF assms(2)] set_remove1_eq [of "inorder t" p]
    by (metis set_inorder)
qed

lemma tagged_rb_insert_spec:
  assumes "rb_lib_ok L" and "dt_wf ps t"
  shows "tagged_rb_insert L ps t p = (ret, t') \<Longrightarrow>
    dt_wf ps t' \<and>
    (if \<exists>q\<in>set_tree t. tp_index (ps q) = tp_index (ps p) then ret = 0 \<and> t' = t
     else ret = 1 \<and> set_tree t' = insert p (set_tree t))"
  using rb_link_None [OF assms(2), of p] rb_link_Some [OF assms(2), of p] assms
  by (auto simp: tagged_rb_insert_def rb_insert_color_wf split: option.splits)

lemma tagged_rb_erase_spec:
  assumes "rb_lib_ok L" and "dt_wf ps t"
  shows "tagged_rb_erase L ps t pgoff = (ret, t') \<Longrightarrow>
    dt_wf ps t' \<and> set_tree t' = {p \<in> set_tree t. tp_index (ps p) \<noteq> pgoff} \<and>
    (ret = 1 \<longleftrightarrow> (\<exists>p\<in>set_tree t. tp_index (ps p) = pgoff))"
proof (cases "tagged_rb_search ps t pgoff")
  case None
  with tagged_rb_search_None [OF assms(2)] assms(2)
  show "tagged_rb_erase L ps t pgoff = (ret, t') \<Longrightarrow> ?thesis"
    by (auto simp: tagged_rb_erase_def)
next
  case (Some p)
  then have p: "p \<in> set_tree t" "tp_index (ps p) = pgoff"
    using tagged_rb_search_Some [OF assms(2)] by auto
  then have "{q \<in> set_tree t. tp_index (ps q) \<noteq> pgoff} = set_tree t - {p}"
    using dt_wf_inj [OF assms(2)] by auto
  with p Some rb_erase_wf [OF assms p(1)]
  show "tagged_rb_erase L ps t pgoff = (ret, t') \<Longrightarrow> ?thesis"
    by (auto simp: tagged_rb_erase_def)
qed

section \<open>Properties of the dirty trees\<close>

text \<open>
  C31. The dirty tree implements a finite map from page numbers to dirty pages: whatever the kernel's
  rebalancing does within its contract, inserting a page makes a search for its number find it (or
  the page already stored under that number) and no other search changes.
\<close>

theorem dirty_tree_insert_search:
  assumes "rb_lib_ok L" and "dt_wf ps t" and "tagged_rb_insert L ps t p = (ret, t')"
  shows "dt_wf ps t' \<and> tagged_rb_search ps t' i =
    (if i = tp_index (ps p) \<and> tagged_rb_search ps t i = None then Some p
     else tagged_rb_search ps t i)"
proof -
  note ins = tagged_rb_insert_spec [OF assms(1,2,3)]
  then have wf': "dt_wf ps t'" by simp
  have "tagged_rb_search ps t' i = x" if "case x of
      None \<Rightarrow> \<forall>q\<in>set_tree t'. tp_index (ps q) \<noteq> i
    | Some q \<Rightarrow> q \<in> set_tree t' \<and> tp_index (ps q) = i" for x
    using that tagged_rb_search_None [OF wf'] tagged_rb_search_Some [OF wf']
    by (cases x) auto
  moreover have "tagged_rb_search ps t i = None \<longleftrightarrow> (\<forall>q\<in>set_tree t. tp_index (ps q) \<noteq> i)"
    by (rule tagged_rb_search_None [OF assms(2)])
  ultimately show ?thesis
    using ins wf' tagged_rb_search_Some [OF assms(2), of i]
    by (auto split: option.splits if_splits)
qed

definition ps_by_number :: pages where
  "ps_by_number = (\<lambda>p. tp_set_index (word_of_nat p) tp_example)"

theorem dirty_tree_insert_search_witness:
  "tagged_rb_search ps_by_number (snd (tagged_rb_insert plain_rb ps_by_number (Node Leaf 4 Leaf) 9)) 9
     = Some 9"
proof -
  have "dt_wf ps_by_number (Node Leaf 4 Leaf)" by (simp add: dt_wf_def)
  from dirty_tree_insert_search [OF plain_rb_ok this, of 9 _ _ 9] show ?thesis
    by (cases "tagged_rb_insert plain_rb ps_by_number (Node Leaf 4 Leaf) 9")
      (auto simp: ps_by_number_def split: if_splits)
qed

text \<open>
  C32. Erasing a page number removes the page stored under it and nothing else, and reports 1 exactly
  when there was one.
\<close>

theorem dirty_tree_erase_search:
  assumes "rb_lib_ok L" and "dt_wf ps t" and "tagged_rb_erase L ps t j = (ret, t')"
  shows "dt_wf ps t' \<and> (ret = 1 \<longleftrightarrow> tagged_rb_search ps t j \<noteq> None) \<and>
    tagged_rb_search ps t' i = (if i = j then None else tagged_rb_search ps t i)"
proof -
  note er = tagged_rb_erase_spec [OF assms(1,2,3)]
  then have wf': "dt_wf ps t'" by simp
  show ?thesis
  proof (cases "tagged_rb_search ps t i")
    case None
    then have "\<forall>p\<in>set_tree t. tp_index (ps p) \<noteq> i"
      using tagged_rb_search_None [OF assms(2)] by simp
    with er have "tagged_rb_search ps t' i = None"
      using tagged_rb_search_None [OF wf', of i] by simp
    with None er wf' tagged_rb_search_None [OF assms(2), of j] show ?thesis by auto
  next
    case (Some p)
    then have "p \<in> set_tree t" "tp_index (ps p) = i"
      using tagged_rb_search_Some [OF assms(2)] by auto
    with Some er wf' tagged_rb_search_None [OF assms(2)] tagged_rb_search_None [OF wf', of i]
      tagged_rb_search_Some [OF wf', of i p]
    show ?thesis by auto
  qed
qed

theorem dirty_tree_erase_search_witness:
  "tagged_rb_search ps_by_number
     (snd (tagged_rb_erase plain_rb ps_by_number (Node Leaf 4 (Node Leaf 9 Leaf)) 4)) 4 = None"
proof -
  have "dt_wf ps_by_number (Node Leaf 4 (Node Leaf 9 Leaf))"
    by (simp add: dt_wf_def ps_by_number_def)
  from dirty_tree_erase_search [OF plain_rb_ok this, of 4 _ _ 4] show ?thesis
    by (cases "tagged_rb_erase plain_rb ps_by_number (Node Leaf 4 (Node Leaf 9 Leaf)) 4") auto
qed

text \<open>
  A page that \<^verbatim>\<open>tagged_rb_greater_equal\<close> returns is in the tree and is the one with the least number
  that is not below the requested one.
\<close>

lemma tagged_rb_greater_equal_least:
  assumes "dt_wf ps t" and "tagged_rb_greater_equal ps t pgoff = Some p"
  shows "p \<in> set_tree t \<and> pgoff \<le> tp_index (ps p) \<and>
    (\<forall>q\<in>set_tree t. pgoff \<le> tp_index (ps q) \<longrightarrow> tp_index (ps p) \<le> tp_index (ps q))"
  using assms
proof (induction t)
  case Leaf
  then show ?case by simp
next
  case (Node l x r)
  then have wf: "dt_wf ps l" "dt_wf ps r" "\<forall>q\<in>set_tree l. tp_index (ps q) < tp_index (ps x)"
    "\<forall>q\<in>set_tree r. tp_index (ps x) < tp_index (ps q)"
    by (simp_all add: dt_wf_Node)
  show ?case
  proof (cases "tp_index (ps x)" pgoff rule: linorder_cases)
    case equal
    with Node.prems wf show ?thesis by (auto simp: less_imp_le)
  next
    case less
    with Node.prems have "tagged_rb_greater_equal ps r pgoff = Some p"
      by (auto simp: Let_def split: if_splits)
    with Node.IH(2) wf less show ?thesis by (auto dest: less_trans)
  next
    case greater
    show ?thesis
    proof (cases "l = Leaf")
      case True
      with greater Node.prems wf show ?thesis
        by (auto simp: Let_def less_imp_le split: if_splits)
    next
      case False
      with greater Node.prems have "tagged_rb_greater_equal ps l pgoff = Some p"
        by (auto simp: Let_def split: if_splits)
      with Node.IH(1) wf(1) have p: "p \<in> set_tree l" "pgoff \<le> tp_index (ps p)"
        "\<forall>q\<in>set_tree l. pgoff \<le> tp_index (ps q) \<longrightarrow> tp_index (ps p) \<le> tp_index (ps q)"
        by auto
      then have px: "tp_index (ps p) < tp_index (ps x)" using wf(3) by blast
      have "tp_index (ps p) \<le> tp_index (ps q)" if "q \<in> set_tree r" for q
        using px bspec [OF wf(4) that] by (rule less_imp_le [OF less_trans])
      with p px show ?thesis by (auto intro: less_imp_le)
    qed
  qed
qed

lemma tagged_rb_greater_equal_least_witness:
  "5 \<le> tp_index (ps_by_number 9) \<and> 9 \<in> set_tree (Node Leaf 4 (Node Leaf 9 Leaf))"
proof -
  have "dt_wf ps_by_number (Node Leaf 4 (Node Leaf 9 Leaf))"
    by (simp add: dt_wf_def ps_by_number_def)
  moreover have "tagged_rb_greater_equal ps_by_number (Node Leaf 4 (Node Leaf 9 Leaf)) 5 = Some 9"
    by (simp add: ps_by_number_def Let_def)
  ultimately show ?thesis
    using tagged_rb_greater_equal_least [of ps_by_number "Node Leaf 4 (Node Leaf 9 Leaf)" 5 9] by simp
qed

text \<open>
  The search is not complete: at a node above the requested number with a left child it descends to
  the left and forgets the node, so it can return NULL although the tree has such a page.
\<close>

lemma tagged_rb_greater_equal_misses:
  "dt_wf ps_by_number (Node (Node Leaf 4 Leaf) 9 Leaf) \<and>
   tagged_rb_greater_equal ps_by_number (Node (Node Leaf 4 Leaf) 9 Leaf) 5 = None \<and>
   9 \<in> set_tree (Node (Node Leaf 4 Leaf) 9 Leaf) \<and> 5 \<le> tp_index (ps_by_number 9)"
  by (simp add: dt_wf_def ps_by_number_def Let_def)

end
