(* ===== verification/Params.thy ===== *)
theory Params
  imports FM_Prelude
begin

text \<open>
  \<^verbatim>\<open>buffer_loadtime_parameters.c\<close>, \<^verbatim>\<open>buffer_runtime_parameters.c\<close> and the parameter part of
  \<^verbatim>\<open>di-mmap_parameters.c\<close>: the parameter records, their initial values and copies, and the sysfs
  store functions. The text of an attribute is parsed by the kernel (\<^verbatim>\<open>kstrtoint\<close>, \<^verbatim>\<open>kstrtoul\<close>,
  \<^verbatim>\<open>sscanf\<close>), whose results are arguments here; the callbacks into the driver are values that the
  store functions return.
\<close>

section \<open>Load-time parameters\<close>

record fraction =
  fr_mul :: int
  fr_logb2_shift :: int

record buf_ld_params =
  ld_mmap_buf_size :: int
  ld_superpage_alloc_order :: int
  ld_hot_page_fifo_alloc_ratio :: fraction
  ld_victim_queue_alloc_ratio :: fraction

definition HPF_ALLOC_RATIO_SHIFT :: int where "HPF_ALLOC_RATIO_SHIFT = 1"
definition VQ_ALLOC_RATIO_SHIFT :: int where "VQ_ALLOC_RATIO_SHIFT = 5"

definition init_ld_params :: buf_ld_params where
  "init_ld_params = \<lparr>ld_mmap_buf_size = 0, ld_superpage_alloc_order = 0,
     ld_hot_page_fifo_alloc_ratio = \<lparr>fr_mul = 1, fr_logb2_shift = HPF_ALLOC_RATIO_SHIFT\<rparr>,
     ld_victim_queue_alloc_ratio = \<lparr>fr_mul = 1, fr_logb2_shift = VQ_ALLOC_RATIO_SHIFT\<rparr>\<rparr>"

definition copy_ld_params :: "buf_ld_params \<Rightarrow> buf_ld_params \<Rightarrow> buf_ld_params" where
  "copy_ld_params dst src =
     dst\<lparr>ld_mmap_buf_size := ld_mmap_buf_size src,
         ld_superpage_alloc_order := ld_superpage_alloc_order src,
         ld_hot_page_fifo_alloc_ratio :=
           \<lparr>fr_mul = fr_mul (ld_hot_page_fifo_alloc_ratio src),
            fr_logb2_shift = fr_logb2_shift (ld_hot_page_fifo_alloc_ratio src)\<rparr>,
         ld_victim_queue_alloc_ratio :=
           \<lparr>fr_mul = fr_mul (ld_victim_queue_alloc_ratio src),
            fr_logb2_shift = fr_logb2_shift (ld_victim_queue_alloc_ratio src)\<rparr>\<rparr>"

section \<open>Run-time parameters\<close>

record buf_rt_params =
  rt_dirty_page_hotness :: int
  rt_min_free_pages_per_bank :: int
  rt_log_fault_sequence :: int
  rt_fault_sequence_tag :: int
  rt_reset_history :: int
  rt_print_status :: int
  rt_reset_stats :: int
  rt_drop_invalidated_pages :: int

definition init_rt_params :: buf_rt_params where
  "init_rt_params = \<lparr>rt_dirty_page_hotness = 0, rt_min_free_pages_per_bank = 8,
     rt_log_fault_sequence = 1, rt_fault_sequence_tag = 0, rt_reset_history = 0, rt_print_status = 0,
     rt_reset_stats = 0, rt_drop_invalidated_pages = 0\<rparr>"

text \<open>The last assignment of \<^verbatim>\<open>copy_rt_params\<close> copies the field of the destination to itself.\<close>

definition copy_rt_params :: "buf_rt_params \<Rightarrow> buf_rt_params \<Rightarrow> buf_rt_params" where
  "copy_rt_params dst src =
     dst\<lparr>rt_dirty_page_hotness := rt_dirty_page_hotness src,
         rt_min_free_pages_per_bank := rt_min_free_pages_per_bank src,
         rt_log_fault_sequence := rt_log_fault_sequence src,
         rt_fault_sequence_tag := rt_fault_sequence_tag src,
         rt_reset_history := rt_reset_history src,
         rt_print_status := rt_print_status src,
         rt_reset_stats := rt_reset_stats src,
         rt_drop_invalidated_pages := rt_drop_invalidated_pages dst\<rparr>"

section \<open>System parameters\<close>

record sys_rt_params =
  sys_buffer_state :: int
  sys_reset_buffer_fields :: int
  sys_scan_ptes :: int
  sys_debug_lvl :: int
  sys_reset_device_stats :: int
  sys_clear_counters :: int

definition init_sys_rt_params :: sys_rt_params where
  "init_sys_rt_params = \<lparr>sys_buffer_state = 0, sys_reset_buffer_fields = 0, sys_scan_ptes = 0,
     sys_debug_lvl = 0, sys_reset_device_stats = 0, sys_clear_counters = 0\<rparr>"

section \<open>Store functions\<close>

text \<open>
  A store function returns its result and the new parameters with what it calls: the callback
  (\<^verbatim>\<open>update_dimmap_buf_*\<close>, \<^verbatim>\<open>init_mmap_params\<close> or the function of a toggle), in order.
\<close>

datatype param_call = Update_ld | Update_rt | Init_mmap_params | Toggle_fn string

text \<open>\<open>parsed\<close> is \<open>Inr val\<close> when \<^verbatim>\<open>kstrtoint\<close> succeeds and \<open>Inl err\<close> when it fails.\<close>

definition store_integer_ld_param ::
  "(int \<Rightarrow> buf_ld_params \<Rightarrow> buf_ld_params) \<Rightarrow> int + int \<Rightarrow> int \<Rightarrow> buf_ld_params
     \<Rightarrow> int \<times> buf_ld_params \<times> param_call list" where
  "store_integer_ld_param upd parsed cnt p =
     (case parsed of
        Inl ret \<Rightarrow> (ret, p, [])
      | Inr val \<Rightarrow> (cnt, upd val p, [Update_ld]))"

definition store_ld_param_mmap_buf_size ::
  "int + u64 \<Rightarrow> int \<Rightarrow> buf_ld_params \<Rightarrow> int \<times> buf_ld_params \<times> param_call list" where
  "store_ld_param_mmap_buf_size parsed cnt p =
     (case parsed of
        Inl ret \<Rightarrow> (ret, p, [])
      | Inr new_size \<Rightarrow>
          (cnt, p\<lparr>ld_mmap_buf_size := sint (signed_drop_bit (nat (ld_superpage_alloc_order p)) new_size)\<rparr>,
           [Update_ld, Init_mmap_params]))"

text \<open>
  The loop that computes the logarithm of the denominator. Shifting \<^verbatim>\<open>1\<close> by 31 places leaves the range
  of \<^verbatim>\<open>int\<close>, which C leaves undefined: that is \<open>None\<close>.
\<close>

function logb2_loop :: "nat \<Rightarrow> int \<Rightarrow> int \<Rightarrow> int option" where
  "logb2_loop i denominator logb2_shift =
     (if i \<ge> 31 then None
      else if 2 ^ i < denominator then logb2_loop (i + 1) denominator (int i + 1)
      else Some logb2_shift)"
  by pat_completeness auto
termination by (relation "measure (\<lambda>(i, d, l). 31 - i)") auto

text \<open>
  The two store functions for ratios differ in the field only. \<open>scanned\<close> is the result of \<^verbatim>\<open>sscanf\<close> with
  the two numbers. \<open>None\<close> is the undefined shift.
\<close>

definition store_ld_param_ratio ::
  "(fraction \<Rightarrow> buf_ld_params \<Rightarrow> buf_ld_params) \<Rightarrow> int \<times> int \<times> int \<Rightarrow> int \<Rightarrow> buf_ld_params
     \<Rightarrow> (int \<times> buf_ld_params \<times> param_call list) option" where
  "store_ld_param_ratio upd scanned cnt p =
     (let (ret, mul, denominator) = scanned in
      if ret \<noteq> 2 then Some (ret, p, [])
      else case logb2_loop 0 denominator 0 of
             None \<Rightarrow> None
           | Some logb2_shift \<Rightarrow>
               (if 2 ^ nat logb2_shift \<noteq> denominator then Some (cnt, p, [])
                else Some (cnt, upd \<lparr>fr_mul = mul, fr_logb2_shift = logb2_shift\<rparr> p,
                           [Update_ld, Init_mmap_params])))"

definition store_ld_param_hot_page_fifo_alloc_ratio ::
  "int \<times> int \<times> int \<Rightarrow> int \<Rightarrow> buf_ld_params \<Rightarrow> (int \<times> buf_ld_params \<times> param_call list) option" where
  "store_ld_param_hot_page_fifo_alloc_ratio =
     store_ld_param_ratio (\<lambda>f p. p\<lparr>ld_hot_page_fifo_alloc_ratio := f\<rparr>)"

definition store_ld_param_victim_queue_alloc_ratio ::
  "int \<times> int \<times> int \<Rightarrow> int \<Rightarrow> buf_ld_params \<Rightarrow> (int \<times> buf_ld_params \<times> param_call list) option" where
  "store_ld_param_victim_queue_alloc_ratio =
     store_ld_param_ratio (\<lambda>f p. p\<lparr>ld_victim_queue_alloc_ratio := f\<rparr>)"

definition store_integer_rt_param ::
  "(int \<Rightarrow> buf_rt_params \<Rightarrow> buf_rt_params) \<Rightarrow> int + int \<Rightarrow> int \<Rightarrow> buf_rt_params
     \<Rightarrow> int \<times> buf_rt_params \<times> param_call list" where
  "store_integer_rt_param upd parsed cnt p =
     (case parsed of
        Inl ret \<Rightarrow> (ret, p, [])
      | Inr val \<Rightarrow> (cnt, upd val p, [Update_rt]))"

definition toggle_integer_rt_param ::
  "(int \<Rightarrow> buf_rt_params \<Rightarrow> buf_rt_params) \<Rightarrow> string \<Rightarrow> int \<Rightarrow> int \<Rightarrow> int + int \<Rightarrow> int \<Rightarrow> buf_rt_params
     \<Rightarrow> int \<times> buf_rt_params \<times> param_call list" where
  "toggle_integer_rt_param upd fn test reset parsed cnt p =
     (case parsed of
        Inl ret \<Rightarrow> (ret, p, [])
      | Inr val \<Rightarrow>
          (let p = upd val p
           in if val = test then (cnt, upd reset p, [Toggle_fn fn, Update_rt])
              else (cnt, p, [Update_rt])))"

definition toggle_integer_sys_rt_param ::
  "(int \<Rightarrow> sys_rt_params \<Rightarrow> sys_rt_params) \<Rightarrow> string \<Rightarrow> int \<Rightarrow> int \<Rightarrow> int + int \<Rightarrow> int \<Rightarrow> sys_rt_params
     \<Rightarrow> int \<times> sys_rt_params \<times> param_call list" where
  "toggle_integer_sys_rt_param upd fn test reset parsed cnt p =
     (case parsed of
        Inl ret \<Rightarrow> (ret, p, [])
      | Inr val \<Rightarrow>
          (let p = upd val p
           in if val = test then (cnt, upd reset p, [Toggle_fn fn]) else (cnt, p, [])))"

definition store_sys_rt_debug_lvl :: "int + int \<Rightarrow> int \<Rightarrow> sys_rt_params \<Rightarrow> int \<times> sys_rt_params" where
  "store_sys_rt_debug_lvl parsed cnt p =
     (case parsed of Inl ret \<Rightarrow> (ret, p) | Inr val \<Rightarrow> (cnt, p\<lparr>sys_debug_lvl := val\<rparr>))"

text \<open>
  \<^verbatim>\<open>store_sys_rt_buffer_state\<close>: the calls to the allocation routines, in order.
\<close>

datatype buffer_call = Deallocate_runtime_buffer | Allocate_runtime_buffer

definition store_sys_rt_buffer_state :: "int + int \<Rightarrow> int \<Rightarrow> sys_rt_params \<Rightarrow> int \<times> buffer_call list" where
  "store_sys_rt_buffer_state parsed cnt p =
     (case parsed of
        Inl ret \<Rightarrow> (ret, [])
      | Inr val \<Rightarrow>
          (cnt,
           if val = 0 then (if sys_buffer_state p \<noteq> 0 then [Deallocate_runtime_buffer] else [])
           else if val = 1 then
             (if sys_buffer_state p \<noteq> 0 then [Deallocate_runtime_buffer] else []) @ [Allocate_runtime_buffer]
           else []))"

section \<open>Properties\<close>

declare logb2_loop.simps [simp del]

lemma logb2_loop_spec:
  assumes "i \<le> 30" and "d \<le> 2 ^ 30" and "l = int i" and "\<And>j. j < i \<Longrightarrow> 2 ^ j < d"
  shows "\<exists>k. logb2_loop i d l = Some (int k) \<and> i \<le> k \<and> d \<le> 2 ^ k \<and> (\<forall>j<k. 2 ^ j < d)"
  using assms
proof (induction i d l rule: logb2_loop.induct)
  case (1 i d l)
  show ?case
  proof (cases "2 ^ i < d")
    case True
    have "i \<noteq> 30" using True "1.prems"(2) by auto
    then have "i + 1 \<le> 30" using "1.prems"(1) by simp
    with "1.IH" [OF _ True] "1.prems" True
    have "\<exists>k. logb2_loop (i + 1) d (int i + 1) = Some (int k) \<and> i + 1 \<le> k \<and> d \<le> 2 ^ k \<and> (\<forall>j<k. 2 ^ j < d)"
      by (auto simp: less_Suc_eq)
    with True "1.prems"(1) show ?thesis by (subst logb2_loop.simps) auto
  next
    case False
    with "1.prems" show ?thesis by (subst logb2_loop.simps) auto
  qed
qed

lemma logb2_loop_0:
  assumes "d \<le> 2 ^ 30"
  shows "\<exists>k. logb2_loop 0 d 0 = Some (int k) \<and> d \<le> 2 ^ k \<and> (\<forall>j<k. 2 ^ j < d)"
  using logb2_loop_spec [of 0 d 0] assms by simp

text \<open>
  A ratio \<open>mul/denominator\<close> with a denominator up to \<open>2 ^ 30\<close> is stored exactly when the
  denominator is a power of two, and then as that power: the stored fraction denotes the written one.
  Otherwise the parameters keep their value, and nothing is called.
\<close>

lemma store_ratio_spec:
  assumes "d \<le> 2 ^ 30"
  shows "if \<exists>k. d = 2 ^ k
    then \<exists>k. d = 2 ^ k \<and> store_ld_param_victim_queue_alloc_ratio (2, m, d) cnt p =
      Some (cnt, p\<lparr>ld_victim_queue_alloc_ratio := \<lparr>fr_mul = m, fr_logb2_shift = int k\<rparr>\<rparr>,
            [Update_ld, Init_mmap_params])
    else store_ld_param_victim_queue_alloc_ratio (2, m, d) cnt p = Some (cnt, p, [])"
proof -
  obtain k where k: "logb2_loop 0 d 0 = Some (int k)" "d \<le> 2 ^ k" "\<forall>j<k. 2 ^ j < d"
    using logb2_loop_0 [OF assms] by blast
  have "j = k" if "d = 2 ^ j" for j
    using k(2,3) that by (metis less_irrefl linorder_neqE_nat not_less one_less_numeral_iff power_strict_increasing_iff semiring_norm(76))
  with k show ?thesis
    by (auto simp: store_ld_param_victim_queue_alloc_ratio_def store_ld_param_ratio_def)
qed

lemma store_ratio_spec_witness:
  "store_ld_param_victim_queue_alloc_ratio (2, 3, 12) 5 init_ld_params = Some (5, init_ld_params, [])"
proof -
  have "\<nexists>k. (12 :: int) = 2 ^ k"
  proof
    assume "\<exists>k. (12 :: int) = 2 ^ k"
    then obtain k where k: "(12 :: int) = 2 ^ k" ..
    then have "k \<noteq> 0" "k \<noteq> 1" "k \<noteq> 2" "k \<noteq> 3" by (intro notI; simp)+
    then have "4 \<le> k" by linarith
    then have "(2 :: int) ^ 4 \<le> 2 ^ k" by (rule power_increasing) simp
    with k show False by simp
  qed
  with store_ratio_spec [of 12 3 5 init_ld_params] show ?thesis by simp
qed

text \<open>A denominator above \<open>2 ^ 30\<close> makes the loop shift out of the range of \<^verbatim>\<open>int\<close>.\<close>

lemma logb2_loop_diverges: "2 ^ 30 < d \<Longrightarrow> i \<le> 31 \<Longrightarrow> logb2_loop i d l = None"
proof (induction i d l rule: logb2_loop.induct)
  case (1 i d l)
  show ?case
  proof (cases "i \<ge> 31")
    case False
    then have "(2 :: int) ^ i \<le> 2 ^ 30" by (intro power_increasing) auto
    with 1 False show ?thesis by (subst logb2_loop.simps) simp
  qed (simp add: logb2_loop.simps)
qed

text \<open>
  Copying the run-time parameters copies every field but \<^verbatim>\<open>drop_invalidated_pages\<close>, which keeps the
  value of the destination: the copy is the source exactly when that field agrees.
\<close>

lemma copy_rt_params_spec:
  "copy_rt_params dst src = src\<lparr>rt_drop_invalidated_pages := rt_drop_invalidated_pages dst\<rparr> \<and>
   (copy_rt_params dst src = src \<longleftrightarrow> rt_drop_invalidated_pages dst = rt_drop_invalidated_pages src) \<and>
   copy_ld_params ldst lsrc = lsrc"
  by (cases src; cases dst; cases lsrc; cases ldst) (auto simp: copy_rt_params_def copy_ld_params_def)

end
