(* ===== verification/Fm_State.thy ===== *)
theory Fm_State
  imports Page_Map Page_Fifo Dirty_Tree Params
begin

text \<open>
  The state of the driver and of the parts of the kernel it manipulates: the buffer
  (\<^verbatim>\<open>fifo_buffer_t\<close>), the backing objects (\<^verbatim>\<open>struct pr_vma_data\<close>), the mapped regions
  (\<^verbatim>\<open>struct pr_vma_entry\<close>, \<^verbatim>\<open>struct fastmap_info\<close>), page tables and the content of the backing store.
  The records extend \<open>page_map\<close>, as \<^verbatim>\<open>fifo_buffer_t\<close> contains its \<^verbatim>\<open>page_map\<close>.
\<close>

section \<open>The buffer\<close>

record fifo_buffer = page_map +
  fb_primary :: "nat \<Rightarrow> lpfifo"
  fb_dirty :: "nat \<Rightarrow> dfifo"
  fb_ld_params :: buf_ld_params
  fb_rt_params :: buf_rt_params
  fb_size :: nat
  fb_evictor_run :: bool
  fb_active_evictors :: int

section \<open>Backing objects\<close>

datatype pvd_kind = D_INVD | D_BLKD | D_FILE

text \<open>
  \<^verbatim>\<open>struct pr_vma_data\<close>. The lock arrays have no value; \<open>pvd_bk\<close> names the block device or the lower
  file, \<open>pvd_rdd\<close> the raw device whose metadata a block device uses. The per-CPU radix trees are finite
  maps from page numbers.
\<close>

record pr_vma_data =
  pvd_type :: pvd_kind
  pvd_dev_id :: nat
  pvd_ino :: nat
  pvd_cnt :: int
  pvd_mmaped :: int
  pvd_bk :: "nat option"
  pvd_open_fds :: "nat option list"
  pvd_dirty_tree :: "nat \<Rightarrow> rb_root"
  pvd_rdd :: "nat option"
  pvd_is_readonly :: bool
  pvd_is_mmap :: bool
  pvd_is_valid :: bool
  pvd_rdx :: "nat \<Rightarrow> u64 \<Rightarrow> pid option"
  pvd_vma_count :: int
  pvd_during_unlink :: int

section \<open>Mapped regions\<close>

text \<open>
  \<^verbatim>\<open>struct pr_vma_entry\<close>: an entry of a list \<^verbatim>\<open>pcpu_mapped[cpu]\<close> is named by its page and its position in
  the page's \<^verbatim>\<open>rmap\<close> array.
\<close>

record pr_vma_entry =
  pve_refcount :: int
  pve_vm_start :: u64
  pve_vm_end :: u64
  pve_mapped :: "nat \<Rightarrow> (pid \<times> nat) list"

record fastmap_info =
  fi_is_fastmap :: bool
  fi_pvd :: nat
  fi_pve :: nat

text \<open>The members of \<^verbatim>\<open>struct vm_area_struct\<close> the driver uses; \<open>vma_info\<close> is \<^verbatim>\<open>vm_private_data\<close>.\<close>

record vm_area =
  vma_mm :: u64
  vma_start :: u64
  vma_end :: u64
  vma_pgoff :: u64
  vma_flags :: u64
  vma_info :: nat
  vma_file :: nat

section \<open>Raw devices\<close>

text \<open>
  \<^verbatim>\<open>struct raw_device_data\<close> with its \<^verbatim>\<open>struct fbd_bitmap\<close>: \<open>rdd_binding\<close> is the bound block device, \<open>rdd_meta\<close>
  the array of priorities (\<^verbatim>\<open>struct device_meta\<close> without \<^verbatim>\<open>ENABLE_STATS\<close>), \<open>rdd_bitmap i\<close> bit \<open>i\<close> of the bitmap.
\<close>

record raw_device_data =
  rdd_inuse :: int
  rdd_dev_id :: u32
  rdd_binding :: "nat option"
  rdd_meta :: "u8 list option"
  rdd_size_in_pages :: u64
  rdd_bitmap_size :: u64
  rdd_bitmap :: "u64 \<Rightarrow> bool"
  rdd_path :: string

section \<open>Page tables and TLB\<close>

text \<open>
  A page-table entry names the tagged page whose frame it maps. A page table is indexed by the
  address space and the page-aligned address. The TLB flushes requested so far are kept as a list.
\<close>

record pte =
  pte_frame :: pid
  pte_dirty :: bool
  pte_young :: bool
  pte_write :: bool

type_synonym ptes = "u64 \<times> u64 \<Rightarrow> pte option"

datatype tlb_flush = Flush_page u64 u64 | Flush_range u64 u64 u64

section \<open>The whole state\<close>

text \<open>
  \<open>fm_disk b i\<close> is page \<open>i\<close> of the block device or lower file \<open>b\<close>. \<open>fm_lower f\<close> is the lower file of an open
  file (\<^verbatim>\<open>wrapfs_lower_file\<close>) and \<open>fm_isize b\<close> the size in bytes of lower file \<open>b\<close>. \<open>fm_bug\<close> is set when the code reaches
  \<^verbatim>\<open>BUG()\<close> or writes outside an array: from there on the state means nothing.
\<close>

record fm = fifo_buffer +
  fm_pvd :: "nat \<Rightarrow> pr_vma_data"
  fm_pve :: "nat \<Rightarrow> pr_vma_entry"
  fm_info :: "nat \<Rightarrow> fastmap_info"
  fm_vma :: "u64 \<Rightarrow> vm_area"
  fm_pte :: ptes
  fm_rss :: "u64 \<Rightarrow> int"
  fm_flush :: "tlb_flush list"
  fm_disk :: "nat \<Rightarrow> u64 \<Rightarrow> pdata"
  fm_rdd :: "nat \<Rightarrow> raw_device_data"
  fm_lower :: "nat \<Rightarrow> nat"
  fm_isize :: "nat \<Rightarrow> u64"
  fm_bug :: bool

text \<open>
  A bio or a direct-I/O write request: the device or file, the first page number and the content of
  the pages, in order.
\<close>

record io_req =
  io_dev :: nat
  io_page :: u64
  io_data :: "pdata list"

text \<open>
  The kernel functions the driver relies on: the machine (\<open>k_topo\<close>), red-black trees (\<open>k_rb\<close>), the walk
  over the page table for a page at an address (\<open>k_walk\<close>), how many pages of a
  write request reach the store (\<open>k_written\<close>), the capacity of a block device in sectors (\<open>k_capacity\<close>),
  whether a read of a page of a block device succeeds (\<open>k_bio_ok\<close>), what \<^verbatim>\<open>read_iter\<close> of a lower file returns
  for one page at a byte position (\<open>k_read_iter\<close>), and whether its file system has a \<^verbatim>\<open>writepage\<close>.
\<close>

record kernel =
  k_topo :: topology
  k_rb :: rb_lib
  k_walk :: "ptes \<Rightarrow> u64 \<Rightarrow> u64 \<Rightarrow> pid \<Rightarrow> pte option"
  k_written :: "io_req \<Rightarrow> nat"
  k_capacity :: "nat \<Rightarrow> u64"
  k_bio_ok :: "nat \<Rightarrow> u64 \<Rightarrow> bool"
  k_read_iter :: "nat \<Rightarrow> u64 \<Rightarrow> int"
  k_writepage :: "nat \<Rightarrow> bool"

abbreviation ncpus :: "kernel \<Rightarrow> nat" where
  "ncpus K \<equiv> num_online_cpus (k_topo K)"

text \<open>
  The contract of \<^verbatim>\<open>page_vma_mapped_walk\<close>: it reports the entry at the address when that entry maps
  the page, and nothing else.
\<close>

definition walk_ok :: "kernel \<Rightarrow> bool" where
  "walk_ok K \<longleftrightarrow> (\<forall>m mm a p e. k_walk K m mm a p = Some e \<longleftrightarrow> m (mm, a) = Some e \<and> pte_frame e = p)"

definition plain_walk :: "ptes \<Rightarrow> u64 \<Rightarrow> u64 \<Rightarrow> pid \<Rightarrow> pte option" where
  "plain_walk m mm a p = (case m (mm, a) of None \<Rightarrow> None | Some e \<Rightarrow> if pte_frame e = p then Some e else None)"

lemma plain_walk_ok: "k_walk K = plain_walk \<Longrightarrow> walk_ok K"
  by (auto simp: walk_ok_def plain_walk_def split: option.splits if_splits)

section \<open>Access to parts of the state\<close>

text \<open>The parts that the operations on pages only read.\<close>

definition env_of :: "'a fm_scheme \<Rightarrow> (u64 \<Rightarrow> vm_area) \<times> (nat \<Rightarrow> fastmap_info) \<times> (nat \<Rightarrow> u64 \<Rightarrow> pdata) \<times>
    (nat \<Rightarrow> raw_device_data) \<times> (nat \<Rightarrow> nat) \<times> (nat \<Rightarrow> u64) \<times> nat list option" where
  "env_of s = (fm_vma s, fm_info s, fm_disk s, fm_rdd s, fm_lower s, fm_isize s, pm_numa_dv s)"

lemma env_ofD:
  assumes "env_of s' = env_of s"
  shows "fm_vma s' = fm_vma s" "fm_info s' = fm_info s" "fm_disk s' = fm_disk s" "fm_rdd s' = fm_rdd s"
    "fm_lower s' = fm_lower s" "fm_isize s' = fm_isize s" "pm_numa_dv s' = pm_numa_dv s"
  using assms by (simp_all add: env_of_def)

definition upd_pvd :: "nat \<Rightarrow> (pr_vma_data \<Rightarrow> pr_vma_data) \<Rightarrow> 'a fm_scheme \<Rightarrow> 'a fm_scheme" where
  "upd_pvd d f s = s\<lparr>fm_pvd := (fm_pvd s)(d := f (fm_pvd s d))\<rparr>"

definition upd_pve :: "nat \<Rightarrow> (pr_vma_entry \<Rightarrow> pr_vma_entry) \<Rightarrow> 'a fm_scheme \<Rightarrow> 'a fm_scheme" where
  "upd_pve e f s = s\<lparr>fm_pve := (fm_pve s)(e := f (fm_pve s e))\<rparr>"

definition upd_rmap :: "pid \<Rightarrow> nat \<Rightarrow> (pr_vma_rmap \<Rightarrow> pr_vma_rmap) \<Rightarrow> 'a fm_scheme \<Rightarrow> 'a fm_scheme" where
  "upd_rmap p i f s = upd_page p (\<lambda>t. t\<lparr>tp_rmap := (tp_rmap t)[i := f (tp_rmap t ! i)]\<rparr>) s"

definition rmap_of :: "'a page_map_scheme \<Rightarrow> pid \<Rightarrow> nat \<Rightarrow> pr_vma_rmap" where
  "rmap_of s p i = tp_rmap (pm_pages s p) ! i"

text \<open>\<^verbatim>\<open>list_del\<close> of a reverse-map entry: it leaves the list it is linked into.\<close>

definition unlink_mapped :: "pid \<Rightarrow> nat \<Rightarrow> 'a fm_scheme \<Rightarrow> 'a fm_scheme" where
  "unlink_mapped p i s =
     s\<lparr>fm_pve := (\<lambda>e. (fm_pve s e)\<lparr>pve_mapped := (\<lambda>c. removeAll (p, i) (pve_mapped (fm_pve s e) c))\<rparr>)\<rparr>"

definition log_flush :: "tlb_flush \<Rightarrow> 'a fm_scheme \<Rightarrow> 'a fm_scheme" where
  "log_flush f s = s\<lparr>fm_flush := fm_flush s @ [f]\<rparr>"

text \<open>The radix tree of page number \<open>i\<close> is \<^verbatim>\<open>rdx[i % num_online_cpus()]\<close>.\<close>

definition cpu_of_index :: "kernel \<Rightarrow> u64 \<Rightarrow> nat" where
  "cpu_of_index K i = unat i mod ncpus K"

definition radix_lookup :: "kernel \<Rightarrow> 'a fm_scheme \<Rightarrow> nat \<Rightarrow> u64 \<Rightarrow> pid option" where
  "radix_lookup K s d i = pvd_rdx (fm_pvd s d) (cpu_of_index K i) i"

definition radix_delete :: "kernel \<Rightarrow> nat \<Rightarrow> u64 \<Rightarrow> 'a fm_scheme \<Rightarrow> 'a fm_scheme" where
  "radix_delete K d i s =
     upd_pvd d (\<lambda>v. v\<lparr>pvd_rdx := (pvd_rdx v)(cpu_of_index K i := (pvd_rdx v (cpu_of_index K i))(i := None))\<rparr>) s"

definition radix_insert :: "kernel \<Rightarrow> nat \<Rightarrow> u64 \<Rightarrow> pid \<Rightarrow> 'a fm_scheme \<Rightarrow> int \<times> 'a fm_scheme" where
  "radix_insert K d i p s =
     (if radix_lookup K s d i \<noteq> None then (- EEXIST, s)
      else (0, upd_pvd d (\<lambda>v. v\<lparr>pvd_rdx := (pvd_rdx v)(cpu_of_index K i :=
                 (pvd_rdx v (cpu_of_index K i))(i := Some p))\<rparr>) s))"

end
