(* ===== verification/Mappings.thy ===== *)
theory Mappings
  imports Fm_State
begin

text \<open>
  Reverse mappings: \<^verbatim>\<open>helpers.c\<close> and the functions of \<^verbatim>\<open>mmap_generational_fifo_buffer.c\<close> that take a
  page out of the page tables (\<^verbatim>\<open>remove_mappings\<close>, the loop of \<^verbatim>\<open>drain_page\<close>) or make its mappings
  read-only (\<^verbatim>\<open>clear_mappings\<close>), with the batched TLB flushes of the evictor.
\<close>

section \<open>Taking one mapping out of a page table\<close>

definition zap_page_from_address_space ::
  "kernel \<Rightarrow> u64 \<Rightarrow> u64 \<Rightarrow> pid \<Rightarrow> bool \<Rightarrow> fm \<Rightarrow> fm" where
  "zap_page_from_address_space K vma address p flush_tlb s =
     (let mm = vma_mm (fm_vma s vma) in
      case k_walk K (fm_pte s) mm address p of
        None \<Rightarrow> s
      | Some pteval \<Rightarrow>
          (let s = s\<lparr>fm_pte := (fm_pte s)((mm, address) := None)\<rparr>;
               s = (if pte_dirty pteval then upd_page p (tp_set_pg_dirty True) s else s);
               s = s\<lparr>fm_rss := (fm_rss s)(mm := fm_rss s mm - 1)\<rparr>
           in if flush_tlb then log_flush (Flush_page mm address) s else s))"

definition clear_fifo_entry :: "kernel \<Rightarrow> pid \<Rightarrow> nat \<Rightarrow> bool \<Rightarrow> fm \<Rightarrow> fm" where
  "clear_fifo_entry K p i flush_tlb s =
     zap_page_from_address_space K (pvr_get_vma (rmap_of s p i)) (pvr_get_vaddr (rmap_of s p i)) p
       flush_tlb s"

text \<open>\<^verbatim>\<open>VM_LOCKED\<close> is \<^verbatim>\<open>0x2000\<close> and \<^verbatim>\<open>VM_SPECIAL\<close> is \<^verbatim>\<open>VM_IO | VM_DONTEXPAND | VM_PFNMAP | VM_MIXEDMAP\<close>.\<close>

definition VM_LOCKED :: u64 where "VM_LOCKED = 0x2000"
definition VM_SPECIAL :: u64 where "VM_SPECIAL = 0x10044400"

definition is_mlocked_vma :: "vm_area \<Rightarrow> int" where
  "is_mlocked_vma vma = (if (vma_flags vma AND (VM_LOCKED OR VM_SPECIAL)) \<noteq> VM_LOCKED then 0 else 1)"

definition is_page_pinned :: "tagged_page \<Rightarrow> bool" where
  "is_page_pinned tp = (locked_tp tp \<or> pg_locked (tp_page tp))"

section \<open>The evictor's TLB ranges\<close>

text \<open>\<^verbatim>\<open>struct evictor_tlb\<close>: the union holds a VMA or an address space, NULL being 0.\<close>

record evictor_tlb =
  et_ptr :: u64
  et_start :: u64
  et_end :: u64

definition etlb_init :: "evictor_tlb list" where
  "etlb_init = replicate ETLB_ENTRIES \<lparr>et_ptr = 0, et_start = 0, et_end = UINT_MAX\<rparr>"

text \<open>The loop over \<^verbatim>\<open>etlb[k]\<close>: the position of \<open>key\<close>, where the loop stops, and the first empty slot seen.\<close>

fun etlb_scan :: "u64 \<Rightarrow> evictor_tlb list \<Rightarrow> nat \<Rightarrow> nat option \<Rightarrow> nat option \<times> nat option" where
  "etlb_scan key [] k slot = (None, slot)"
| "etlb_scan key (e # es) k slot =
     (if et_ptr e = key then (Some k, slot)
      else etlb_scan key es (k + 1) (if et_ptr e = 0 \<and> slot = None then Some k else slot))"

text \<open>With no slot left the code writes \<^verbatim>\<open>etlb[-1]\<close>: that is \<open>None\<close>.\<close>

definition etlb_update :: "u64 \<Rightarrow> u64 \<Rightarrow> evictor_tlb list \<Rightarrow> evictor_tlb list option" where
  "etlb_update key vaddr etlb =
     (case etlb_scan key etlb 0 None of
        (Some k, _) \<Rightarrow>
          (let e = etlb ! k;
               e = (if vaddr > et_start e then e\<lparr>et_start := vaddr\<rparr> else e);
               e = (if vaddr < et_end e then e\<lparr>et_end := vaddr\<rparr> else e)
           in Some (etlb[k := e]))
      | (None, Some k) \<Rightarrow> Some (etlb[k := \<lparr>et_ptr = key, et_start = vaddr, et_end = vaddr\<rparr>])
      | (None, None) \<Rightarrow> None)"

definition note_etlb :: "u64 \<Rightarrow> u64 \<Rightarrow> evictor_tlb list \<times> fm \<Rightarrow> evictor_tlb list \<times> fm" where
  "note_etlb key vaddr = (\<lambda>(etlb, s).
     case etlb_update key vaddr etlb of
       None \<Rightarrow> (etlb, s\<lparr>fm_bug := True\<rparr>)
     | Some etlb' \<Rightarrow> (etlb', s))"

text \<open>The loop of flushes at the end; \<open>mm_of\<close> reads the address space from the key.\<close>

definition flush_etlb :: "(fm \<Rightarrow> u64 \<Rightarrow> u64) \<Rightarrow> evictor_tlb list \<Rightarrow> fm \<Rightarrow> fm" where
  "flush_etlb mm_of etlb s =
     fold (\<lambda>e s. if et_ptr e \<noteq> 0
                 then log_flush (Flush_range (mm_of s (et_ptr e)) (et_start e) (et_end e + PAGE_SIZE)) s
                 else s) etlb s"

section \<open>Write protection\<close>

definition wrprotect_pte :: "kernel \<Rightarrow> u64 \<Rightarrow> u64 \<Rightarrow> pid \<Rightarrow> fm \<Rightarrow> fm" where
  "wrprotect_pte K vma address p s =
     (let mm = vma_mm (fm_vma s vma) in
      case k_walk K (fm_pte s) mm address p of
        None \<Rightarrow> s
      | Some entry \<Rightarrow>
          s\<lparr>fm_pte := (fm_pte s)((mm, address) :=
              Some (entry\<lparr>pte_dirty := False, pte_young := True, pte_write := False\<rparr>))\<rparr>)"

text \<open>\<^verbatim>\<open>clear_mappings\<close>, whose array is NULL (\<open>None\<close>) or the evictor's, with VMAs as keys.\<close>

definition clear_mapping_at ::
  "kernel \<Rightarrow> pid \<Rightarrow> nat \<Rightarrow> evictor_tlb list option \<times> fm \<Rightarrow> evictor_tlb list option \<times> fm" where
  "clear_mapping_at K p i = (\<lambda>(etlb, s).
     let pvr = rmap_of s p i in
     if \<not> pvr_is_valid pvr then (etlb, s)
     else let vma = pvr_get_vma pvr;
              vaddr = pvr_get_vaddr pvr;
              s = wrprotect_pte K vma vaddr p s
          in case etlb of
               None \<Rightarrow> (None, log_flush (Flush_page (vma_mm (fm_vma s vma)) vaddr) s)
             | Some et \<Rightarrow> (let (et, s) = note_etlb vma vaddr (et, s) in (Some et, s)))"

definition clear_mappings ::
  "kernel \<Rightarrow> pid \<Rightarrow> evictor_tlb list option \<times> fm \<Rightarrow> evictor_tlb list option \<times> fm" where
  "clear_mappings K p = fold (clear_mapping_at K p) [0..<MAX_RMAPS_PER_PAGE]"

section \<open>Removal\<close>

definition remove_mapping_at ::
  "kernel \<Rightarrow> pid \<Rightarrow> nat \<Rightarrow> evictor_tlb list option \<times> fm \<Rightarrow> evictor_tlb list option \<times> fm" where
  "remove_mapping_at K p i = (\<lambda>(etlb, s).
     let pvr = rmap_of s p i in
     if \<not> pvr_is_valid pvr then (etlb, s)
     else let s = clear_fifo_entry K p i (etlb = None) s;
              (etlb, s) = (case etlb of
                  None \<Rightarrow> (None, s)
                | Some et \<Rightarrow> (let (et, s) = note_etlb (vma_mm (fm_vma s (pvr_get_vma pvr)))
                                              (pvr_get_vaddr pvr) (et, s)
                              in (Some et, s)));
              s = upd_rmap p i pvr_mk_invalid s
          in (etlb, unlink_mapped p i s))"

definition remove_mappings ::
  "kernel \<Rightarrow> pid \<Rightarrow> evictor_tlb list option \<times> fm \<Rightarrow> evictor_tlb list option \<times> fm" where
  "remove_mappings K p = fold (remove_mapping_at K p) [0..<MAX_RMAPS_PER_PAGE]"

text \<open>The loop over the reverse mappings in \<^verbatim>\<open>drain_page\<close>.\<close>

definition drain_mapping_at :: "kernel \<Rightarrow> pid \<Rightarrow> nat \<Rightarrow> fm \<Rightarrow> fm" where
  "drain_mapping_at K p i s =
     (if \<not> pvr_is_valid (rmap_of s p i) then s
      else let s = clear_fifo_entry K p i True s;
               s = upd_rmap p i pvr_mk_invalid s
           in unlink_mapped p i s)"

definition drain_mappings :: "kernel \<Rightarrow> pid \<Rightarrow> fm \<Rightarrow> fm" where
  "drain_mappings K p = fold (drain_mapping_at K p) [0..<MAX_RMAPS_PER_PAGE]"

section \<open>What removal does\<close>

lemma upd_rmap_simps [simp]:
  "pm_pages (upd_rmap p i f s) =
     (pm_pages s)(p := (pm_pages s p)\<lparr>tp_rmap := (tp_rmap (pm_pages s p))[i := f (rmap_of s p i)]\<rparr>)"
  "pm_fl (upd_rmap p i f s) = pm_fl s" "pm_total (upd_rmap p i f s) = pm_total s"
  "pm_numa_dv (upd_rmap p i f s) = pm_numa_dv s"
  by (simp_all add: upd_rmap_def rmap_of_def)

text \<open>
  \<open>upd_page\<close> and the other updates leave the fields of the extensions alone. The facts are stated for
  the selectors, so that the simplifier need not unfold the updates.
\<close>

lemma upd_page_fm [simp]:
  "fm_pvd (upd_page p f s) = fm_pvd s" "fm_pve (upd_page p f s) = fm_pve s"
  "fm_info (upd_page p f s) = fm_info s" "fm_vma (upd_page p f s) = fm_vma s"
  "fm_pte (upd_page p f s) = fm_pte s" "fm_rss (upd_page p f s) = fm_rss s"
  "fm_flush (upd_page p f s) = fm_flush s" "fm_disk (upd_page p f s) = fm_disk s"
  "fm_bug (upd_page p f s) = fm_bug s" "fm_rdd (upd_page p f s) = fm_rdd s"
  "fm_lower (upd_page p f s) = fm_lower s" "fm_isize (upd_page p f s) = fm_isize s"
  by (simp_all add: upd_page_def)

lemma upd_page_fb [simp]:
  "fb_primary (upd_page p f s) = fb_primary s" "fb_dirty (upd_page p f s) = fb_dirty s"
  "fb_size (upd_page p f s) = fb_size s" "fb_evictor_run (upd_page p f s) = fb_evictor_run s"
  "fb_active_evictors (upd_page p f s) = fb_active_evictors s"
  "fb_ld_params (upd_page p f s) = fb_ld_params s" "fb_rt_params (upd_page p f s) = fb_rt_params s"
  by (simp_all add: upd_page_def)

lemma upd_rmap_fm [simp]:
  "fm_pvd (upd_rmap p i f s) = fm_pvd s" "fm_pve (upd_rmap p i f s) = fm_pve s"
  "fm_info (upd_rmap p i f s) = fm_info s" "fm_vma (upd_rmap p i f s) = fm_vma s"
  "fm_pte (upd_rmap p i f s) = fm_pte s" "fm_rss (upd_rmap p i f s) = fm_rss s"
  "fm_flush (upd_rmap p i f s) = fm_flush s" "fm_disk (upd_rmap p i f s) = fm_disk s"
  "fm_bug (upd_rmap p i f s) = fm_bug s" "fb_primary (upd_rmap p i f s) = fb_primary s"
  "fb_dirty (upd_rmap p i f s) = fb_dirty s" "fb_size (upd_rmap p i f s) = fb_size s"
  "fm_rdd (upd_rmap p i f s) = fm_rdd s" "fm_lower (upd_rmap p i f s) = fm_lower s"
  "fm_isize (upd_rmap p i f s) = fm_isize s"
  by (simp_all add: upd_rmap_def)

text \<open>The key under which a reverse-map entry finds its page-table entry.\<close>

definition rmap_key :: "fm \<Rightarrow> pid \<Rightarrow> nat \<Rightarrow> u64 \<times> u64" where
  "rmap_key s p i = (vma_mm (fm_vma s (pvr_get_vma (rmap_of s p i))), pvr_get_vaddr (rmap_of s p i))"

definition maps_page :: "ptes \<Rightarrow> pid \<Rightarrow> u64 \<times> u64 \<Rightarrow> bool" where
  "maps_page m p k \<longleftrightarrow> (\<exists>e. m k = Some e \<and> pte_frame e = p)"

text \<open>
  The reverse mappings of a page are complete when every page-table entry that maps it is recorded
  in a valid entry of its \<^verbatim>\<open>rmap\<close> array.
\<close>

definition rmap_complete :: "fm \<Rightarrow> pid \<Rightarrow> bool" where
  "rmap_complete s p \<longleftrightarrow> length (tp_rmap (pm_pages s p)) = MAX_RMAPS_PER_PAGE \<and>
     (\<forall>k. maps_page (fm_pte s) p k \<longrightarrow>
        (\<exists>i<MAX_RMAPS_PER_PAGE. pvr_is_valid (rmap_of s p i) \<and> rmap_key s p i = k))"

text \<open>
  The effect of removing the mappings with positions in \<open>I\<close>, on the page tables, on the page, on the
  lists of the mapped regions and on the rest of the state; TLB requests, memory counters and the
  bug flag are left open.
\<close>

abbreviation live :: "nat set \<Rightarrow> fm \<Rightarrow> pid \<Rightarrow> nat \<Rightarrow> bool" where
  "live I s p i \<equiv> i \<in> I \<and> pvr_is_valid (rmap_of s p i)"

definition unmap_pte :: "pid \<Rightarrow> nat set \<Rightarrow> fm \<Rightarrow> fm \<Rightarrow> bool" where
  "unmap_pte p I s s' \<longleftrightarrow> (\<forall>k. fm_pte s' k =
     (if maps_page (fm_pte s) p k \<and> (\<exists>i. live I s p i \<and> rmap_key s p i = k) then None else fm_pte s k))"

definition unmap_rmap :: "pid \<Rightarrow> nat set \<Rightarrow> fm \<Rightarrow> fm \<Rightarrow> bool" where
  "unmap_rmap p I s s' \<longleftrightarrow> (\<forall>i<length (tp_rmap (pm_pages s p)). rmap_of s' p i =
     (if live I s p i then pvr_mk_invalid (rmap_of s p i) else rmap_of s p i))"

definition unmap_page :: "pid \<Rightarrow> nat set \<Rightarrow> fm \<Rightarrow> fm \<Rightarrow> bool" where
  "unmap_page p I s s' \<longleftrightarrow>
     (\<exists>r b. pm_pages s' = (pm_pages s)(p := (tp_set_pg_dirty b (pm_pages s p))\<lparr>tp_rmap := r\<rparr>) \<and>
        length r = length (tp_rmap (pm_pages s p)) \<and>
        (b \<longleftrightarrow> pg_dirty (tp_page (pm_pages s p)) \<or> (\<exists>i e. live I s p i \<and>
           fm_pte s (rmap_key s p i) = Some e \<and> pte_frame e = p \<and> pte_dirty e)))"

definition unmap_lists :: "pid \<Rightarrow> nat set \<Rightarrow> fm \<Rightarrow> fm \<Rightarrow> bool" where
  "unmap_lists p I s s' \<longleftrightarrow> (\<forall>e. fm_pve s' e = (fm_pve s e)\<lparr>pve_mapped := (\<lambda>c.
     filter (\<lambda>(q, i). \<not> (q = p \<and> live I s p i)) (pve_mapped (fm_pve s e) c))\<rparr>)"

definition unmap_frame :: "fm \<Rightarrow> fm \<Rightarrow> bool" where
  "unmap_frame s s' \<longleftrightarrow> pm_total s' = pm_total s \<and> pm_fl s' = pm_fl s \<and> pm_numa_dv s' = pm_numa_dv s \<and>
     fb_primary s' = fb_primary s \<and> fb_dirty s' = fb_dirty s \<and> fb_size s' = fb_size s \<and>
     fb_ld_params s' = fb_ld_params s \<and> fb_rt_params s' = fb_rt_params s \<and>
     fb_evictor_run s' = fb_evictor_run s \<and> fb_active_evictors s' = fb_active_evictors s \<and>
     fm_pvd s' = fm_pvd s \<and> fm_info s' = fm_info s \<and> fm_vma s' = fm_vma s \<and> fm_disk s' = fm_disk s \<and>
     fm_rdd s' = fm_rdd s \<and> fm_lower s' = fm_lower s \<and> fm_isize s' = fm_isize s"

lemmas unmap_defs = unmap_pte_def unmap_rmap_def unmap_page_def unmap_lists_def unmap_frame_def

definition unmap_effect :: "pid \<Rightarrow> nat set \<Rightarrow> fm \<Rightarrow> fm \<Rightarrow> bool" where
  "unmap_effect p I s s' \<longleftrightarrow> unmap_pte p I s s' \<and> unmap_rmap p I s s' \<and> unmap_page p I s s' \<and>
     unmap_lists p I s s' \<and> unmap_frame s s'"

lemma tp_set_pg_dirty_same [simp]: "tp_set_pg_dirty (pg_dirty (tp_page t)) t = t"
  by (simp add: tp_set_defs)

lemma unmap_effect_none: "\<forall>i. \<not> live I s p i \<Longrightarrow> unmap_effect p I s s"
proof -
  assume no: "\<forall>i. \<not> live I s p i"
  then have "unmap_page p I s s" unfolding unmap_page_def
    by (intro exI [of _ "tp_rmap (pm_pages s p)"] exI [of _ "pg_dirty (tp_page (pm_pages s p))"]) auto
  with no show ?thesis by (auto simp: unmap_effect_def unmap_pte_def unmap_rmap_def unmap_lists_def unmap_frame_def)
qed

lemma option_eq_by_Some: "(\<And>e. x = Some e \<longleftrightarrow> y = Some e) \<Longrightarrow> x = y"
  by (metis option.exhaust)

lemma zap_page_simps [simp]:
  assumes "walk_ok K"
  shows "fm_pte (zap_page_from_address_space K vma a p f s) = (\<lambda>k.
      if k = (vma_mm (fm_vma s vma), a) \<and> maps_page (fm_pte s) p k then None else fm_pte s k)"
    and "pm_pages (zap_page_from_address_space K vma a p f s) = (pm_pages s)(p := tp_set_pg_dirty
      (pg_dirty (tp_page (pm_pages s p)) \<or> (\<exists>e. fm_pte s (vma_mm (fm_vma s vma), a) = Some e \<and>
        pte_frame e = p \<and> pte_dirty e)) (pm_pages s p))"
    and "fm_pve (zap_page_from_address_space K vma a p f s) = fm_pve s"
    and "unmap_frame s (zap_page_from_address_space K vma a p f s)"
proof -
  let ?mm = "vma_mm (fm_vma s vma)"
  have w: "k_walk K (fm_pte s) ?mm a p = (case fm_pte s (?mm, a) of None \<Rightarrow> None
      | Some e \<Rightarrow> if pte_frame e = p then Some e else None)"
    using assms by (intro option_eq_by_Some) (auto simp: walk_ok_def split: option.splits)
  note d = zap_page_from_address_space_def Let_def w maps_page_def log_flush_def
  show "fm_pte (zap_page_from_address_space K vma a p f s) = (\<lambda>k.
      if k = (?mm, a) \<and> maps_page (fm_pte s) p k then None else fm_pte s k)"
    by (auto simp: d fun_eq_iff split: option.splits)
  show "pm_pages (zap_page_from_address_space K vma a p f s) = (pm_pages s)(p := tp_set_pg_dirty
      (pg_dirty (tp_page (pm_pages s p)) \<or> (\<exists>e. fm_pte s (?mm, a) = Some e \<and>
        pte_frame e = p \<and> pte_dirty e)) (pm_pages s p))"
    by (auto simp: d split: option.splits)
  show "fm_pve (zap_page_from_address_space K vma a p f s) = fm_pve s"
    by (auto simp: d split: option.splits)
  show "unmap_frame s (zap_page_from_address_space K vma a p f s)"
    by (auto simp: d unmap_frame_def split: option.splits)
qed

lemma pvr_mk_invalid_simps [simp]:
  "\<not> pvr_is_valid (pvr_mk_invalid r)" "pvr_get_vma (pvr_mk_invalid r) = pvr_get_vma r"
  "pvr_get_vaddr (pvr_mk_invalid r) = pvr_get_vaddr r" "pvr_get_cpu (pvr_mk_invalid r) = pvr_get_cpu r"
  by (simp_all add: fm_simps pvr_abs_mk)

lemma drain_mapping_at_effect:
  assumes "walk_ok K" and "i < length (tp_rmap (pm_pages s p))"
  shows "unmap_effect p {i} s (drain_mapping_at K p i s)"
proof (cases "pvr_is_valid (rmap_of s p i)")
  case False
  then show ?thesis by (auto simp: drain_mapping_at_def intro: unmap_effect_none)
next
  case True
  let ?s1 = "clear_fifo_entry K p i True s"
  let ?s2 = "upd_rmap p i pvr_mk_invalid ?s1"
  have s': "drain_mapping_at K p i s = unlink_mapped p i ?s2"
    using True by (simp add: drain_mapping_at_def)
  have key: "rmap_key s p i = (vma_mm (fm_vma s (pvr_get_vma (rmap_of s p i))), pvr_get_vaddr (rmap_of s p i))"
    by (simp add: rmap_key_def)
  note z = zap_page_simps [OF assms(1)]
  have "unmap_pte p {i} s (unlink_mapped p i ?s2)"
    using True by (auto simp: unmap_pte_def unlink_mapped_def clear_fifo_entry_def z key)
  moreover have "unmap_rmap p {i} s (unlink_mapped p i ?s2)"
    using True assms(2)
    by (auto simp: unmap_rmap_def unlink_mapped_def clear_fifo_entry_def z rmap_of_def nth_list_update)
  moreover have "unmap_page p {i} s (unlink_mapped p i ?s2)"
    unfolding unmap_page_def
    by (rule exI [of _ "(tp_rmap (pm_pages s p))[i := pvr_mk_invalid (rmap_of s p i)]"], rule exI)
      (use True in \<open>auto simp: unlink_mapped_def clear_fifo_entry_def z key rmap_of_def\<close>)
  moreover have "unmap_lists p {i} s (unlink_mapped p i ?s2)"
  proof -
    have "removeAll (p, i) xs = filter (\<lambda>(q, j). \<not> (q = p \<and> live {i} s p j)) xs" for xs
      unfolding removeAll_filter_not_eq by (rule filter_cong) (use True in auto)
    then show ?thesis by (simp add: unmap_lists_def unlink_mapped_def clear_fifo_entry_def z)
  qed
  moreover have "unmap_frame s (unlink_mapped p i ?s2)"
    using z(4) [of s "pvr_get_vma (rmap_of s p i)" "pvr_get_vaddr (rmap_of s p i)" p True]
    by (auto simp: unmap_frame_def unlink_mapped_def clear_fifo_entry_def upd_rmap_def upd_page_def)
  ultimately show ?thesis by (simp add: s' unmap_effect_def)
qed

lemma unmap_pte_trans:
  assumes "unmap_pte p I s s1" and "unmap_pte p {i} s1 s2"
    and ri: "rmap_of s1 p i = rmap_of s p i" and key: "rmap_key s1 p i = rmap_key s p i"
  shows "unmap_pte p (insert i I) s s2"
  unfolding unmap_pte_def
proof
  fix k
  have pte1: "fm_pte s1 k = (if maps_page (fm_pte s) p k \<and> (\<exists>i. live I s p i \<and> rmap_key s p i = k) then None else fm_pte s k)"
    using assms(1) unfolding unmap_pte_def by blast
  have mp: "maps_page (fm_pte s1) p k \<longleftrightarrow> maps_page (fm_pte s) p k \<and> \<not> (\<exists>i. live I s p i \<and> rmap_key s p i = k)"
    unfolding maps_page_def pte1 by auto
  have "fm_pte s2 k = (if maps_page (fm_pte s1) p k \<and> (\<exists>j. live {i} s1 p j \<and> rmap_key s1 p j = k)
      then None else fm_pte s1 k)"
    using assms(2) unfolding unmap_pte_def by blast
  then have "fm_pte s2 k = (if maps_page (fm_pte s1) p k \<and> pvr_is_valid (rmap_of s p i) \<and> rmap_key s p i = k
      then None else fm_pte s1 k)"
    using ri key by simp
  then show "fm_pte s2 k = (if maps_page (fm_pte s) p k \<and> (\<exists>j. live (insert i I) s p j \<and> rmap_key s p j = k)
      then None else fm_pte s k)"
    unfolding mp pte1 by (auto split: if_split_asm)
qed

lemma unmap_page_trans:
  assumes "unmap_page p I s s1" and "unmap_page p {i} s1 s2" and "unmap_pte p I s s1"
    and ri: "rmap_of s1 p i = rmap_of s p i" and key: "rmap_key s1 p i = rmap_key s p i"
  shows "unmap_page p (insert i I) s s2"
proof -
  let ?P = "\<lambda>k. \<exists>e. fm_pte s k = Some e \<and> pte_frame e = p \<and> pte_dirty e"
  let ?k = "rmap_key s p i"
  obtain r b where 1: "pm_pages s1 = (pm_pages s)(p := (tp_set_pg_dirty b (pm_pages s p))\<lparr>tp_rmap := r\<rparr>)"
    "length r = length (tp_rmap (pm_pages s p))"
    "b \<longleftrightarrow> pg_dirty (tp_page (pm_pages s p)) \<or> (\<exists>i. live I s p i \<and> ?P (rmap_key s p i))"
    using assms(1) by (auto simp: unmap_page_def)
  obtain r' b' where 2: "pm_pages s2 = (pm_pages s1)(p := (tp_set_pg_dirty b' (pm_pages s1 p))\<lparr>tp_rmap := r'\<rparr>)"
    "length r' = length (tp_rmap (pm_pages s1 p))"
    "b' \<longleftrightarrow> pg_dirty (tp_page (pm_pages s1 p)) \<or> pvr_is_valid (rmap_of s p i) \<and>
       (\<exists>e. fm_pte s1 ?k = Some e \<and> pte_frame e = p \<and> pte_dirty e)"
    using assms(2) ri key by (auto simp: unmap_page_def)
  have pg: "pm_pages s2 = (pm_pages s)(p := (tp_set_pg_dirty b' (pm_pages s p))\<lparr>tp_rmap := r'\<rparr>)"
    unfolding 2(1) 1(1) by (simp add: tp_set_defs)
  have pk: "(\<exists>e. fm_pte s1 ?k = Some e \<and> pte_frame e = p \<and> pte_dirty e) \<longleftrightarrow>
      ?P ?k \<and> \<not> (\<exists>j. live I s p j \<and> rmap_key s p j = ?k)"
  proof -
    have "fm_pte s1 ?k = (if maps_page (fm_pte s) p ?k \<and> (\<exists>j. live I s p j \<and> rmap_key s p j = ?k)
        then None else fm_pte s ?k)"
      using assms(3) unfolding unmap_pte_def by blast
    then show ?thesis unfolding maps_page_def by auto
  qed
  have "pg_dirty (tp_page (pm_pages s1 p)) = b" using 1(1) by simp
  then have "b' \<longleftrightarrow> pg_dirty (tp_page (pm_pages s p)) \<or> (\<exists>j. live (insert i I) s p j \<and> ?P (rmap_key s p j))"
    using 2(3) 1(3) pk by (metis insert_iff)
  with pg have "pm_pages s2 = (pm_pages s)(p := (tp_set_pg_dirty b' (pm_pages s p))\<lparr>tp_rmap := r'\<rparr>) \<and>
      (b' \<longleftrightarrow> pg_dirty (tp_page (pm_pages s p)) \<or> (\<exists>j. live (insert i I) s p j \<and> ?P (rmap_key s p j)))" by simp
  then show ?thesis
    using 1(1,2) 2(2) unfolding unmap_page_def by (intro exI [of _ r'] exI [of _ b']) auto
qed

lemma unmap_effect_trans:
  assumes "unmap_effect p I s s1" and "unmap_effect p {i} s1 s2" and "i \<notin> I"
    and "i < length (tp_rmap (pm_pages s p))"
  shows "unmap_effect p (insert i I) s s2"
proof -
  have len: "length (tp_rmap (pm_pages s1 p)) = length (tp_rmap (pm_pages s p))"
    using assms(1) by (auto simp: unmap_effect_def unmap_page_def)
  have ri: "rmap_of s1 p i = rmap_of s p i"
    using assms(1,3,4) by (simp add: unmap_effect_def unmap_rmap_def)
  then have key: "rmap_key s1 p i = rmap_key s p i"
    using assms(1) by (simp add: rmap_key_def unmap_effect_def unmap_frame_def)
  have "unmap_rmap p (insert i I) s s2"
    using assms(1,2,3) len by (auto simp: unmap_effect_def unmap_rmap_def)
  moreover have "unmap_lists p (insert i I) s s2"
  proof -
    have "filter (\<lambda>(q, j). \<not> (q = p \<and> live {i} s1 p j)) (filter (\<lambda>(q, j). \<not> (q = p \<and> live I s p j)) xs)
        = filter (\<lambda>(q, j). \<not> (q = p \<and> live (insert i I) s p j)) xs" for xs
      unfolding filter_filter by (rule filter_cong) (use ri in auto)
    then show ?thesis
      using assms(1,2) by (simp add: unmap_effect_def unmap_lists_def)
  qed
  moreover have "unmap_frame s s2" using assms(1,2) by (simp add: unmap_effect_def unmap_frame_def)
  moreover have "unmap_pte p (insert i I) s s2" "unmap_page p (insert i I) s s2"
    using assms(1,2) ri key unmap_pte_trans unmap_page_trans unfolding unmap_effect_def by blast+
  ultimately show ?thesis by (simp add: unmap_effect_def)
qed

lemma drain_mappings_effect_upto:
  assumes "walk_ok K" and "n \<le> length (tp_rmap (pm_pages s p))"
  shows "unmap_effect p {..<n} s (fold (drain_mapping_at K p) [0..<n] s)"
  using assms(2)
proof (induction n)
  case 0
  then show ?case by (auto intro: unmap_effect_none)
next
  case (Suc n)
  let ?s1 = "fold (drain_mapping_at K p) [0..<n] s"
  have IH: "unmap_effect p {..<n} s ?s1" using Suc by simp
  then have "length (tp_rmap (pm_pages ?s1 p)) = length (tp_rmap (pm_pages s p))"
    by (auto simp: unmap_effect_def unmap_page_def)
  then have "unmap_effect p {n} ?s1 (drain_mapping_at K p n ?s1)"
    using drain_mapping_at_effect [OF assms(1), of n ?s1 p] Suc.prems by simp
  from unmap_effect_trans [OF IH this] Suc.prems show ?case by (simp add: lessThan_Suc)
qed

lemma drain_mappings_effect:
  assumes "walk_ok K" and "length (tp_rmap (pm_pages s p)) = MAX_RMAPS_PER_PAGE"
  shows "unmap_effect p {..<MAX_RMAPS_PER_PAGE} s (drain_mappings K p s)"
  using drain_mappings_effect_upto [OF assms(1), of MAX_RMAPS_PER_PAGE s p] assms(2)
  by (simp add: drain_mappings_def)

text \<open>
  \<^verbatim>\<open>remove_mappings\<close> does to the state what the loop of \<^verbatim>\<open>drain_page\<close> does, up to the TLB requests.
\<close>

definition no_tlb :: "fm \<Rightarrow> fm" where
  "no_tlb s = s\<lparr>fm_flush := [], fm_bug := False\<rparr>"

lemma no_tlb_zap:
  "no_tlb (zap_page_from_address_space K v a p f s) = zap_page_from_address_space K v a p False (no_tlb s)"
  by (auto simp: zap_page_from_address_space_def no_tlb_def log_flush_def upd_page_def Let_def
      split: option.splits)

lemma no_tlb_simps [simp]:
  "rmap_of (no_tlb s) p i = rmap_of s p i" "no_tlb (no_tlb s) = no_tlb s"
  "no_tlb (upd_rmap p i f s) = upd_rmap p i f (no_tlb s)"
  "no_tlb (unlink_mapped p i s) = unlink_mapped p i (no_tlb s)"
  "no_tlb (s\<lparr>fm_bug := b\<rparr>) = no_tlb s"
  by (simp_all add: no_tlb_def rmap_of_def upd_rmap_def upd_page_def unlink_mapped_def)

lemma no_tlb_note_etlb: "note_etlb key a (et, s) = (et', s') \<Longrightarrow> no_tlb s' = no_tlb s"
  by (auto simp: note_etlb_def split: option.splits)

lemma no_tlb_drain_at [simp]: "no_tlb (drain_mapping_at K p i (no_tlb s)) = no_tlb (drain_mapping_at K p i s)"
  by (simp add: drain_mapping_at_def clear_fifo_entry_def no_tlb_zap Let_def)

lemma no_tlb_remove_at:
  "no_tlb (snd (remove_mapping_at K p i (et, s))) = no_tlb (drain_mapping_at K p i s)"
  by (cases et) (auto simp: remove_mapping_at_def drain_mapping_at_def clear_fifo_entry_def no_tlb_zap
      Let_def dest: no_tlb_note_etlb split: prod.splits)

lemma no_tlb_drain_fold_cong:
  "no_tlb s1 = no_tlb s2 \<Longrightarrow>
   no_tlb (fold (drain_mapping_at K p) is s1) = no_tlb (fold (drain_mapping_at K p) is s2)"
proof (induction "is" arbitrary: s1 s2)
  case (Cons i "is")
  have "no_tlb (drain_mapping_at K p i s1) = no_tlb (drain_mapping_at K p i s2)"
    using no_tlb_drain_at [of K p i s1] no_tlb_drain_at [of K p i s2] Cons.prems by (simp only:)
  from Cons.IH [OF this] show ?case by (simp only: fold_simps)
qed simp

lemma no_tlb_remove_fold:
  "no_tlb (snd (fold (remove_mapping_at K p) is (et, s))) = no_tlb (fold (drain_mapping_at K p) is s)"
proof (induction "is" arbitrary: et s)
  case (Cons i "is")
  obtain et1 s1 where r: "remove_mapping_at K p i (et, s) = (et1, s1)" by fastforce
  then have "no_tlb s1 = no_tlb (drain_mapping_at K p i s)"
    using no_tlb_remove_at [of K p i et s] by simp
  from no_tlb_drain_fold_cong [OF this] Cons.IH [of et1 s1] r show ?case
    by (simp only: fold_simps snd_conv)
qed simp

lemma unmap_effect_no_tlb: "unmap_effect p I s (no_tlb s') = unmap_effect p I s s'"
  by (simp add: unmap_effect_def unmap_defs no_tlb_def rmap_of_def)

lemma remove_mappings_effect:
  assumes "walk_ok K" and "length (tp_rmap (pm_pages s p)) = MAX_RMAPS_PER_PAGE"
  shows "unmap_effect p {..<MAX_RMAPS_PER_PAGE} s (snd (remove_mappings K p (et, s)))"
  using drain_mappings_effect [OF assms] no_tlb_remove_fold [of K p "[0..<MAX_RMAPS_PER_PAGE]" et s]
  by (metis drain_mappings_def remove_mappings_def unmap_effect_no_tlb)

lemma unmap_complete_pte:
  assumes "unmap_effect p {..<MAX_RMAPS_PER_PAGE} s s'" and "rmap_complete s p"
  shows "fm_pte s' k = (if maps_page (fm_pte s) p k then None else fm_pte s k)"
  using assms unfolding unmap_effect_def unmap_pte_def rmap_complete_def by (metis lessThan_iff)

text \<open>
  C18. When the reverse mappings of a page are complete, \<^verbatim>\<open>remove_mappings\<close> leaves no page-table entry
  that maps it and no valid reverse mapping, takes its entries off the lists of the mapped regions,
  turns a dirty bit of a removed entry into the dirty flag of the page, and leaves all other mappings
  and all other pages alone. It does not depend on the TLB array.
\<close>

theorem remove_mappings_unmaps:
  assumes "walk_ok K" and "rmap_complete s p" and "remove_mappings K p (et, s) = (et', s')"
  shows "(\<forall>k. fm_pte s' k = (if maps_page (fm_pte s) p k then None else fm_pte s k)) \<and>
    (\<forall>i<MAX_RMAPS_PER_PAGE. \<not> pvr_is_valid (rmap_of s' p i)) \<and>
    (\<forall>e c i. i < MAX_RMAPS_PER_PAGE \<and> pvr_is_valid (rmap_of s p i) \<longrightarrow> (p, i) \<notin> set (pve_mapped (fm_pve s' e) c)) \<and>
    ((\<exists>k e. fm_pte s k = Some e \<and> pte_frame e = p \<and> pte_dirty e) \<longrightarrow> pg_dirty (tp_page (pm_pages s' p))) \<and>
    (\<forall>q. q \<noteq> p \<longrightarrow> pm_pages s' q = pm_pages s q)"
proof -
  have len: "length (tp_rmap (pm_pages s p)) = MAX_RMAPS_PER_PAGE"
    and cov: "\<And>k. maps_page (fm_pte s) p k \<Longrightarrow> \<exists>i. live {..<MAX_RMAPS_PER_PAGE} s p i \<and> rmap_key s p i = k"
    using assms(2) by (auto simp: rmap_complete_def)
  have eff: "unmap_effect p {..<MAX_RMAPS_PER_PAGE} s s'"
    using remove_mappings_effect [OF assms(1) len, of et] assms(3) by simp
  note unmap_complete_pte [OF eff assms(2)]
  moreover have "\<not> pvr_is_valid (rmap_of s' p i)" if "i < MAX_RMAPS_PER_PAGE" for i
    using eff len that by (simp add: unmap_effect_def unmap_rmap_def)
  moreover have "(p, i) \<notin> set (pve_mapped (fm_pve s' e) c)"
    if "i < MAX_RMAPS_PER_PAGE" "pvr_is_valid (rmap_of s p i)" for e c i
    using eff that by (simp add: unmap_effect_def unmap_lists_def)
  moreover have "pg_dirty (tp_page (pm_pages s' p))"
    if "fm_pte s k = Some e" "pte_frame e = p" "pte_dirty e" for k e
    using eff cov [of k] that unfolding unmap_effect_def unmap_page_def maps_page_def by fastforce
  moreover have "pm_pages s' q = pm_pages s q" if "q \<noteq> p" for q
    using eff that by (auto simp: unmap_effect_def unmap_page_def)
  ultimately show ?thesis by blast
qed

section \<open>What write protection does\<close>

definition protect_pte :: "pte \<Rightarrow> pte" where
  "protect_pte e = e\<lparr>pte_dirty := False, pte_young := True, pte_write := False\<rparr>"

definition protect_map :: "fm \<Rightarrow> pid \<Rightarrow> nat set \<Rightarrow> ptes" where
  "protect_map s p I = (\<lambda>k. if maps_page (fm_pte s) p k \<and> (\<exists>i. live I s p i \<and> rmap_key s p i = k)
     then map_option protect_pte (fm_pte s k) else fm_pte s k)"

lemma protect_pte_simps [simp]: "pte_frame (protect_pte e) = pte_frame e" "protect_pte (protect_pte e) = protect_pte e"
  "\<not> pte_write (protect_pte e)" "\<not> pte_dirty (protect_pte e)"
  by (simp_all add: protect_pte_def)

lemma wrprotect_pte_eq:
  assumes "walk_ok K"
  shows "wrprotect_pte K v a p s = s\<lparr>fm_pte := (\<lambda>k. if k = (vma_mm (fm_vma s v), a) \<and> maps_page (fm_pte s) p k
    then map_option protect_pte (fm_pte s k) else fm_pte s k)\<rparr>"
proof -
  let ?k = "(vma_mm (fm_vma s v), a)"
  show ?thesis
  proof (cases "k_walk K (fm_pte s) (fst ?k) (snd ?k) p")
    case None
    then have "\<not> maps_page (fm_pte s) p ?k"
      using assms unfolding walk_ok_def maps_page_def by (metis fst_conv option.distinct(1) snd_conv)
    then have "(\<lambda>k. if k = ?k \<and> maps_page (fm_pte s) p k then map_option protect_pte (fm_pte s k) else fm_pte s k) = fm_pte s"
      by auto
    with None show ?thesis by (simp add: wrprotect_pte_def)
  next
    case (Some e)
    then have "fm_pte s ?k = Some e" "pte_frame e = p"
      using assms by (auto simp: walk_ok_def)
    then have "(\<lambda>k. if k = ?k \<and> maps_page (fm_pte s) p k then map_option protect_pte (fm_pte s k) else fm_pte s k)
        = (fm_pte s)(?k := Some (protect_pte e))"
      by (auto simp: fun_eq_iff maps_page_def)
    with Some show ?thesis by (simp add: wrprotect_pte_def protect_pte_def)
  qed
qed

lemma clear_mapping_at_effect:
  assumes "walk_ok K"
  shows "\<exists>fl b. snd (clear_mapping_at K p i (et, s)) = s\<lparr>fm_pte := protect_map s p {i}, fm_flush := fl, fm_bug := b\<rparr>"
proof (cases "pvr_is_valid (rmap_of s p i)")
  case False
  then have "protect_map s p {i} = fm_pte s" by (auto simp: protect_map_def)
  with False have "snd (clear_mapping_at K p i (et, s)) =
      s\<lparr>fm_pte := protect_map s p {i}, fm_flush := fm_flush s, fm_bug := fm_bug s\<rparr>"
    by (simp add: clear_mapping_at_def)
  then show ?thesis by blast
next
  case True
  let ?v = "pvr_get_vma (rmap_of s p i)" and ?a = "pvr_get_vaddr (rmap_of s p i)"
  let ?s1 = "s\<lparr>fm_pte := protect_map s p {i}\<rparr>"
  have w: "wrprotect_pte K ?v ?a p s = ?s1"
  proof -
    have "(\<lambda>k. if k = (vma_mm (fm_vma s ?v), ?a) \<and> maps_page (fm_pte s) p k
        then map_option protect_pte (fm_pte s k) else fm_pte s k) = protect_map s p {i}"
      using True by (auto simp: protect_map_def rmap_key_def)
    then show ?thesis by (simp add: wrprotect_pte_eq [OF assms])
  qed
  show ?thesis
  proof (cases et)
    case None
    then have "snd (clear_mapping_at K p i (et, s)) = log_flush (Flush_page (vma_mm (fm_vma s ?v)) ?a) ?s1"
      using True w by (simp add: clear_mapping_at_def Let_def)
    then have "snd (clear_mapping_at K p i (et, s)) = s\<lparr>fm_pte := protect_map s p {i},
        fm_flush := fm_flush s @ [Flush_page (vma_mm (fm_vma s ?v)) ?a], fm_bug := fm_bug s\<rparr>"
      by (simp add: log_flush_def)
    then show ?thesis by blast
  next
    case (Some e)
    then have eq: "snd (clear_mapping_at K p i (et, s)) = snd (note_etlb ?v ?a (e, ?s1))"
      using True w by (simp add: clear_mapping_at_def Let_def split: prod.splits)
    have "\<exists>b. snd (note_etlb ?v ?a (e, ?s1)) = s\<lparr>fm_pte := protect_map s p {i}, fm_flush := fm_flush s, fm_bug := b\<rparr>"
    proof (cases "etlb_update ?v ?a e")
      case None
      then have "snd (note_etlb ?v ?a (e, ?s1)) = s\<lparr>fm_pte := protect_map s p {i}, fm_flush := fm_flush s, fm_bug := True\<rparr>"
        by (simp add: note_etlb_def)
      then show ?thesis by blast
    next
      case (Some e')
      then have "snd (note_etlb ?v ?a (e, ?s1)) = s\<lparr>fm_pte := protect_map s p {i}, fm_flush := fm_flush s, fm_bug := fm_bug s\<rparr>"
        by (simp add: note_etlb_def)
      then show ?thesis by blast
    qed
    then show ?thesis unfolding eq by blast
  qed
qed

lemma clear_mappings_effect_upto:
  assumes "walk_ok K"
  shows "\<exists>fl b. snd (fold (clear_mapping_at K p) [0..<n] (et, s)) =
    s\<lparr>fm_pte := protect_map s p {..<n}, fm_flush := fl, fm_bug := b\<rparr>"
proof (induction n)
  case 0
  have "protect_map s p {} = fm_pte s" by (auto simp: protect_map_def)
  then have "s = s\<lparr>fm_pte := protect_map s p {}, fm_flush := fm_flush s, fm_bug := fm_bug s\<rparr>" by simp
  then show ?case by (simp, metis)
next
  case (Suc n)
  then obtain et1 fl b where IH: "fold (clear_mapping_at K p) [0..<n] (et, s) =
      (et1, s\<lparr>fm_pte := protect_map s p {..<n}, fm_flush := fl, fm_bug := b\<rparr>)"
    by (metis prod.collapse)
  let ?s1 = "s\<lparr>fm_pte := protect_map s p {..<n}, fm_flush := fl, fm_bug := b\<rparr>"
  have mp: "maps_page (protect_map s p I) p k = maps_page (fm_pte s) p k" for I k
    by (auto simp: maps_page_def protect_map_def)
  have rk: "rmap_of ?s1 p j = rmap_of s p j" "rmap_key ?s1 p j = rmap_key s p j" for j
    by (simp_all add: rmap_of_def rmap_key_def)
  have "protect_map ?s1 p {n} k = protect_map s p {..<Suc n} k" for k
  proof -
    have E: "(\<exists>i. live {..<Suc n} s p i \<and> rmap_key s p i = k) \<longleftrightarrow>
        (\<exists>i. live {..<n} s p i \<and> rmap_key s p i = k) \<or> pvr_is_valid (rmap_of s p n) \<and> rmap_key s p n = k"
      by (auto simp: less_Suc_eq)
    have I: "map_option protect_pte (map_option protect_pte x) = map_option protect_pte x" for x
      by (cases x) auto
    have L: "protect_map ?s1 p {n} k = (if maps_page (fm_pte s) p k \<and> pvr_is_valid (rmap_of s p n) \<and> rmap_key s p n = k
        then map_option protect_pte (protect_map s p {..<n} k) else protect_map s p {..<n} k)"
      by (simp add: protect_map_def [of ?s1] rk mp)
    show ?thesis unfolding L by (simp only: protect_map_def [of s] E) (auto simp: I)
  qed
  then have "protect_map ?s1 p {n} = protect_map s p {..<Suc n}" ..
  with clear_mapping_at_effect [OF assms, of p n et1 ?s1] show ?case by (auto simp: IH)
qed

lemma clear_mappings_effect:
  assumes "walk_ok K" and "rmap_complete s p" and "clear_mappings K p (et, s) = (et', s')"
  shows "(\<forall>k. fm_pte s' k = (if maps_page (fm_pte s) p k then map_option protect_pte (fm_pte s k) else fm_pte s k)) \<and>
    (\<forall>k e. fm_pte s' k = Some e \<and> pte_frame e = p \<longrightarrow> \<not> pte_write e \<and> \<not> pte_dirty e) \<and>
    s' = s\<lparr>fm_pte := fm_pte s', fm_flush := fm_flush s', fm_bug := fm_bug s'\<rparr>"
proof -
  obtain fl b where s': "s' = s\<lparr>fm_pte := protect_map s p {..<MAX_RMAPS_PER_PAGE}, fm_flush := fl, fm_bug := b\<rparr>"
    using clear_mappings_effect_upto [OF assms(1), of p MAX_RMAPS_PER_PAGE et s] assms(3)
    by (auto simp: clear_mappings_def)
  have "\<exists>i. live {..<MAX_RMAPS_PER_PAGE} s p i \<and> rmap_key s p i = k" if "maps_page (fm_pte s) p k" for k
    using assms(2) that unfolding rmap_complete_def by (metis lessThan_iff)
  then have pte: "fm_pte s' k = (if maps_page (fm_pte s) p k then map_option protect_pte (fm_pte s k) else fm_pte s k)" for k
    unfolding s' by (simp add: protect_map_def)
  moreover have "\<not> pte_write e \<and> \<not> pte_dirty e" if "fm_pte s' k = Some e" "pte_frame e = p" for k e
    using that pte [of k] by (auto simp: maps_page_def split: if_splits)
  moreover have "s' = s\<lparr>fm_pte := fm_pte s', fm_flush := fm_flush s', fm_bug := fm_bug s'\<rparr>"
    unfolding s' by simp
  ultimately show ?thesis by blast
qed

text \<open>
  C19. \<^verbatim>\<open>clear_mappings\<close> makes every mapping of a page read-only and clean when its reverse mappings are
  complete, keeps all other page-table entries, and changes nothing else but TLB requests: in
  particular the page stays mapped and its reverse mappings stay valid.
\<close>

theorem clear_mappings_protects:
  assumes "walk_ok K" and "rmap_complete s p" and "clear_mappings K p (et, s) = (et', s')"
  shows "(\<forall>k. fm_pte s' k = (if maps_page (fm_pte s) p k then map_option protect_pte (fm_pte s k) else fm_pte s k)) \<and>
    (\<forall>k e. fm_pte s' k = Some e \<and> pte_frame e = p \<longrightarrow> \<not> pte_write e \<and> \<not> pte_dirty e) \<and>
    s' = s\<lparr>fm_pte := fm_pte s', fm_flush := fm_flush s', fm_bug := fm_bug s'\<rparr>"
  using assms by (rule clear_mappings_effect)

section \<open>Examples\<close>

definition pvd_example :: pr_vma_data where
  "pvd_example = \<lparr>pvd_type = D_BLKD, pvd_dev_id = 1, pvd_ino = 0, pvd_cnt = 1, pvd_mmaped = 0, pvd_bk = Some 0,
     pvd_open_fds = [], pvd_dirty_tree = (\<lambda>c. Leaf), pvd_rdd = Some 0, pvd_is_readonly = True,
     pvd_is_mmap = False, pvd_is_valid = True, pvd_rdx = (\<lambda>c i. None), pvd_vma_count = 1,
     pvd_during_unlink = 0\<rparr>"

text \<open>
  A buffer of eight free pages on four CPUs, with the one device 0 mapped by the VMA \<open>0x40\<close> of the
  address space \<open>0x80\<close>.
\<close>

definition fm_example :: fm where
  "fm_example = \<lparr>
     pm_pages = (\<lambda>p. tp_example\<lparr>tp_rmap := map (\<lambda>i. reset_rmap i \<lparr>pvr_vaddr_word = 0, pvr_vma_word = 0\<rparr>) [0, 1, 2],
                  tp_page := page_NULL\<lparr>pg_index := 7, pg_private := p\<rparr>,
                  tp_in_use := 0, tp_page_valid := 0, tp_buffer_id := BI_NONE\<rparr>),
     pm_total = 8, pm_fl = (\<lambda>c. if c < 4 then [2 * c, 2 * c + 1] else []), pm_numa_dv = Some [0],
     fb_primary = (\<lambda>q. lp_init 12), fb_dirty = (\<lambda>q. d_init 12),
     fb_ld_params = init_ld_params, fb_rt_params = init_rt_params, fb_size = 8, fb_evictor_run = True,
     fb_active_evictors = 8,
     fm_pvd = (\<lambda>d. pvd_example),
     fm_pve = (\<lambda>e. \<lparr>pve_refcount = 1, pve_vm_start = 0x10000, pve_vm_end = 0x20000, pve_mapped = (\<lambda>c. [])\<rparr>),
     fm_info = (\<lambda>i. \<lparr>fi_is_fastmap = True, fi_pvd = 0, fi_pve = 0\<rparr>),
     fm_vma = (\<lambda>v. \<lparr>vma_mm = 0x80, vma_start = 0x10000, vma_end = 0x20000, vma_pgoff = 0, vma_flags = 0,
                  vma_info = 0, vma_file = 0\<rparr>),
     fm_pte = (\<lambda>k. None), fm_rss = (\<lambda>m. 0), fm_flush = [], fm_disk = (\<lambda>b i. []),
     fm_rdd = (\<lambda>r. \<lparr>rdd_inuse = 1, rdd_dev_id = 0, rdd_binding = Some 0, rdd_meta = Some (replicate 16 0),
                  rdd_size_in_pages = 16, rdd_bitmap_size = 16, rdd_bitmap = (\<lambda>i. True), rdd_path = []\<rparr>),
     fm_lower = id, fm_isize = (\<lambda>f. 0x10000), fm_bug = False\<rparr>"

definition kernel_example :: kernel where
  "kernel_example = \<lparr>k_topo = one_node_topology, k_rb = plain_rb, k_walk = plain_walk, k_written = (\<lambda>r. length (io_data r)),
     k_capacity = (\<lambda>b. 128), k_bio_ok = (\<lambda>b i. True), k_read_iter = (\<lambda>f i. 4096), k_writepage = (\<lambda>f. True)\<rparr>"

lemma kernel_example_ok: "walk_ok kernel_example" "rb_lib_ok (k_rb kernel_example)"
  by (simp_all add: kernel_example_def plain_walk_ok plain_rb_ok)

text \<open>Page 3 mapped writable and dirty at \<open>0x15000\<close>.\<close>

definition fm_mapped :: fm where
  "fm_mapped =
     (let s = upd_rmap 3 1 (\<lambda>r. pvr_mk_valid (pvr_set_vma (pvr_set_vaddr r 0x15000) 0x40)) fm_example
      in s\<lparr>fm_pte := (fm_pte s)((0x80, 0x15000) := Some \<lparr>pte_frame = 3, pte_dirty = True, pte_young = True, pte_write = True\<rparr>)\<rparr>)"

lemma fm_mapped_complete: "rmap_complete fm_mapped 3"
proof -
  have "rmap_key fm_mapped 3 1 = (0x80, 0x15000)" "pvr_is_valid (rmap_of fm_mapped 3 1)"
    by (simp_all add: fm_mapped_def fm_example_def rmap_key_def rmap_of_def upd_rmap_def upd_page_def
        reset_rmap_def Let_def fm_simps pvr_refine)
  moreover have "maps_page (fm_pte fm_mapped) 3 k \<Longrightarrow> k = (0x80, 0x15000)" for k
    by (auto simp: maps_page_def fm_mapped_def fm_example_def Let_def split: if_splits)
  moreover have "length (tp_rmap (pm_pages fm_mapped 3)) = MAX_RMAPS_PER_PAGE"
    by (simp add: fm_mapped_def fm_example_def fm_const_defs Let_def)
  moreover have "1 < MAX_RMAPS_PER_PAGE" by (simp add: fm_const_defs)
  ultimately show ?thesis unfolding rmap_complete_def by blast
qed

lemma fm_mapped_pte: "fm_pte fm_mapped (0x80, 0x15000) =
    Some \<lparr>pte_frame = 3, pte_dirty = True, pte_young = True, pte_write = True\<rparr>"
  by (simp add: fm_mapped_def Let_def)

theorem remove_mappings_unmaps_witness:
  "fm_pte (snd (remove_mappings kernel_example 3 (None, fm_mapped))) (0x80, 0x15000) = None \<and>
   pg_dirty (tp_page (pm_pages (snd (remove_mappings kernel_example 3 (None, fm_mapped))) 3))"
proof -
  obtain et' s' where r: "remove_mappings kernel_example 3 (None, fm_mapped) = (et', s')" by fastforce
  have m: "maps_page (fm_pte fm_mapped) 3 (0x80, 0x15000)" using fm_mapped_pte by (auto simp: maps_page_def)
  have d: "\<exists>k e. fm_pte fm_mapped k = Some e \<and> pte_frame e = 3 \<and> pte_dirty e"
    by (intro exI conjI) (rule fm_mapped_pte, simp_all)
  from remove_mappings_unmaps [OF kernel_example_ok(1) fm_mapped_complete r] m d
  show ?thesis unfolding r snd_conv by presburger
qed

theorem clear_mappings_protects_witness:
  "fm_pte (snd (clear_mappings kernel_example 3 (None, fm_mapped))) (0x80, 0x15000) =
     Some \<lparr>pte_frame = 3, pte_dirty = False, pte_young = True, pte_write = False\<rparr>"
proof -
  obtain et' s' where r: "clear_mappings kernel_example 3 (None, fm_mapped) = (et', s')" by fastforce
  have m: "maps_page (fm_pte fm_mapped) 3 (0x80, 0x15000)" using fm_mapped_pte by (auto simp: maps_page_def)
  have "fm_pte s' (0x80, 0x15000) = map_option protect_pte (fm_pte fm_mapped (0x80, 0x15000))"
    using clear_mappings_protects [OF kernel_example_ok(1) fm_mapped_complete r] m by presburger
  then show ?thesis unfolding r fm_mapped_pte by (simp add: protect_pte_def)
qed

section \<open>The batched TLB ranges\<close>

text \<open>
  For a key that is already in the array, the update keeps the largest address in \<^verbatim>\<open>start\<close> and the
  smallest in \<^verbatim>\<open>end\<close>: the other way round than a range needs.
\<close>

lemma etlb_update_extremes:
  assumes "etlb_scan key etlb 0 None = (Some k, x)" and "k < length etlb"
  shows "\<exists>etlb'. etlb_update key a etlb = Some etlb' \<and>
    et_start (etlb' ! k) = max a (et_start (etlb ! k)) \<and> et_end (etlb' ! k) = min a (et_end (etlb ! k))"
  using assms by (auto simp: etlb_update_def Let_def max_def min_def)

text \<open>
  Two pages of one VMA at \<open>0x1000\<close> and \<open>0x5000\<close>: the range that is flushed is \<open>[0x5000, 0x2000)\<close>, which is
  empty and contains neither.
\<close>

lemma etlb_scan_absent:
  "\<forall>e\<in>set es. et_ptr e \<noteq> key \<Longrightarrow> slot \<noteq> None \<or> (\<forall>e\<in>set es. et_ptr e \<noteq> 0) \<Longrightarrow>
   etlb_scan key es k slot = (None, slot)"
  by (induction es arbitrary: k) auto

lemma etlb_range_inverted:
  "\<exists>etlb1 etlb2. etlb_update 0x40 0x1000 etlb_init = Some etlb1 \<and> etlb_update 0x40 0x5000 etlb1 = Some etlb2 \<and>
     et_start (etlb2 ! 0) = 0x5000 \<and> et_end (etlb2 ! 0) + PAGE_SIZE = 0x2000"
proof -
  have init: "etlb_init = \<lparr>et_ptr = 0, et_start = 0, et_end = UINT_MAX\<rparr> #
      replicate 15 \<lparr>et_ptr = 0, et_start = 0, et_end = UINT_MAX\<rparr>"
    by (simp add: etlb_init_def ETLB_ENTRIES_def flip: replicate_Suc)
  have "etlb_update 0x40 0x1000 etlb_init = Some (\<lparr>et_ptr = 0x40, et_start = 0x1000, et_end = 0x1000\<rparr> #
      replicate 15 \<lparr>et_ptr = 0, et_start = 0, et_end = UINT_MAX\<rparr>)"
    by (simp add: etlb_update_def init etlb_scan_absent)
  then show ?thesis by (simp add: etlb_update_def)
qed

text \<open>
  The array has sixteen slots: when they all belong to other keys, the update finds none and the
  write goes before the array.
\<close>

lemma etlb_overflow:
  "\<forall>e\<in>set etlb. et_ptr e \<noteq> key \<and> et_ptr e \<noteq> 0 \<Longrightarrow> etlb_update key a etlb = None"
  by (simp add: etlb_update_def etlb_scan_absent)

end
