(* ===== verification/Write_Back.thy ===== *)
theory Write_Back
  imports Mappings
begin

text \<open>
  Writing pages back: \<^verbatim>\<open>write_bio_async\<close> and \<^verbatim>\<open>write_file_async\<close> of \<^verbatim>\<open>write_dirty_pages.c\<close>, which merge
  runs of consecutive pages into one request, and the single-page writes of \<^verbatim>\<open>write_tagged_page.c\<close>.
  The requests are values; \<open>submit_req\<close> is the effect of a completed request on the store.
\<close>

section \<open>Merging\<close>

definition BIO_MAX_PAGES :: nat where "BIO_MAX_PAGES = 256"

definition page_index :: "fm \<Rightarrow> pid \<Rightarrow> u64" where
  "page_index s q = tp_index (pm_pages s q)"

text \<open>The body of the loop that computes the merges, on \<^verbatim>\<open>merge_arr\<close>, \<^verbatim>\<open>base_idx\<close> and \<^verbatim>\<open>base\<close>.\<close>

definition merge_step :: "fm \<Rightarrow> pid list \<Rightarrow> nat \<Rightarrow> nat list \<times> nat \<times> pid \<Rightarrow> nat list \<times> nat \<times> pid" where
  "merge_step s p i = (\<lambda>(merge_arr, base_idx, base).
     if page_index s base + 1 = page_index s (p ! i)
     then let merge_arr = merge_arr[base_idx := merge_arr ! base_idx + 1];
              merge_arr = merge_arr[i := merge_arr ! i - 1]
          in (merge_arr, if merge_arr ! base_idx = BIO_MAX_PAGES then i else base_idx, p ! i)
     else (merge_arr, i, p ! i))"

definition compute_merges :: "fm \<Rightarrow> pid list \<Rightarrow> nat list \<Rightarrow> nat list" where
  "compute_merges s p merge_arr =
     fst (fold (merge_step s p) [1..<length p] (merge_arr, 0, p ! 0))"

section \<open>Requests\<close>

definition submit_req :: "kernel \<Rightarrow> io_req \<Rightarrow> fm \<Rightarrow> fm" where
  "submit_req K r s = s\<lparr>fm_disk := (fm_disk s)(io_dev r := (\<lambda>j.
     if unat (j - io_page r) < min (k_written K r) (length (io_data r))
     then io_data r ! unat (j - io_page r) else fm_disk s (io_dev r) j))\<rparr>"

text \<open>
  The address of a request is a sector (\<^verbatim>\<open>index << 3\<close>) or a byte position (\<^verbatim>\<open>index << PAGE_SHIFT\<close>);
  \<open>shift\<close> is the width of that shift, so \<open>io_page\<close> is the page the address falls into.
\<close>

definition run_req :: "nat \<Rightarrow> nat \<Rightarrow> fm \<Rightarrow> pid list \<Rightarrow> nat list \<Rightarrow> nat \<Rightarrow> io_req" where
  "run_req shift dev s p merge_arr i =
     \<lparr>io_dev = dev,
      io_page = drop_bit shift (push_bit shift (page_index s (p ! i))),
      io_data = map (\<lambda>k. pg_data (tp_page (pm_pages s (p ! (i + k))))) [0..<merge_arr ! i]\<rparr>"

abbreviation (input) PAGE_SHIFT :: nat where "PAGE_SHIFT \<equiv> 12"
abbreviation (input) SECTOR_SHIFT :: nat where "SECTOR_SHIFT \<equiv> 3"

definition write_file_run :: "kernel \<Rightarrow> pid list \<Rightarrow> nat list \<Rightarrow> nat \<Rightarrow> fm \<Rightarrow> fm" where
  "write_file_run K p merge_arr i s =
     (if merge_arr ! i = 0 then s
      else case tp_pvd (pm_pages s (p ! i)) of
             None \<Rightarrow> s
           | Some d \<Rightarrow>
               (case pvd_bk (fm_pvd s d) of
                  None \<Rightarrow> s\<lparr>fm_bug := True\<rparr>
                | Some lower_file \<Rightarrow> submit_req K (run_req PAGE_SHIFT lower_file s p merge_arr i) s))"

definition write_file_async :: "kernel \<Rightarrow> pid list \<Rightarrow> fm \<Rightarrow> fm" where
  "write_file_async K p s =
     (if length p = 0 then s
      else let merge_arr = compute_merges s p (replicate (length p) 1)
           in fold (write_file_run K p merge_arr) [0..<length p] s)"

definition write_bio_run :: "kernel \<Rightarrow> pid list \<Rightarrow> nat list \<Rightarrow> nat \<Rightarrow> fm \<Rightarrow> fm" where
  "write_bio_run K p merge_arr i s =
     (if merge_arr ! i = 0 then s
      else case tp_pvd (pm_pages s (p ! i)) of
             None \<Rightarrow> s\<lparr>fm_bug := True\<rparr>
           | Some d \<Rightarrow>
               (case pvd_bk (fm_pvd s d) of
                  None \<Rightarrow> s\<lparr>fm_bug := True\<rparr>
                | Some bdev \<Rightarrow> submit_req K (run_req SECTOR_SHIFT bdev s p merge_arr i) s))"

text \<open>All bios are submitted and then awaited; the completion status \<^verbatim>\<open>ret[i].error\<close> is never read.\<close>

definition write_bio_async :: "kernel \<Rightarrow> pid list \<Rightarrow> fm \<Rightarrow> fm" where
  "write_bio_async K p s =
     (if length p = 0 then s
      else let merge_arr = compute_merges s p (replicate (length p + 1) 1)
           in fold (write_bio_run K p merge_arr) [0..<length p] s)"

section \<open>Single pages\<close>

definition page_req :: "nat \<Rightarrow> nat \<Rightarrow> fm \<Rightarrow> pid \<Rightarrow> io_req" where
  "page_req shift dev s q =
     \<lparr>io_dev = dev, io_page = drop_bit shift (push_bit shift (page_index s q)),
      io_data = [pg_data (tp_page (pm_pages s q))]\<rparr>"

definition write_bio_tagged_page :: "kernel \<Rightarrow> pid \<Rightarrow> fm \<Rightarrow> fm" where
  "write_bio_tagged_page K q s =
     (case tp_pvd (pm_pages s q) of
        None \<Rightarrow> s\<lparr>fm_bug := True\<rparr>
      | Some d \<Rightarrow> (case pvd_bk (fm_pvd s d) of
            None \<Rightarrow> s\<lparr>fm_bug := True\<rparr>
          | Some bdev \<Rightarrow> submit_req K (page_req SECTOR_SHIFT bdev s q) s))"

definition write_file_tagged_page :: "kernel \<Rightarrow> pid \<Rightarrow> fm \<Rightarrow> fm" where
  "write_file_tagged_page K q s =
     (case tp_pvd (pm_pages s q) of
        None \<Rightarrow> s\<lparr>fm_bug := True\<rparr>
      | Some d \<Rightarrow> (case pvd_bk (fm_pvd s d) of
            None \<Rightarrow> s\<lparr>fm_bug := True\<rparr>
          | Some lower_file \<Rightarrow> submit_req K (page_req PAGE_SHIFT lower_file s q) s))"

section \<open>The merge array\<close>

text \<open>
  The invariant of the loop after \<open>n\<close> pages: every counter describes a run of consecutive pages
  inside the pages seen, the pages from \<open>base_idx\<close> on are consecutive, and the counter of the current
  run counts all of them or all but the last.
\<close>

definition consec :: "fm \<Rightarrow> pid list \<Rightarrow> nat \<Rightarrow> nat \<Rightarrow> bool" where
  "consec s p i m \<longleftrightarrow> (\<forall>k<m. page_index s (p ! (i + k)) = page_index s (p ! i) + word_of_nat k)"

definition merge_inv :: "fm \<Rightarrow> pid list \<Rightarrow> nat \<Rightarrow> nat list \<times> nat \<times> pid \<Rightarrow> bool" where
  "merge_inv s p n = (\<lambda>(arr, b, base).
     0 < n \<and> n \<le> length p \<and> length p \<le> length arr \<and> base = p ! (n - 1) \<and> b < n \<and>
     (\<forall>j<length arr. n \<le> j \<longrightarrow> arr ! j = 1) \<and>
     (\<forall>i<n. i + arr ! i \<le> n \<and> consec s p i (arr ! i)) \<and>
     consec s p b (n - b) \<and> (arr ! b = n - b \<or> arr ! b = n - b - 1))"

lemma consec_extend:
  assumes "consec s p i m" and "0 < m"
    and "page_index s (p ! (i + m - 1)) + 1 = page_index s (p ! (i + m))"
  shows "consec s p i (Suc m)"
proof -
  obtain m' where m: "m = Suc m'" using assms(2) by (cases m) auto
  have "page_index s (p ! (i + m')) = page_index s (p ! i) + word_of_nat m'"
    using assms(1) m by (simp add: consec_def)
  then have "page_index s (p ! (i + m)) = page_index s (p ! i) + word_of_nat m"
    using assms(3)[symmetric] m by (simp add: ac_simps)
  with assms(1) show ?thesis by (auto simp: consec_def less_Suc_eq)
qed

lemma consec_next:
  assumes "consec s p i m" and "0 < n" and "n < m"
  shows "page_index s (p ! (i + n - 1)) + 1 = page_index s (p ! (i + n))"
proof -
  obtain k where n: "n = Suc k" using assms(2) by (cases n) auto
  have "\<And>j. j < m \<Longrightarrow> page_index s (p ! (i + j)) = page_index s (p ! i) + word_of_nat j"
    using assms(1) by (simp add: consec_def)
  from this [of k] this [of n] have "page_index s (p ! (i + k)) = page_index s (p ! i) + word_of_nat k"
    "page_index s (p ! (i + n)) = page_index s (p ! i) + word_of_nat n"
    using assms(3) n by simp_all
  then show ?thesis using n by (simp add: ac_simps)
qed

lemma consec_less: "consec s p i m \<Longrightarrow> k \<le> m \<Longrightarrow> consec s p i k"
  by (simp add: consec_def)

lemma merge_step_inv:
  assumes "merge_inv s p n (arr, b, base)" and "n < length p"
  shows "merge_inv s p (Suc n) (merge_step s p n (arr, b, base))"
proof -
  have inv: "0 < n" "length p \<le> length arr" "base = p ! (n - 1)" "b < n"
    "\<And>j. j < length arr \<Longrightarrow> n \<le> j \<Longrightarrow> arr ! j = 1"
    "\<And>i. i < n \<Longrightarrow> i + arr ! i \<le> n \<and> consec s p i (arr ! i)"
    "consec s p b (n - b)" "arr ! b = n - b \<or> arr ! b = n - b - 1"
    using assms(1) by (auto simp: merge_inv_def)
  have n1: "arr ! n = 1" using inv(2,5) assms(2) by simp
  show ?thesis
  proof (cases "page_index s base + 1 = page_index s (p ! n)")
    case False
    then show ?thesis
      using inv assms(2) n1
      by (auto simp: merge_step_def merge_inv_def less_Suc_eq consec_def [of s p n] intro: le_SucI)
  next
    case True
    let ?arr = "arr[b := arr ! b + 1, n := 0]"
    have step: "merge_step s p n (arr, b, base) = (?arr, if arr ! b + 1 = BIO_MAX_PAGES then n else b, p ! n)"
      using True inv(4) assms(2) inv(2) n1 by (simp add: merge_step_def Let_def)
    have con: "consec s p b (Suc n - b)"
      using consec_extend [OF inv(7)] inv(1,3,4) True by (simp add: Suc_diff_le)
    have "consec s p b (arr ! b + 1)" by (rule consec_less [OF con]) (use inv(4,8) in auto)
    then have runs: "i + ?arr ! i \<le> Suc n \<and> consec s p i (?arr ! i)" if "i < Suc n" for i
      using that inv(4,6,8) assms(2) inv(2)
      by (cases "i = n"; cases "i = b") (auto simp: consec_def nth_list_update le_SucI)
    have cnt: "?arr ! b = arr ! b + 1" "?arr ! n = 0" using inv(2,4) assms(2) by auto
    show ?thesis
      unfolding step merge_inv_def using inv assms(2) con runs cnt
      by (auto simp: consec_def [of s p n] nth_list_update)
  qed
qed

lemma merge_inv_upto:
  assumes "0 < n" "n \<le> length p" and "length p \<le> length arr0" and "\<forall>j<length arr0. arr0 ! j = 1"
  shows "merge_inv s p n (fold (merge_step s p) [1..<n] (arr0, 0, p ! 0))"
  using assms(1,2)
proof (induction n)
  case (Suc n)
  show ?case
  proof (cases "n = 0")
    case True
    have "0 < length arr0" using Suc.prems assms(3) by linarith
    then have "arr0 ! 0 = 1" using assms(4) by simp
    with True Suc assms(3,4) show ?thesis by (auto simp: merge_inv_def consec_def)
  next
    case False
    with Suc have "merge_inv s p n (fold (merge_step s p) [1..<n] (arr0, 0, p ! 0))" by simp
    with merge_step_inv [of s p n] Suc.prems False show ?thesis
      by (cases "fold (merge_step s p) [1..<n] (arr0, 0, p ! 0)") auto
  qed
qed simp

lemma compute_merges_runs:
  assumes "p \<noteq> []" and "length p \<le> m" and "i < length p"
  shows "i + compute_merges s p (replicate m 1) ! i \<le> length p \<and>
    consec s p i (compute_merges s p (replicate m 1) ! i)"
proof -
  have "merge_inv s p (length p) (fold (merge_step s p) [1..<length p] (replicate m 1, 0, p ! 0))"
    using assms by (intro merge_inv_upto) auto
  then show ?thesis
    using assms(3) by (auto simp: compute_merges_def merge_inv_def split: prod.splits)
qed

section \<open>The effect on the store\<close>

lemma word_diff_less_iff:
  "m < 2 ^ 64 \<Longrightarrow> unat (j - i :: u64) < m \<longleftrightarrow> (\<exists>k<m. j = i + word_of_nat k)"
proof
  assume "unat (j - i) < m"
  then show "\<exists>k<m. j = i + word_of_nat k" by (intro exI [of _ "unat (j - i)"]) simp
next
  assume "m < 2 ^ 64" "\<exists>k<m. j = i + word_of_nat k"
  then show "unat (j - i) < m" by (auto simp: unat_of_nat take_bit_nat_eq_self)
qed

lemma shift_id:
  assumes "w < 2 ^ 52" and "sh \<le> 12"
  shows "drop_bit sh (push_bit sh (w :: u64)) = w"
proof -
  have "drop_bit sh (push_bit sh (w AND mask 52)) = w AND mask 52"
    using assms(2) by (intro bit_word_eqI) (auto simp: bit_simps)
  then show ?thesis using less_mask_eq [OF assms(1)] by simp
qed

definition covered :: "nat list \<Rightarrow> nat list \<Rightarrow> nat \<Rightarrow> bool" where
  "covered arr is a \<longleftrightarrow> (\<exists>i\<in>set is. i \<le> a \<and> a < i + arr ! i)"

definition apply_req :: "kernel \<Rightarrow> io_req \<Rightarrow> (nat \<Rightarrow> u64 \<Rightarrow> pdata) \<Rightarrow> nat \<Rightarrow> u64 \<Rightarrow> pdata" where
  "apply_req K r disk = disk(io_dev r := (\<lambda>j.
     if unat (j - io_page r) < min (k_written K r) (length (io_data r))
     then io_data r ! unat (j - io_page r) else disk (io_dev r) j))"

lemma submit_req_eq: "submit_req K r s = s\<lparr>fm_disk := apply_req K r (fm_disk s)\<rparr>"
  by (simp add: submit_req_def apply_req_def)

definition run_disk :: "kernel \<Rightarrow> nat \<Rightarrow> nat \<Rightarrow> fm \<Rightarrow> pid list \<Rightarrow> nat list \<Rightarrow> nat \<Rightarrow>
    (nat \<Rightarrow> u64 \<Rightarrow> pdata) \<Rightarrow> nat \<Rightarrow> u64 \<Rightarrow> pdata" where
  "run_disk K sh dev s p arr i disk = (if arr ! i = 0 then disk else apply_req K (run_req sh dev s p arr i) disk)"

text \<open>A batch of pages of one backing object, with small enough page numbers and no number twice.\<close>

definition batch_ok :: "fm \<Rightarrow> nat \<Rightarrow> nat \<Rightarrow> pid list \<Rightarrow> bool" where
  "batch_ok s d dev p \<longleftrightarrow> pvd_bk (fm_pvd s d) = Some dev \<and> length p < 2 ^ 31 \<and>
     (\<forall>q\<in>set p. tp_pvd (pm_pages s q) = Some d \<and> page_index s q < 2 ^ 52) \<and>
     distinct (map (page_index s) p)"

lemma run_req_disk_irrelevant:
  "run_req sh dev (s\<lparr>fm_disk := x\<rparr>) p arr i = run_req sh dev s p arr i"
  by (simp add: run_req_def page_index_def)

lemma write_runs_disk:
  assumes "batch_ok s d dev p" and "set is \<subseteq> {..<length p}"
  shows "fold (write_file_run K p arr) is s = s\<lparr>fm_disk := fold (run_disk K PAGE_SHIFT dev s p arr) is (fm_disk s)\<rparr>"
    and "fold (write_bio_run K p arr) is s = s\<lparr>fm_disk := fold (run_disk K SECTOR_SHIFT dev s p arr) is (fm_disk s)\<rparr>"
proof -
  have ok: "tp_pvd (pm_pages s (p ! i)) = Some d" "pvd_bk (fm_pvd s d) = Some dev" if "i < length p" for i
    using assms(1) that by (auto simp: batch_ok_def)
  have "fold (write_file_run K p arr) is (s\<lparr>fm_disk := x\<rparr>) = s\<lparr>fm_disk := fold (run_disk K PAGE_SHIFT dev s p arr) is x\<rparr>"
    for x using assms(2)
    by (induction "is" arbitrary: x)
      (auto simp: write_file_run_def run_disk_def ok submit_req_eq run_req_disk_irrelevant)
  from this [of "fm_disk s"]
  show "fold (write_file_run K p arr) is s = s\<lparr>fm_disk := fold (run_disk K PAGE_SHIFT dev s p arr) is (fm_disk s)\<rparr>"
    by simp
  have "fold (write_bio_run K p arr) is (s\<lparr>fm_disk := x\<rparr>) = s\<lparr>fm_disk := fold (run_disk K SECTOR_SHIFT dev s p arr) is x\<rparr>"
    for x using assms(2)
    by (induction "is" arbitrary: x)
      (auto simp: write_bio_run_def run_disk_def ok submit_req_eq run_req_disk_irrelevant)
  from this [of "fm_disk s"]
  show "fold (write_bio_run K p arr) is s = s\<lparr>fm_disk := fold (run_disk K SECTOR_SHIFT dev s p arr) is (fm_disk s)\<rparr>"
    by simp
qed

definition batch_data :: "fm \<Rightarrow> pid list \<Rightarrow> nat \<Rightarrow> pdata" where
  "batch_data s p a = pg_data (tp_page (pm_pages s (p ! a)))"

text \<open>A request stores page contents of its run at their own page numbers, and nothing else.\<close>

lemma run_disk_cases:
  assumes "batch_ok s d dev p" and "sh \<le> 12" and "i < length p" and "i + arr ! i \<le> length p"
    and "consec s p i (arr ! i)"
  shows "run_disk K sh dev s p arr i disk d' j = disk d' j \<or>
    d' = dev \<and> (\<exists>a. i \<le> a \<and> a < i + arr ! i \<and> page_index s (p ! a) = j \<and>
      run_disk K sh dev s p arr i disk d' j = batch_data s p a)"
proof (cases "d' = dev \<and> arr ! i \<noteq> 0 \<and> unat (j - page_index s (p ! i)) < min (k_written K (run_req sh dev s p arr i)) (arr ! i)")
  case True
  let ?k = "unat (j - page_index s (p ! i))"
  have "page_index s (p ! i) < 2 ^ 52" using assms(1,3) by (auto simp: batch_ok_def)
  then have "run_disk K sh dev s p arr i disk d' j = batch_data s p (i + ?k)"
    using True assms(2) by (simp add: run_disk_def apply_req_def run_req_def shift_id batch_data_def)
  moreover have "page_index s (p ! (i + ?k)) = j" using True assms(5) by (simp add: consec_def)
  ultimately show ?thesis using True by (intro disjI2 conjI exI [of _ "i + ?k"]) auto
next
  case False
  have "page_index s (p ! i) < 2 ^ 52" using assms(1,3) by (auto simp: batch_ok_def)
  then show ?thesis
    using False assms(2) by (auto simp: run_disk_def apply_req_def run_req_def shift_id)
qed

lemma run_disk_hit:
  assumes "batch_ok s d dev p" and "sh \<le> 12" and "i + arr ! i \<le> length p" and "consec s p i (arr ! i)"
    and "k_written K (run_req sh dev s p arr i) = arr ! i" and "i \<le> a" and "a < i + arr ! i"
  shows "run_disk K sh dev s p arr i disk dev (page_index s (p ! a)) = batch_data s p a"
proof -
  let ?k = "a - i"
  have k: "?k < arr ! i" "i + ?k = a" using assms(6,7) by auto
  have "i < length p" using assms(3,6,7) by linarith
  then have idx: "page_index s (p ! i) < 2 ^ 52" using assms(1) by (auto simp: batch_ok_def)
  have "page_index s (p ! a) = page_index s (p ! i) + word_of_nat ?k"
    using assms(4) k unfolding consec_def by metis
  then have d: "page_index s (p ! a) - page_index s (p ! i) = word_of_nat ?k" by simp
  have "?k < 2 ^ 64" using assms(1,3) k by (simp add: batch_ok_def)
  then have u: "unat (word_of_nat ?k :: u64) = ?k" by (simp add: unat_of_nat take_bit_nat_eq_self)
  show ?thesis
    using assms(2,5) idx k d u by (simp add: run_disk_def apply_req_def run_req_def shift_id batch_data_def)
qed

text \<open>The same for a sequence of runs.\<close>

definition runs_ok :: "fm \<Rightarrow> pid list \<Rightarrow> nat list \<Rightarrow> bool" where
  "runs_ok s p arr \<longleftrightarrow> (\<forall>i<length p. i + arr ! i \<le> length p \<and> consec s p i (arr ! i))"

lemma fold_run_disk_cases:
  assumes "batch_ok s d dev p" and "sh \<le> 12" and "runs_ok s p arr" and "set is \<subseteq> {..<length p}"
  shows "fold (run_disk K sh dev s p arr) is disk d' j = disk d' j \<or>
    d' = dev \<and> (\<exists>a<length p. page_index s (p ! a) = j \<and>
      fold (run_disk K sh dev s p arr) is disk d' j = batch_data s p a)"
  using assms(4)
proof (induction "is" rule: rev_induct)
  case (snoc i "is")
  have i: "i < length p" "i + arr ! i \<le> length p" "consec s p i (arr ! i)"
    using snoc.prems assms(3) by (auto simp: runs_ok_def)
  let ?D = "fold (run_disk K sh dev s p arr) is disk"
  have eq: "fold (run_disk K sh dev s p arr) (is @ [i]) disk = run_disk K sh dev s p arr i ?D" by simp
  have IH: "?D d' j = disk d' j \<or> d' = dev \<and> (\<exists>a<length p. page_index s (p ! a) = j \<and> ?D d' j = batch_data s p a)"
    using snoc by simp
  show ?case
    using run_disk_cases [OF assms(1,2) i, of K ?D d' j]
  proof (elim disjE conjE exE)
    assume "run_disk K sh dev s p arr i ?D d' j = ?D d' j"
    with IH show ?thesis unfolding eq by metis
  next
    fix a assume "d' = dev" "a < i + arr ! i" "page_index s (p ! a) = j"
      "run_disk K sh dev s p arr i ?D d' j = batch_data s p a"
    with i(2) show ?thesis unfolding eq by (intro disjI2 conjI exI [of _ a]) auto
  qed
qed simp

lemma fold_run_disk_hit:
  assumes "batch_ok s d dev p" and "sh \<le> 12" and "runs_ok s p arr" and "set is \<subseteq> {..<length p}"
    and "\<And>r. k_written K r = length (io_data r)" and "covered arr is a" and "a < length p"
  shows "fold (run_disk K sh dev s p arr) is disk dev (page_index s (p ! a)) = batch_data s p a"
  using assms(4,6)
proof (induction "is" rule: rev_induct)
  case Nil
  then show ?case by (simp add: covered_def)
next
  case (snoc i "is")
  have i: "i < length p" "i + arr ! i \<le> length p" "consec s p i (arr ! i)"
    using snoc.prems assms(3) by (auto simp: runs_ok_def)
  let ?D = "fold (run_disk K sh dev s p arr) is disk"
  show ?case
  proof (cases "i \<le> a \<and> a < i + arr ! i")
    case True
    then show ?thesis
      using run_disk_hit [OF assms(1,2) i(2,3), of K a ?D] assms(5) by (simp add: run_req_def)
  next
    case False
    then have "covered arr is a" using snoc.prems(2) by (auto simp: covered_def)
    then have "?D dev (page_index s (p ! a)) = batch_data s p a" using snoc by simp
    moreover have "b = a" if "b < length p" "page_index s (p ! b) = page_index s (p ! a)" for b
      using assms(1,7) that by (auto simp: batch_ok_def distinct_conv_nth)
    moreover have "run_disk K sh dev s p arr i ?D dev (page_index s (p ! a)) = ?D dev (page_index s (p ! a)) \<or>
        (\<exists>b<length p. page_index s (p ! b) = page_index s (p ! a) \<and>
          run_disk K sh dev s p arr i ?D dev (page_index s (p ! a)) = batch_data s p b)"
      using run_disk_cases [OF assms(1,2) i, of K ?D dev "page_index s (p ! a)"] i(2) by (meson less_le_trans)
    ultimately have "run_disk K sh dev s p arr i ?D dev (page_index s (p ! a)) = batch_data s p a" by metis
    then show ?thesis by simp
  qed
qed

lemma compute_merges_runs_ok:
  "p \<noteq> [] \<Longrightarrow> length p \<le> m \<Longrightarrow> runs_ok s p (compute_merges s p (replicate m 1))"
  using compute_merges_runs by (simp add: runs_ok_def)

lemma write_async_disk:
  assumes "batch_ok s d dev p" and "p \<noteq> []"
  defines "arr \<equiv> compute_merges s p (replicate (length p) 1)"
    and "arr1 \<equiv> compute_merges s p (replicate (length p + 1) 1)"
  shows "write_file_async K p s = s\<lparr>fm_disk := fold (run_disk K PAGE_SHIFT dev s p arr) [0..<length p] (fm_disk s)\<rparr>"
    and "write_bio_async K p s = s\<lparr>fm_disk := fold (run_disk K SECTOR_SHIFT dev s p arr1) [0..<length p] (fm_disk s)\<rparr>"
    and "runs_ok s p arr" and "runs_ok s p arr1"
proof -
  have sub: "set [0..<length p] \<subseteq> {..<length p}" by auto
  show "write_file_async K p s = s\<lparr>fm_disk := fold (run_disk K PAGE_SHIFT dev s p arr) [0..<length p] (fm_disk s)\<rparr>"
    unfolding write_file_async_def arr_def using assms(2) write_runs_disk(1) [OF assms(1) sub] by (simp only: Let_def length_0_conv if_False)
  show "write_bio_async K p s = s\<lparr>fm_disk := fold (run_disk K SECTOR_SHIFT dev s p arr1) [0..<length p] (fm_disk s)\<rparr>"
    unfolding write_bio_async_def arr1_def using assms(2) write_runs_disk(2) [OF assms(1) sub] by (simp only: Let_def length_0_conv if_False)
  show "runs_ok s p arr" "runs_ok s p arr1"
    unfolding arr_def arr1_def by (intro compute_merges_runs_ok assms(2); simp)+
qed

lemma write_async_effect:
  assumes "batch_ok s d dev p"
  shows "\<forall>w\<in>{write_bio_async K p s, write_file_async K p s}.
    w = s\<lparr>fm_disk := fm_disk w\<rparr> \<and> (\<forall>d' j. fm_disk w d' j = fm_disk s d' j \<or>
      d' = dev \<and> (\<exists>q\<in>set p. page_index s q = j \<and> fm_disk w d' j = pg_data (tp_page (pm_pages s q))))"
proof (cases "p = []")
  case False
  have sub: "set [0..<length p] \<subseteq> {..<length p}" by auto
  have safe: "fold (run_disk K sh dev s p arr) [0..<length p] (fm_disk s) d' j = fm_disk s d' j \<or>
      d' = dev \<and> (\<exists>q\<in>set p. page_index s q = j \<and>
        fold (run_disk K sh dev s p arr) [0..<length p] (fm_disk s) d' j = pg_data (tp_page (pm_pages s q)))"
    if "runs_ok s p arr" "sh \<le> 12" for sh arr d' j
    using fold_run_disk_cases [OF assms that(2,1) sub, of K "fm_disk s" d' j]
    unfolding batch_data_def by (metis nth_mem)
  note w = write_async_disk(1,2) [OF assms False, of K] write_async_disk(3,4) [OF assms False]
  have "\<forall>d' j. fm_disk (write_file_async K p s) d' j = fm_disk s d' j \<or> d' = dev \<and>
      (\<exists>q\<in>set p. page_index s q = j \<and> fm_disk (write_file_async K p s) d' j = pg_data (tp_page (pm_pages s q)))"
    unfolding w(1) using safe [OF w(3), of PAGE_SHIFT] by simp
  moreover have "\<forall>d' j. fm_disk (write_bio_async K p s) d' j = fm_disk s d' j \<or> d' = dev \<and>
      (\<exists>q\<in>set p. page_index s q = j \<and> fm_disk (write_bio_async K p s) d' j = pg_data (tp_page (pm_pages s q)))"
    unfolding w(2) using safe [OF w(4), of SECTOR_SHIFT] by simp
  moreover have "write_file_async K p s = s\<lparr>fm_disk := fm_disk (write_file_async K p s)\<rparr>" 
    "write_bio_async K p s = s\<lparr>fm_disk := fm_disk (write_bio_async K p s)\<rparr>"
    unfolding w(1,2) by simp_all
  ultimately show ?thesis by blast
qed (simp add: write_bio_async_def write_file_async_def)

text \<open>
  C24. Whatever the devices do with the requests, both write paths only ever store a page of the
  batch under its own page number: afterwards every page of the store is unchanged or holds the
  content of the page of the batch with that number, no other device changes, and nothing but the
  store changes.
\<close>

theorem write_async_safe:
  assumes "batch_ok s d dev p"
  shows "\<forall>w\<in>{write_bio_async K p s, write_file_async K p s}.
    w = s\<lparr>fm_disk := fm_disk w\<rparr> \<and> (\<forall>d' j. fm_disk w d' j = fm_disk s d' j \<or>
      d' = dev \<and> (\<exists>q\<in>set p. page_index s q = j \<and> fm_disk w d' j = pg_data (tp_page (pm_pages s q))))"
  using assms by (rule write_async_effect)

section \<open>Completeness\<close>

text \<open>No 257 pages in a row have consecutive numbers.\<close>

definition no_long_run :: "fm \<Rightarrow> pid list \<Rightarrow> bool" where
  "no_long_run s p \<longleftrightarrow> (\<forall>i. i + BIO_MAX_PAGES < length p \<longrightarrow> \<not> consec s p i (BIO_MAX_PAGES + 1))"

definition cover_inv :: "fm \<Rightarrow> pid list \<Rightarrow> nat \<Rightarrow> nat list \<times> nat \<times> pid \<Rightarrow> bool" where
  "cover_inv s p n = (\<lambda>(arr, b, base).
     (\<forall>a<n. \<exists>i\<le>a. a < i + arr ! i) \<and>
     (arr ! b = n - b \<and> n - b < BIO_MAX_PAGES \<or>
      b = n - 1 \<and> arr ! b = 0 \<and> BIO_MAX_PAGES \<le> n \<and> consec s p (n - BIO_MAX_PAGES) BIO_MAX_PAGES))"

lemma merge_step_cover:
  assumes "no_long_run s p" and "merge_inv s p n (arr, b, base)" and "cover_inv s p n (arr, b, base)"
    and "n < length p"
  shows "cover_inv s p (Suc n) (merge_step s p n (arr, b, base))"
proof -
  have inv: "0 < n" "length p \<le> length arr" "base = p ! (n - 1)" "b < n" "arr ! n = 1" "consec s p b (n - b)"
    using assms(2,4) by (auto simp: merge_inv_def)
  have cov: "\<And>a. a < n \<Longrightarrow> \<exists>i\<le>a. a < i + arr ! i" using assms(3) by (auto simp: cover_inv_def)
  show ?thesis
  proof (cases "page_index s base + 1 = page_index s (p ! n)")
    case False
    have "\<exists>i\<le>a. a < i + arr ! i" if "a < Suc n" for a
      using cov [of a] inv(5) that by (cases "a = n") auto
    with False inv(5) show ?thesis by (simp add: merge_step_def cover_inv_def BIO_MAX_PAGES_def)
  next
    case True
    let ?arr = "arr[b := arr ! b + 1, n := 0]"
    have step: "merge_step s p n (arr, b, base) = (?arr, if arr ! b + 1 = BIO_MAX_PAGES then n else b, p ! n)"
      using True inv assms(4) by (simp add: merge_step_def Let_def)
    have A: "arr ! b = n - b \<and> n - b < BIO_MAX_PAGES"
    proof (rule ccontr)
      assume "\<not> ?thesis"
      then have "BIO_MAX_PAGES \<le> n" "consec s p (n - BIO_MAX_PAGES) BIO_MAX_PAGES"
        using assms(3) by (auto simp: cover_inv_def)
      moreover from this have "consec s p (n - BIO_MAX_PAGES) (Suc BIO_MAX_PAGES)"
        using True inv(3) by (intro consec_extend) (auto simp: BIO_MAX_PAGES_def)
      ultimately show False using assms(1,4) by (auto simp: no_long_run_def)
    qed
    have con: "consec s p b (Suc n - b)"
      using consec_extend [OF inv(6)] inv(1,3,4) True by (simp add: Suc_diff_le)
    have cov': "\<exists>i\<le>a. a < i + ?arr ! i" if an: "a < Suc n" for a
    proof (cases "a = n")
      case True
      then show ?thesis using A inv(2,4) assms(4) by (intro exI [of _ b]) auto
    next
      case False
      then obtain i where "i \<le> a" "a < i + arr ! i" using cov [of a] an by auto
      moreover have "i < n" using \<open>i \<le> a\<close> False an by simp
      ultimately show ?thesis using inv(2,4) assms(4) by (intro exI [of _ i]) (auto simp: nth_list_update)
    qed
    show ?thesis
    proof (cases "arr ! b + 1 = BIO_MAX_PAGES")
      case True
      then have "Suc n - BIO_MAX_PAGES = b" "Suc n - b = BIO_MAX_PAGES" using A inv(4) by auto
      with True cov' con inv(2) assms(4) show ?thesis
        unfolding step cover_inv_def by (auto simp: BIO_MAX_PAGES_def)
    next
      case False
      with cov' A inv(2,4) assms(4) show ?thesis unfolding step cover_inv_def by auto
    qed
  qed
qed

lemma compute_merges_cover:
  assumes "no_long_run s p" and "p \<noteq> []" and "length p \<le> m"
  shows "a < length p \<Longrightarrow> covered (compute_merges s p (replicate m 1)) [0..<length p] a"
proof -
  let ?st = "\<lambda>n. fold (merge_step s p) [1..<n] (replicate m 1, 0, p ! 0)"
  have "0 < n \<Longrightarrow> n \<le> length p \<Longrightarrow> cover_inv s p n (?st n)" for n
  proof (induction n)
    case (Suc n)
    show ?case
    proof (cases "n = 0")
      case True
      have "0 < m" using assms(2,3) by (cases p) auto
      with True show ?thesis by (simp add: cover_inv_def BIO_MAX_PAGES_def)
    next
      case False
      then have "merge_inv s p n (?st n)" using Suc.prems assms(3) by (intro merge_inv_upto) auto
      with False Suc merge_step_cover [OF assms(1), of n] show ?thesis by (cases "?st n") auto
    qed
  qed simp
  from this [of "length p"] assms(2)
  show "a < length p \<Longrightarrow> covered (compute_merges s p (replicate m 1)) [0..<length p] a"
    by (fastforce simp: cover_inv_def compute_merges_def covered_def split: prod.splits)
qed

lemma write_async_stores:
  assumes "batch_ok s d dev p" and "no_long_run s p" and "\<And>r. k_written K r = length (io_data r)"
    and "q \<in> set p"
  shows "fm_disk (write_bio_async K p s) dev (page_index s q) = pg_data (tp_page (pm_pages s q)) \<and>
    fm_disk (write_file_async K p s) dev (page_index s q) = pg_data (tp_page (pm_pages s q))"
proof -
  have ne: "p \<noteq> []" using assms(4) by auto
  obtain a where a: "a < length p" "q = p ! a" using assms(4) by (metis in_set_conv_nth)
  have sub: "set [0..<length p] \<subseteq> {..<length p}" by auto
  note w = write_async_disk(1,2) [OF assms(1) ne, of K] write_async_disk(3,4) [OF assms(1) ne]
  note hit = fold_run_disk_hit [OF assms(1) _ _ sub assms(3) _ a(1)]
  have "fm_disk (write_bio_async K p s) dev (page_index s (p ! a)) = batch_data s p a"
    unfolding w(2) using hit [OF _ w(4), of SECTOR_SHIFT] compute_merges_cover [OF assms(2) ne, of "length p + 1" a] a(1)
    by simp
  moreover have "fm_disk (write_file_async K p s) dev (page_index s (p ! a)) = batch_data s p a"
    unfolding w(1) using hit [OF _ w(3), of PAGE_SHIFT] compute_merges_cover [OF assms(2) ne, of "length p" a] a(1)
    by simp
  ultimately show ?thesis by (simp add: a(2) batch_data_def)
qed

text \<open>
  C23. When the devices complete their requests and no 257 pages of the batch are consecutive, both
  write paths store every page of the batch.
\<close>

theorem write_async_complete:
  assumes "batch_ok s d dev p" and "no_long_run s p" and "\<And>r. k_written K r = length (io_data r)"
    and "q \<in> set p"
  shows "fm_disk (write_bio_async K p s) dev (page_index s q) = pg_data (tp_page (pm_pages s q)) \<and>
    fm_disk (write_file_async K p s) dev (page_index s q) = pg_data (tp_page (pm_pages s q))"
  using assms by (rule write_async_stores)

section \<open>The page after a full request\<close>

text \<open>
  Reaching \<^verbatim>\<open>BIO_MAX_PAGES\<close>, the loop makes the page that filled the request the base of the next one,
  although its counter is already 0: the next request starts one page too early and ends one page
  too early.
\<close>

lemma merge_full_run:
  assumes "consec s p 0 (length p)" and "0 < n" and "n \<le> length p" and "n < BIO_MAX_PAGES" and "length p \<le> m"
  shows "fold (merge_step s p) [1..<n] (replicate m 1, 0, p ! 0) =
    (n # replicate (n - 1) 0 @ replicate (m - n) 1, 0, p ! (n - 1))"
  using assms(2-4)
proof (induction n)
  case (Suc n)
  show ?case
  proof (cases "n = 0")
    case True
    have "0 < m" using Suc.prems assms(5) by linarith
    with True show ?thesis by (cases m) auto
  next
    case False
    let ?arr = "n # replicate (n - 1) 0 @ replicate (m - n) 1"
    obtain k where k: "m - n = Suc k" using Suc.prems assms(5) by (cases "m - n") auto
    have "page_index s (p ! (n - 1)) + 1 = page_index s (p ! n)"
      using consec_next [OF assms(1), of n] False Suc.prems by simp
    moreover have "?arr[0 := ?arr ! 0 + 1, n := 0] = Suc n # replicate n 0 @ replicate (m - Suc n) 1"
    proof -
      have "m - Suc n = k" using k by simp
      then show ?thesis
        using False k by (cases n) (auto simp: list_update_append replicate_app_Cons_same)
    qed
    moreover have "?arr[0 := ?arr ! 0 + 1] ! n = 1" using False k by (cases n) (auto simp: nth_append)
    ultimately have "merge_step s p n (?arr, 0, p ! (n - 1)) =
        (Suc n # replicate n 0 @ replicate (m - Suc n) 1, 0, p ! n)"
      using Suc.prems by (simp add: merge_step_def Let_def)
    with Suc False show ?thesis by simp
  qed
qed simp

lemma merge_257:
  assumes "consec s p 0 257" and "length p = 257" and "257 \<le> m"
  shows "compute_merges s p (replicate m 1) = 256 # replicate 254 0 @ [1, 0] @ replicate (m - 257) 1"
proof -
  obtain k where k: "m = 257 + k" using assms(3) le_Suc_ex by blast
  let ?f = "\<lambda>n. fold (merge_step s p) [1..<n] (replicate m 1, 0, p ! 0)"
  have idx: "page_index s (p ! (n - 1)) + 1 = page_index s (p ! n)" if "0 < n" "n < 257" for n
    using consec_next [OF assms(1) that] by simp
  have 255: "?f 255 = (255 # replicate 254 0 @ replicate (m - 255) 1, 0, p ! 254)"
    using merge_full_run [of s p 255 m] assms by (simp add: BIO_MAX_PAGES_def)
  have rep: "replicate (m - 255) (1::nat) = 1 # 1 # replicate (m - 257) 1"
  proof -
    have "m - 255 = Suc (Suc k)" "m - 257 = k" using k by simp_all
    then show ?thesis by simp
  qed
  have 256: "?f 256 = (256 # replicate 254 0 @ [0, 1] @ replicate (m - 257) 1, 255, p ! 255)"
  proof -
    have "[1..<Suc 255] = [1..<255] @ [255]" by (rule upt_Suc_append) simp
    then have "?f 256 = merge_step s p 255 (?f 255)" by simp
    then show ?thesis
      unfolding 255 rep using idx [of 255]
      by (simp add: merge_step_def BIO_MAX_PAGES_def nth_append list_update_append)
  qed
  have "[1..<Suc 256] = [1..<256] @ [256]" by (rule upt_Suc_append) simp
  then have "?f 257 = merge_step s p 256 (?f 256)" by simp
  then show ?thesis
    unfolding 256 compute_merges_def assms(2) using idx [of 256]
    by (simp add: merge_step_def BIO_MAX_PAGES_def nth_append list_update_append)
qed

lemma fold_run_disk_miss:
  assumes "batch_ok s d dev p" and "sh \<le> 12" and "runs_ok s p arr" and "set is \<subseteq> {..<length p}"
    and "\<And>a. a < length p \<Longrightarrow> covered arr is a \<Longrightarrow> page_index s (p ! a) \<noteq> j"
  shows "fold (run_disk K sh dev s p arr) is disk d' j = disk d' j"
  using assms(4,5)
proof (induction "is" rule: rev_induct)
  case (snoc i "is")
  have i: "i < length p" "i + arr ! i \<le> length p" "consec s p i (arr ! i)"
    using snoc.prems(1) assms(3) by (auto simp: runs_ok_def)
  let ?D = "fold (run_disk K sh dev s p arr) is disk"
  have "page_index s (p ! a) \<noteq> j" if "i \<le> a" "a < i + arr ! i" for a
    using snoc.prems(2) [of a] that i(2) by (auto simp: covered_def)
  with run_disk_cases [OF assms(1,2) i, of K ?D d' j] have "run_disk K sh dev s p arr i ?D d' j = ?D d' j"
    by blast
  moreover have "?D d' j = disk d' j"
    using snoc by (auto simp: covered_def)
  ultimately show ?case by simp
qed simp

lemma merge_257_uncovered: "\<not> covered (256 # replicate 254 0 @ [1, 0] @ replicate m 1) [0..<257] 256"
proof -
  have "i + (256 # replicate 254 0 @ [1, 0] @ replicate m 1) ! i \<le> 256" if i: "i < 257" for i :: nat
  proof -
    consider "i = 0" | "0 < i" "i \<le> 254" | "i = 255" | "i = 256" using i by linarith
    then show ?thesis by cases (auto simp: nth_Cons' nth_append)
  qed
  then show ?thesis by (auto simp: covered_def not_less)
qed

text \<open>
  C36. A batch of 257 consecutive pages loses its last page: neither write path changes the store at
  the number of that page, although every request completes.
\<close>

theorem write_async_loses_page:
  assumes "batch_ok s d dev p" and "length p = 257" and "consec s p 0 257"
  shows "fm_disk (write_bio_async K p s) dev (page_index s (p ! 256)) = fm_disk s dev (page_index s (p ! 256)) \<and>
    fm_disk (write_file_async K p s) dev (page_index s (p ! 256)) = fm_disk s dev (page_index s (p ! 256))"
proof -
  have ne: "p \<noteq> []" using assms(2) by auto
  have sub: "set [0..<length p] \<subseteq> {..<length p}" by auto
  note w = write_async_disk(1,2) [OF assms(1) ne, of K] write_async_disk(3,4) [OF assms(1) ne]
  have miss: "page_index s (p ! a) \<noteq> page_index s (p ! 256)"
    if "257 \<le> m" "a < length p" "covered (compute_merges s p (replicate m 1)) [0..<length p] a" for m a
  proof -
    have "a \<noteq> 256" using that merge_257_uncovered merge_257 [OF assms(3,2) that(1)] assms(2) by metis
    then show ?thesis using assms(1,2) that(2) by (auto simp: batch_ok_def distinct_conv_nth)
  qed
  have "fm_disk (write_bio_async K p s) dev (page_index s (p ! 256)) = fm_disk s dev (page_index s (p ! 256))"
    unfolding w(2) using fold_run_disk_miss [OF assms(1) _ w(4) sub miss [of "length p + 1"]] assms(2) by simp
  moreover have "fm_disk (write_file_async K p s) dev (page_index s (p ! 256)) = fm_disk s dev (page_index s (p ! 256))"
    unfolding w(1) using fold_run_disk_miss [OF assms(1) _ w(3) sub miss [of "length p"]] assms(2) by simp
  ultimately show ?thesis by blast
qed

section \<open>Witnesses\<close>

text \<open>Pages whose number is their position, all of device 0.\<close>

definition fm_numbered :: fm where
  "fm_numbered = fm_example\<lparr>pm_pages := (\<lambda>p. tp_example\<lparr>tp_page := (tp_page tp_example)\<lparr>pg_index := word_of_nat p, pg_data := [1]\<rparr>,
     tp_pvd := Some 0\<rparr>)\<rparr>"

lemma fm_numbered_index: "page_index fm_numbered q = word_of_nat q"
  by (simp add: page_index_def fm_numbered_def)

lemma word_of_nat_less_52: "q < 2 ^ 31 \<Longrightarrow> (word_of_nat q :: u64) < 2 ^ 52"
  by (simp add: word_less_nat_alt unat_of_nat take_bit_nat_eq_self)

lemma fm_numbered_batch: "n < 2 ^ 31 \<Longrightarrow> batch_ok fm_numbered 0 0 [0..<n]"
proof -
  assume n: "n < 2 ^ 31"
  have "inj_on (word_of_nat :: nat \<Rightarrow> u64) {..<2 ^ 31}"
    by (rule inj_onI) (auto simp: word_of_nat_eq_iff take_bit_nat_eq_self)
  then have "inj_on (page_index fm_numbered) {0..<n}"
    using n by (auto simp: inj_on_def fm_numbered_index)
  moreover have "tp_pvd (pm_pages fm_numbered q) = Some 0" "pvd_bk (fm_pvd fm_numbered 0) = Some 0" for q
    by (simp_all add: fm_numbered_def fm_example_def pvd_example_def)
  moreover have "page_index fm_numbered q < 2 ^ 52" if "q < n" for q
    unfolding fm_numbered_index using n that by (intro word_of_nat_less_52) linarith
  ultimately show ?thesis using n by (auto simp: batch_ok_def distinct_map)
qed

theorem write_async_safe_witness:
  "fm_disk (write_bio_async kernel_example [0..<3] fm_numbered) 7 0 = []"
proof -
  have "fm_disk fm_numbered 7 0 = []" by (simp add: fm_numbered_def fm_example_def)
  moreover have "fm_disk (write_bio_async kernel_example [0..<3] fm_numbered) 7 0 = fm_disk fm_numbered 7 0"
  proof -
    have "(3 :: nat) < 2 ^ 31" by simp
    from write_async_safe [OF fm_numbered_batch [OF this], of kernel_example] show ?thesis
      by (metis insertI1 numeral_neq_zero)
  qed
  ultimately show ?thesis by simp
qed

theorem write_async_complete_witness:
  "fm_disk (write_bio_async kernel_example [0..<3] fm_numbered) 0 2 = [1]"
proof -
  have "no_long_run fm_numbered [0..<3]" by (simp add: no_long_run_def BIO_MAX_PAGES_def)
  from write_async_complete [OF fm_numbered_batch [of 3] this, of kernel_example 2] show ?thesis
    by (simp add: kernel_example_def fm_numbered_index) (simp add: fm_numbered_def)
qed

theorem write_async_loses_page_witness:
  "fm_disk (write_bio_async kernel_example [0..<257] fm_numbered) 0 256 = []"
proof -
  have "consec fm_numbered [0..<257] 0 257" by (simp add: consec_def fm_numbered_index)
  from write_async_loses_page [OF fm_numbered_batch [of 257] _ this, of kernel_example]
  have "fm_disk (write_bio_async kernel_example [0..<257] fm_numbered) 0 256 = fm_disk fm_numbered 0 256"
    by (simp add: fm_numbered_index)
  then show ?thesis by (simp add: fm_numbered_def fm_example_def)
qed

end
