(* ===== verification/Queue_Family.thy ===== *)
theory Queue_Family
  imports Page_Fifo
begin

text \<open>
  The arrays of clean and dirty queues of the buffer. The lemmas extend the locale \<open>page_fifo\<close>, so both
  kinds of queue have them.
\<close>

section \<open>Families of queues\<close>

text \<open>
  The buffer has arrays of queues; the number of a page selects the queue. In a well-formed family every
  queue holds exactly the pages that carry the family's tag and whose number selects it, and has room
  for all pages of the buffer.
\<close>

definition tagged_set :: "buffer_id \<Rightarrow> (u64 \<Rightarrow> nat) \<Rightarrow> pages \<Rightarrow> nat \<Rightarrow> pid set" where
  "tagged_set tag h ps q = {p. tp_buffer_id (ps p) = tag \<and> h (tp_index (ps p)) = q}"

definition fam_ok ::
  "buffer_id \<Rightarrow> ('q \<Rightarrow> pid list) \<Rightarrow> ('q \<Rightarrow> int) \<Rightarrow> ('q \<Rightarrow> int) \<Rightarrow> (u64 \<Rightarrow> nat) \<Rightarrow> nat \<Rightarrow> nat \<Rightarrow> (nat \<Rightarrow> 'q) \<Rightarrow> pages \<Rightarrow> bool" where
  "fam_ok tag buf sz maxsz h n tot F ps \<longleftrightarrow>
     (\<forall>p. tp_buffer_id (ps p) = tag \<longrightarrow> p < tot) \<and>
     (\<forall>q<n. fifo_wf tag (buf (F q)) (sz (F q)) (maxsz (F q)) ps \<and> set (buf (F q)) = tagged_set tag h ps q \<and>
        int tot \<le> maxsz (F q))"

lemma tagged_set_set_buffer_id [simp]:
  "tagged_set tag h (set_buffer_id b p ps) q =
     (if b = tag \<and> h (tp_index (ps p)) = q then insert p (tagged_set tag h ps q)
      else tagged_set tag h ps q - {p})"
  by (auto simp: tagged_set_def set_buffer_id_def)

lemma set_buffer_id_index [simp]: "tp_index (set_buffer_id b p ps q) = tp_index (ps q)"
  by (simp add: set_buffer_id_def)

lemma set_buffer_id_tag [simp]: "tp_buffer_id (set_buffer_id b p ps q) = (if q = p then b else tp_buffer_id (ps q))"
  by (simp add: set_buffer_id_def)

lemma fifo_wf_set_buffer_id:
  "fifo_wf tag xs n m ps \<Longrightarrow> p \<notin> set xs \<Longrightarrow> fifo_wf tag xs n m (set_buffer_id b p ps)"
  by (auto simp: fifo_wf_def)

lemma fam_ok_cong:
  assumes "\<And>p. tp_buffer_id (ps' p) = tp_buffer_id (ps p)" and "\<And>p. tp_buffer_id (ps p) \<noteq> BI_NONE \<Longrightarrow> tp_index (ps' p) = tp_index (ps p)"
    and "tag \<noteq> BI_NONE"
  shows "fam_ok tag buf sz maxsz h n tot F ps' = fam_ok tag buf sz maxsz h n tot F ps"
proof -
  have "tagged_set tag h ps' = tagged_set tag h ps" using assms by (auto simp: tagged_set_def fun_eq_iff)
  then show ?thesis using assms(1) by (simp add: fam_ok_def fifo_wf_def)
qed

lemma fam_ok_other:
  assumes "fam_ok tag buf sz maxsz h n tot F ps" and "tp_buffer_id (ps p) \<noteq> tag" and "b \<noteq> tag"
  shows "fam_ok tag buf sz maxsz h n tot F (set_buffer_id b p ps)"
proof -
  have "p \<notin> tagged_set tag h ps q" for q using assms(2) by (simp add: tagged_set_def)
  with assms(1,3) show ?thesis by (auto simp: fam_ok_def intro: fifo_wf_set_buffer_id)
qed

lemma fam_member:
  assumes "fam_ok tag buf sz maxsz h n tot F ps" and "q < n"
  shows "p \<in> set (buf (F q)) \<longleftrightarrow> tp_buffer_id (ps p) = tag \<and> h (tp_index (ps p)) = q"
  using assms by (simp add: fam_ok_def tagged_set_def)

lemma fam_fits:
  assumes "fam_ok tag buf sz maxsz h n tot F ps" and "q < n"
  shows "sz (F q) \<le> int tot"
proof -
  have "set (buf (F q)) \<subseteq> {..<tot}" using assms by (auto simp: fam_ok_def tagged_set_def)
  then have "card (set (buf (F q))) \<le> tot" using card_mono [of "{..<tot}"] by fastforce
  moreover have "distinct (buf (F q))" "sz (F q) = int (length (buf (F q)))"
    using assms by (auto simp: fam_ok_def fifo_wf_def)
  ultimately show ?thesis using distinct_card [of "buf (F q)"] by simp
qed

text \<open>Replacing one queue of the family.\<close>

lemma fam_ok_update:
  assumes "fam_ok tag buf sz maxsz h n tot F ps" and "h (tp_index (ps p)) = q" and "q < n"
    and "fifo_wf tag (buf f) (sz f) (maxsz f) (set_buffer_id b p ps)"
    and "set (buf f) = (if b = tag then insert p (set (buf (F q))) else set (buf (F q)) - {p})"
    and "maxsz f = maxsz (F q)" and "b = tag \<Longrightarrow> p < tot"
  shows "fam_ok tag buf sz maxsz h n tot (F(q := f)) (set_buffer_id b p ps)"
proof -
  have "fifo_wf tag (buf (F q')) (sz (F q')) (maxsz (F q')) (set_buffer_id b p ps) \<and>
      set (buf (F q')) = tagged_set tag h (set_buffer_id b p ps) q'" if "q' < n" "q' \<noteq> q" for q'
  proof -
    have "p \<notin> tagged_set tag h ps q'" using assms(2) that(2) by (simp add: tagged_set_def)
    then show ?thesis using assms(1,2) that by (auto simp: fam_ok_def intro: fifo_wf_set_buffer_id)
  qed
  with assms show ?thesis unfolding fam_ok_def by (auto split: if_splits)
qed

context page_fifo
begin

abbreviation fam :: "(u64 \<Rightarrow> nat) \<Rightarrow> nat \<Rightarrow> nat \<Rightarrow> (nat \<Rightarrow> 'q) \<Rightarrow> pages \<Rightarrow> bool" where
  "fam \<equiv> fam_ok tag buf sz maxsz"

lemma fam_enq:
  assumes "fam h n tot F ps" and "tp_buffer_id (ps p) \<noteq> tag" and "p < tot"
    and "h (tp_index (ps p)) = q" and "q < n"
  shows "\<exists>f. enq (F q) p ps = (0, f, set_buffer_id tag p ps) \<and> buf f = buf (F q) @ [p] \<and> maxsz f = maxsz (F q) \<and>
    fam h n tot (F(q := f)) (set_buffer_id tag p ps)"
proof -
  have "sz (F q) \<le> maxsz (F q)" using fam_fits [OF assms(1,5)] assms(1,5) by (fastforce simp: fam_ok_def)
  moreover have wfq: "wf (F q) ps" using assms(1,5) by (simp add: fam_ok_def)
  ultimately obtain f where f: "enq (F q) p ps = (0, f, set_buffer_id tag p ps)"
    "buf f = buf (F q) @ [p]" "sz f = sz (F q) + 1" "maxsz f = maxsz (F q)"
    using enq_room [of "F q" p ps] wf_sz [OF wfq] by auto
  note wfq
  moreover have "p \<notin> set (buf (F q))" using fam_member [OF assms(1,5)] assms(2) by simp
  ultimately have "wf f (set_buffer_id tag p ps)" using enq_wf f(1) by blast
  with f show ?thesis using assms by (auto intro!: fam_ok_update)
qed

lemma fam_rem:
  assumes "fam h n tot F ps" and "tp_buffer_id (ps p) = tag" and "h (tp_index (ps p)) = q" and "q < n"
  shows "\<exists>f. rem (F q) p ps = (f, set_buffer_id BI_NONE p ps) \<and> buf f = remove1 p (buf (F q)) \<and>
    fam h n tot (F(q := f)) (set_buffer_id BI_NONE p ps)"
proof -
  have wfq: "wf (F q) ps" using assms(1,4) by (simp add: fam_ok_def)
  have pin: "p \<in> set (buf (F q))" using fam_member [OF assms(1,4)] assms(2,3) by simp
  then have "0 < sz (F q)" "sz (F q) < 2 ^ 64" using wf_sz [OF wfq] by auto
  from rem_page [OF this, of p ps]
  obtain f where f: "rem (F q) p ps = (f, set_buffer_id BI_NONE p ps)" "buf f = remove1 p (buf (F q))"
    "maxsz f = maxsz (F q)" by auto
  note wfq pin
  then have "wf f (set_buffer_id BI_NONE p ps)" "set (buf f) = set (buf (F q)) - {p}"
    using rem_wf f(1) by blast+
  then have "fam h n tot (F(q := f)) (set_buffer_id BI_NONE p ps)"
    by (intro fam_ok_update [OF assms(1,3,4)]) (use f(3) tag_not_none in auto)
  with f show ?thesis by blast
qed

lemma fam_deq_if:
  assumes "fam h n tot F ps" and "q < n" and "deq_if (F q) c ps = (r, f, ps')"
    and keep: "\<And>p x. tp_buffer_id (snd (c p ps) x) = tp_buffer_id (ps x)"
      "\<And>p x. tp_index (snd (c p ps) x) = tp_index (ps x)"
  shows "fam h n tot (F(q := f)) ps' \<and>
    (case r of None \<Rightarrow> ps' = ps \<or> (\<exists>p. buf (F q) \<noteq> [] \<and> hd (buf (F q)) = p \<and> c p ps = (False, ps'))
     | Some p \<Rightarrow> tp_buffer_id (ps p) = tag \<and> h (tp_index (ps p)) = q \<and> fst (c p ps) \<and>
         ps' = set_buffer_id BI_NONE p (snd (c p ps)))"
proof -
  have wfq: "wf (F q) ps" using assms(1,2) by (simp add: fam_ok_def)
  note w = deq_if_wf [OF wfq assms(3) keep(1)]
  have famc: "fam h n tot F (snd (c p ps))" for p
    using fam_ok_cong [of "snd (c p ps)" ps, OF keep(1) keep(2) tag_not_none] assms(1) by blast
  show ?thesis
  proof (cases "buf (F q)")
    case Nil
    with deq_if_empty [of "F q" c ps] assms(1,3) show ?thesis by auto
  next
    case (Cons p rest)
    with wf_sz [OF wfq] have nz: "0 < sz (F q)" "sz (F q) < 2 ^ 64" by auto
    have p: "tp_buffer_id (ps p) = tag" "h (tp_index (ps p)) = q"
      using fam_member [OF assms(1,2), of p] Cons by auto
    obtain ok ps1 where c: "c p ps = (ok, ps1)" by fastforce
    have k1: "tp_index (ps1 x) = tp_index (ps x)" for x using keep(2) [of p x] c by simp
    show ?thesis
    proof (cases ok)
      case True
      then have eq: "r = Some p" "ps' = set_buffer_id BI_NONE p ps1" "buf f = rest" "maxsz f = maxsz (F q)"
        using deq_if_yes [OF nz Cons, of c ps ps1] c assms(3) by auto
      have "set rest = set (buf (F q)) - {p}" using Cons wfq by (auto simp: fifo_wf_def)
      with eq w famc [of p] c True p tag_not_none assms(2) k1 show ?thesis
        by (auto intro!: fam_ok_update)
    next
      case False
      then have eq: "r = None" "ps' = ps1" "buf f = rest @ [p]" "maxsz f = maxsz (F q)"
        using deq_if_no [of "F q" p rest c ps ps1] nz Cons c assms(3) by auto
      moreover have "set (buf f) = tagged_set tag h ps1 q"
        using famc [of p] assms(2) eq(3) Cons c unfolding fam_ok_def by (metis set_append list.simps(15) sup_commute list.set(1) insert_is_Un snd_conv)
      then have "fam h n tot (F(q := f)) ps1"
        using famc [of p] w eq c assms(2) unfolding fam_ok_def by simp
      ultimately show ?thesis using c False Cons by simp
    qed
  qed
qed

lemma fam_deq:
  assumes "fam h n tot F ps" and "q < n" and "deq (F q) ps = (r, f, ps')"
  shows "fam h n tot (F(q := f)) ps' \<and>
    (case r of None \<Rightarrow> ps' = ps \<and> f = F q \<and> buf (F q) = []
     | Some p \<Rightarrow> tp_buffer_id (ps p) = tag \<and> h (tp_index (ps p)) = q \<and> buf (F q) = p # buf f \<and>
         ps' = set_buffer_id BI_NONE p ps)"
proof (cases "buf (F q)")
  case Nil
  with deq_empty [of "F q" ps] assms show ?thesis by auto
next
  case (Cons p rest)
  have wfq: "wf (F q) ps" using assms(1,2) by (simp add: fam_ok_def)
  with Cons wf_sz have nz: "0 < sz (F q)" "sz (F q) < 2 ^ 64" by auto
  have p: "tp_buffer_id (ps p) = tag" "h (tp_index (ps p)) = q"
    using fam_member [OF assms(1,2), of p] Cons by auto
  from deq_first [OF nz Cons, of ps] assms(3)
  have eq: "r = Some p" "ps' = set_buffer_id BI_NONE p ps" "buf f = rest" "maxsz f = maxsz (F q)" by auto
  have "set rest = set (buf (F q)) - {p}" using Cons wfq by (auto simp: fifo_wf_def)
  moreover have "wf f ps'" using deq_wf [OF wfq assms(3)] by blast
  ultimately have "fam h n tot (F(q := f)) ps'" unfolding eq(2)
    by (intro fam_ok_update [OF assms(1) p(2) assms(2)]) (use eq tag_not_none in auto)
  with eq p Cons show ?thesis by simp
qed

end

end
