(* ===== verification/Fifo_Buffer.thy ===== *)
theory Fifo_Buffer
  imports Write_Back Queue_Family
begin

text \<open>
  \<^verbatim>\<open>mmap_generational_fifo_buffer.c\<close> and \<^verbatim>\<open>mmap_banked_buffer.c\<close>: the queues of the buffer, purging clean
  pages, and setting the buffer up and down. An
  operation on a queue runs under the queue's lock and is one step. The banked buffer has one bank
  and only takes the bank's lock, so its wrappers have the behaviour of the bank's functions.
\<close>

section \<open>Queues of a page\<close>

definition clean_q :: "u64 \<Rightarrow> nat" where
  "clean_q index = unat index mod NUM_QUEUES"

text \<open>512 consecutive pages belong to the same dirty queue.\<close>

definition dirty_q :: "u64 \<Rightarrow> nat" where
  "dirty_q index = unat (drop_bit 9 index) mod EVICTOR_THREADS"

definition p_index :: "'a page_map_scheme \<Rightarrow> pid \<Rightarrow> u64" where
  "p_index s p = tp_index (pm_pages s p)"

definition enq_clean :: "nat \<Rightarrow> pid \<Rightarrow> fm \<Rightarrow> int \<times> fm" where
  "enq_clean q p s =
     (let (ret, f, ps) = lp_enqueue (fb_primary s q) p (pm_pages s)
      in (ret, s\<lparr>fb_primary := (fb_primary s)(q := f), pm_pages := ps\<rparr>))"

definition rem_clean :: "nat \<Rightarrow> pid \<Rightarrow> fm \<Rightarrow> fm" where
  "rem_clean q p s =
     (let (f, ps) = lp_remove (fb_primary s q) p (pm_pages s)
      in s\<lparr>fb_primary := (fb_primary s)(q := f), pm_pages := ps\<rparr>)"

definition enq_dirty :: "nat \<Rightarrow> pid \<Rightarrow> fm \<Rightarrow> int \<times> fm" where
  "enq_dirty q p s =
     (let (ret, f, ps) = d_enqueue (fb_dirty s q) p (pm_pages s)
      in (ret, s\<lparr>fb_dirty := (fb_dirty s)(q := f), pm_pages := ps\<rparr>))"

definition rem_dirty :: "nat \<Rightarrow> pid \<Rightarrow> fm \<Rightarrow> fm" where
  "rem_dirty q p s =
     (let (f, ps) = d_remove (fb_dirty s q) p (pm_pages s)
      in s\<lparr>fb_dirty := (fb_dirty s)(q := f), pm_pages := ps\<rparr>)"

section \<open>Inserting and moving pages\<close>

text \<open>The result of \<^verbatim>\<open>enqueue\<close> is only looked at by assertions that are compiled out.\<close>

definition clear_dirty :: "tagged_page \<Rightarrow> tagged_page" where
  "clear_dirty tp = ClearTaggedPageDirty (tp\<lparr>tp_is_dirty := 0\<rparr>)"

definition insert_page_fifo_buffer_t :: "pid \<Rightarrow> bool \<Rightarrow> fm \<Rightarrow> fm" where
  "insert_page_fifo_buffer_t p clear s =
     (let (ret, s) = enq_clean (clean_q (p_index s p)) p s
      in if clear then upd_page p clear_dirty s else s)"

definition move_page_c2d_fifo_buffer_t :: "pid \<Rightarrow> fm \<Rightarrow> fm" where
  "move_page_c2d_fifo_buffer_t p s =
     (let ID = dirty_q (p_index s p);
          s = rem_clean (clean_q (p_index s p)) p s
      in snd (enq_dirty ID p s))"

definition move_page_d2c_fifo_buffer_t :: "pid \<Rightarrow> fm \<Rightarrow> fm" where
  "move_page_d2c_fifo_buffer_t p s =
     (let ID = dirty_q (p_index s p);
          cq = clean_q (p_index s p);
          s = rem_dirty ID p s;
          s = snd (enq_clean cq p s)
      in upd_page p clear_dirty s)"

definition hit_page_fifo_buffer_t :: "pid \<Rightarrow> fm \<Rightarrow> fm" where
  "hit_page_fifo_buffer_t p s =
     (let cq = clean_q (p_index s p);
          s = rem_clean cq p s
      in snd (enq_clean cq p s))"

definition change_page_priority_fifo_buffer_t :: "kernel \<Rightarrow> u64 \<Rightarrow> nat \<Rightarrow> nat \<Rightarrow> fm \<Rightarrow> int \<times> fm" where
  "change_page_priority_fifo_buffer_t K physical_addr pvd new_pri s =
     (case radix_lookup K s pvd physical_addr of
        None \<Rightarrow> (0, s)
      | Some p \<Rightarrow>
          (case lp_change_priority (fb_primary s (clean_q (p_index s p))) new_pri p of
             None \<Rightarrow> (1, s\<lparr>fm_bug := True\<rparr>)
           | Some f \<Rightarrow> (1, s\<lparr>fb_primary := (fb_primary s)(clean_q (p_index s p) := f)\<rparr>)))"

definition reset_state_fifo_buffer_t :: "fm \<Rightarrow> fm" where
  "reset_state_fifo_buffer_t s =
     s\<lparr>fb_primary := (\<lambda>q. if q < NUM_QUEUES then lp_reset (fb_primary s q) else fb_primary s q)\<rparr>"

definition update_runtime_parameters_fifo_buffer_t :: "buf_rt_params \<Rightarrow> fm \<Rightarrow> int \<times> fm" where
  "update_runtime_parameters_fifo_buffer_t rt s =
     (0, s\<lparr>fb_rt_params := copy_rt_params (fb_rt_params s) rt\<rparr>)"

definition page_in_buffer_fifo_buffer_t :: "fm \<Rightarrow> pid \<Rightarrow> bool" where
  "page_in_buffer_fifo_buffer_t s p =
     (is_tagged_page_in_a_buffer (pm_pages s p) BI_CLEAN \<or> is_tagged_page_in_a_buffer (pm_pages s p) BI_DIRTY)"

section \<open>Draining and purging\<close>

text \<open>
  \<^verbatim>\<open>drain_page\<close>. With \<open>page_locked\<close> false it waits for the lock; \<open>None\<close> means that it waits. A page without
  backing object makes the code follow a NULL pointer.
\<close>

definition drain_page :: "kernel \<Rightarrow> pid \<Rightarrow> bool \<Rightarrow> fm \<Rightarrow> fm option" where
  "drain_page K p page_locked s =
     (let (r, tp) = (if page_locked then (0, pm_pages s p) else trylock_tp (pm_pages s p) ULONG_MAX)
      in if r \<noteq> 0 then None
         else let s = upd_page p (\<lambda>_. tp) s
              in case tp_pvd (pm_pages s p) of
                   None \<Rightarrow> Some (s\<lparr>fm_bug := True\<rparr>)
                 | Some d \<Rightarrow>
                     (let s = radix_delete K d (p_index s p) s;
                          s = drain_mappings K p s
                      in Some (free_page_lock p s)))"

definition deq_clean :: "nat \<Rightarrow> fm \<Rightarrow> pid option \<times> fm" where
  "deq_clean q s =
     (let (r, f, ps) = lp_dequeue (fb_primary s q) (pm_pages s)
      in (r, s\<lparr>fb_primary := (fb_primary s)(q := f), pm_pages := ps\<rparr>))"

text \<open>
  The loop of \<^verbatim>\<open>try_purge_pages\<close> from the label \<^verbatim>\<open>retry\<close> on. It retries for ever when every page of the
  queue is locked, so it has fuel; \<open>None\<close> is the end of the fuel.
\<close>

fun try_purge_retry :: "kernel \<Rightarrow> nat \<Rightarrow> nat \<Rightarrow> nat \<Rightarrow> nat \<Rightarrow> nat \<Rightarrow> fm \<Rightarrow> fm option" where
  "try_purge_retry K 0 target q iter num s = None"
| "try_purge_retry K (Suc fuel) target q iter num s =
     (case deq_clean q s of
        (None, s) \<Rightarrow> Some s
      | (Some p, s) \<Rightarrow>
          if is_page_pinned (pm_pages s p)
          then try_purge_retry K fuel target q iter num (snd (enq_clean q p s))
          else let (r, tp) = trylock_tp (pm_pages s p) ULONG_MAX
               in if r \<noteq> 0 then try_purge_retry K fuel target q iter num (snd (enq_clean q p s))
                  else (case drain_page K p True (upd_page p (\<lambda>_. tp) s) of
                          None \<Rightarrow> None
                        | Some s \<Rightarrow>
                            if num + 1 = target then Some s
                            else if iter + 1 \<ge> target then Some s
                            else try_purge_retry K fuel target q (iter + 1) (num + 1) s))"

definition try_purge_pages :: "kernel \<Rightarrow> nat \<Rightarrow> nat \<Rightarrow> nat \<Rightarrow> fm \<Rightarrow> fm option" where
  "try_purge_pages K fuel target q s =
     (if 1 \<ge> target then Some s else try_purge_retry K fuel target q 1 0 s)"

text \<open>\<^verbatim>\<open>deq\<close>, the condition of the purge: not while the backing object is being unlinked.\<close>

definition deq :: "(nat \<Rightarrow> pr_vma_data) \<Rightarrow> pid \<Rightarrow> pages \<Rightarrow> bool \<times> pages" where
  "deq pvds p ps =
     (if (case tp_pvd (ps p) of None \<Rightarrow> False | Some d \<Rightarrow> pvd_during_unlink (pvds d) = 1) then (False, ps)
      else let (r, tp) = trylock_tp (ps p) ULONG_MAX
           in if r \<noteq> 0 then (False, ps) else (True, ps(p := tp)))"

definition deq_if_clean :: "nat \<Rightarrow> (pid \<Rightarrow> pages \<Rightarrow> bool \<times> pages) \<Rightarrow> fm \<Rightarrow> pid option \<times> fm" where
  "deq_if_clean q c s =
     (let (r, f, ps) = lp_dequeue_if (fb_primary s q) c (pm_pages s)
      in (r, s\<lparr>fb_primary := (fb_primary s)(q := f), pm_pages := ps\<rparr>))"

definition PURGE_N :: nat where "PURGE_N = 192"

text \<open>One round of the first loop of \<^verbatim>\<open>try_purge_pages_fast\<close>.\<close>

definition purge_one ::
  "kernel \<Rightarrow> nat \<Rightarrow> evictor_tlb list \<times> pid list \<times> fm \<Rightarrow> evictor_tlb list \<times> pid list \<times> fm" where
  "purge_one K q = (\<lambda>(etlb, pgs, s).
     case deq_if_clean q (deq (fm_pvd s)) s of
       (None, s) \<Rightarrow> (etlb, pgs, s)
     | (Some p, s) \<Rightarrow>
         (case tp_pvd (pm_pages s p) of
            None \<Rightarrow> (etlb, pgs, s\<lparr>fm_bug := True\<rparr>)
          | Some d \<Rightarrow>
              (let s = radix_delete K d (p_index s p) s;
                   (et, s) = remove_mappings K p (Some etlb, s)
               in (case et of None \<Rightarrow> etlb | Some et \<Rightarrow> et, pgs @ [p], s))))"

definition try_purge_pages_fast :: "kernel \<Rightarrow> nat \<Rightarrow> nat \<Rightarrow> fm \<Rightarrow> nat \<times> fm" where
  "try_purge_pages_fast K N qid s =
     (let (etlb, pgs, s) = (purge_one K qid ^^ PURGE_N) (etlb_init, [], s)
      in if length pgs = 0 then (0, s)
         else let s = flush_etlb (\<lambda>s mm. mm) etlb s;
                  s = fold free_page_lock pgs s
              in (length pgs, s))"

section \<open>Setting up and tearing down\<close>

definition init_params_fifo_buffer_t :: "kernel \<Rightarrow> buf_ld_params \<Rightarrow> fm \<Rightarrow> int \<times> fm" where
  "init_params_fifo_buffer_t K ld s =
     (let mmap_buf_size = nat (ld_mmap_buf_size ld);
          s = s\<lparr>fb_ld_params := copy_ld_params (fb_ld_params s) ld\<rparr>;
          s = s\<lparr>fb_size := mmap_buf_size\<rparr>;
          s = s\<lparr>fb_primary := (\<lambda>i. if i < NUM_QUEUES then lp_init (int (fb_size s + ncpus K)) else fb_primary s i)\<rparr>;
          s = s\<lparr>fb_dirty := (\<lambda>i. if i < EVICTOR_THREADS then d_init (int (fb_size s + ncpus K)) else fb_dirty s i)\<rparr>;
          num_free_pages = fb_size s;
          s = init_hash_table_free_pages (k_topo K) num_free_pages s;
          s = s\<lparr>fb_active_evictors := 0\<rparr>;
          s = s\<lparr>fb_evictor_run := True\<rparr>
      in (0, s\<lparr>fb_active_evictors := fb_active_evictors s + int EVICTOR_THREADS\<rparr>))"

text \<open>
  \<^verbatim>\<open>cleanup_params_fifo_buffer_t\<close> drains the clean queues; each page is waited for, so a page that is
  locked by nobody who runs makes it wait for ever (\<open>None\<close>). The queue shrinks with each round.
\<close>

fun drain_queue :: "kernel \<Rightarrow> nat \<Rightarrow> nat \<Rightarrow> fm \<Rightarrow> fm option" where
  "drain_queue K 0 q s = Some s"
| "drain_queue K (Suc n) q s =
     (case deq_clean q s of
        (None, s) \<Rightarrow> Some s
      | (Some p, s) \<Rightarrow>
          (case drain_page K p False s of None \<Rightarrow> None | Some s \<Rightarrow> drain_queue K n q s))"

definition cleanup_params_fifo_buffer_t :: "kernel \<Rightarrow> fm \<Rightarrow> fm option" where
  "cleanup_params_fifo_buffer_t K s =
     fold (\<lambda>q r. case r of None \<Rightarrow> None
                 | Some s \<Rightarrow> drain_queue K (Suc (length (lp_buffer (fb_primary s q)))) q s)
       [0..<NUM_QUEUES] (Some s)"

text \<open>
  \<^verbatim>\<open>cleanup_mmap_buffer_data_fifo_buffer_t\<close> clears \<^verbatim>\<open>evictor_run\<close> and waits for the threads; \<open>None\<close> while one
  is still running.
\<close>

definition stop_evictors :: "fm \<Rightarrow> fm" where
  "stop_evictors s = s\<lparr>fb_evictor_run := False\<rparr>"

definition cleanup_mmap_buffer_data_fifo_buffer_t :: "kernel \<Rightarrow> fm \<Rightarrow> fm option" where
  "cleanup_mmap_buffer_data_fifo_buffer_t K s =
     (if fb_active_evictors s \<noteq> 0 then None
      else Some (free_hash_table (k_topo K) (stop_evictors s)))"

text \<open>\<^verbatim>\<open>init_mmap_buffer_data_fifo_buffer_t\<close>: a zeroed buffer with the given parameters.\<close>

definition init_mmap_buffer_data_fifo_buffer_t :: "buf_ld_params \<Rightarrow> fm \<Rightarrow> fm" where
  "init_mmap_buffer_data_fifo_buffer_t ld s =
     (let s = s\<lparr>pm_total := 0, pm_fl := (\<lambda>c. []), fb_primary := (\<lambda>q. lp_init 0), fb_dirty := (\<lambda>q. d_init 0),
                fb_size := 0, fb_evictor_run := False\<rparr>;
          s = s\<lparr>fb_ld_params := init_ld_params\<rparr>;
          s = s\<lparr>fb_ld_params := copy_ld_params (fb_ld_params s) ld\<rparr>
      in s\<lparr>fb_rt_params := init_rt_params\<rparr>)"

section \<open>The banked buffer\<close>

definition update_runtime_parameters_banked_buffer_t ::
  "buf_rt_params option \<Rightarrow> buf_rt_params \<Rightarrow> fm \<Rightarrow> int \<times> buf_rt_params \<times> fm" where
  "update_runtime_parameters_banked_buffer_t rt_params bank_rt s =
     (let bank_rt = (case rt_params of None \<Rightarrow> bank_rt | Some rt \<Rightarrow> copy_rt_params bank_rt rt);
          (err, s) = update_runtime_parameters_fifo_buffer_t bank_rt s
      in (err, bank_rt, s))"

definition init_params_banked_buffer_t ::
  "kernel \<Rightarrow> buf_ld_params \<Rightarrow> buf_ld_params \<Rightarrow> fm \<Rightarrow> int \<times> buf_ld_params \<times> fm" where
  "init_params_banked_buffer_t K ld bank_ld s =
     (let buf_ld = copy_ld_params bank_ld ld;
          bank_ld_params = copy_ld_params init_ld_params ld;
          bank_ld_params = bank_ld_params\<lparr>ld_mmap_buf_size := ld_mmap_buf_size ld\<rparr>;
          (err, s) = init_params_fifo_buffer_t K bank_ld_params s
      in (err, buf_ld, s))"

section \<open>The invariant of the buffer\<close>

text \<open>
  \<open>buf_inv K D\<close>: the free lists are well formed; the queues hold exactly the pages with their tag;
  pages in a queue are in use, and pages in use belong to the array, to a backing object and to a CPU's
  free list; the radix trees of a backing object map numbers to its pages in use, and every page in a
  queue is found there; the pages in the dirty trees are those in \<open>D\<close>. Between operations \<open>D\<close> is the set
  of pages in dirty queues (\<open>buf_wf\<close>).
\<close>

abbreviation clean_ok :: "'a fifo_buffer_scheme \<Rightarrow> bool" where
  "clean_ok s \<equiv> lpq.fam clean_q NUM_QUEUES (pm_total s) (fb_primary s) (pm_pages s)"

abbreviation dirty_ok :: "'a fifo_buffer_scheme \<Rightarrow> bool" where
  "dirty_ok s \<equiv> dq.fam dirty_q EVICTOR_THREADS (pm_total s) (fb_dirty s) (pm_pages s)"

definition page_ids :: "tagged_page \<Rightarrow> int \<times> nat option \<times> u64 \<times> nat \<times> nat" where
  "page_ids t = (tp_in_use t, tp_pvd t, tp_index t, tp_cpuid t, length (tp_rmap t))"

definition pages_ok :: "kernel \<Rightarrow> 'a page_map_scheme \<Rightarrow> bool" where
  "pages_ok K s \<longleftrightarrow>
     (\<forall>p. tp_buffer_id (pm_pages s p) \<noteq> BI_NONE \<longrightarrow> tp_in_use (pm_pages s p) = 1) \<and>
     (\<forall>p. tp_in_use (pm_pages s p) = 1 \<longrightarrow> p < pm_total s \<and> tp_pvd (pm_pages s p) \<noteq> None \<and>
        tp_cpuid (pm_pages s p) < ncpus K \<and> length (tp_rmap (pm_pages s p)) = MAX_RMAPS_PER_PAGE)"

definition rdx_ok :: "kernel \<Rightarrow> 'a fm_scheme \<Rightarrow> bool" where
  "rdx_ok K s \<longleftrightarrow>
     (\<forall>d c i p. pvd_rdx (fm_pvd s d) c i = Some p \<longrightarrow> c = cpu_of_index K i \<and>
        tp_in_use (pm_pages s p) = 1 \<and> tp_pvd (pm_pages s p) = Some d \<and> p_index s p = i) \<and>
     (\<forall>p d. tp_buffer_id (pm_pages s p) \<noteq> BI_NONE \<longrightarrow> tp_pvd (pm_pages s p) = Some d \<longrightarrow>
        radix_lookup K s d (p_index s p) = Some p)"

definition tree_ok :: "kernel \<Rightarrow> pid set \<Rightarrow> 'a fm_scheme \<Rightarrow> bool" where
  "tree_ok K D s \<longleftrightarrow> (\<forall>d c. dt_wf (pm_pages s) (pvd_dirty_tree (fm_pvd s d) c) \<and>
     set_tree (pvd_dirty_tree (fm_pvd s d) c) =
       {p\<in>D. tp_pvd (pm_pages s p) = Some d \<and> cpu_of_index K (p_index s p) = c})"

definition buf_inv :: "kernel \<Rightarrow> pid set \<Rightarrow> fm \<Rightarrow> bool" where
  "buf_inv K D s \<longleftrightarrow> pm_wf (k_topo K) s \<and> pages_ok K s \<and> clean_ok s \<and> dirty_ok s \<and> rdx_ok K s \<and> tree_ok K D s"

definition dirty_pages :: "'a page_map_scheme \<Rightarrow> pid set" where
  "dirty_pages s = {p. tp_buffer_id (pm_pages s p) = BI_DIRTY}"

definition buf_wf :: "kernel \<Rightarrow> fm \<Rightarrow> bool" where
  "buf_wf K s \<longleftrightarrow> buf_inv K (dirty_pages s) s"

lemma page_ids_simps [simp]:
  "page_ids (t\<lparr>tp_buffer_id := b\<rparr>) = page_ids t" "page_ids (t\<lparr>tp_is_dirty := i\<rparr>) = page_ids t"
  "page_ids (tp_set_locked l t) = page_ids t" "page_ids (tp_set_pg_dirty l t) = page_ids t"
  "page_ids (clear_dirty t) = page_ids t" "page_ids (t\<lparr>tp_page_valid := i\<rparr>) = page_ids t"
  by (simp_all add: page_ids_def tp_set_defs clear_dirty_def ClearTaggedPageDirty_def)

lemma page_idsD:
  assumes "page_ids t = page_ids u"
  shows "tp_in_use t = tp_in_use u" "tp_pvd t = tp_pvd u" "tp_index t = tp_index u"
    "tp_cpuid t = tp_cpuid u" "length (tp_rmap t) = length (tp_rmap u)"
  using assms by (simp_all add: page_ids_def)

lemma q_less [simp]: "clean_q i < NUM_QUEUES" "dirty_q i < EVICTOR_THREADS"
  by (simp_all add: clean_q_def dirty_q_def fm_const_defs)

lemma buf_inv_in_use:
  "buf_inv K D s \<Longrightarrow> tp_buffer_id (pm_pages s p) \<noteq> BI_NONE \<Longrightarrow> tp_in_use (pm_pages s p) = 1"
  by (auto simp: buf_inv_def pages_ok_def)

lemma buf_inv_page:
  assumes "buf_inv K D s" and "tp_in_use (pm_pages s p) = 1"
  shows "p < pm_total s" "\<exists>d. tp_pvd (pm_pages s p) = Some d" "tp_cpuid (pm_pages s p) < ncpus K"
    "length (tp_rmap (pm_pages s p)) = MAX_RMAPS_PER_PAGE" "p \<notin> free_set (k_topo K) s"
  using assms by (auto simp: buf_inv_def pages_ok_def pm_wf_def)

text \<open>
  Which changes of pages, queues and flags the invariant does not see: those that keep the
  identification of every page and do not touch free pages, free lists, radix and dirty trees.
\<close>

lemma pm_wf_cong:
  assumes "pm_wf T s" and "pm_fl s' = pm_fl s" and "pm_total s' = pm_total s"
    and "\<And>p. p \<in> free_set T s \<Longrightarrow> pm_pages s' p = pm_pages s p"
  shows "pm_wf T s'"
proof -
  have "free_set T s' = free_set T s" by (simp add: free_set_def assms(2))
  with assms show ?thesis by (auto simp: pm_wf_def)
qed

lemma tree_ok_cong:
  assumes "\<And>p. p \<in> D \<Longrightarrow> tp_pvd (pm_pages s' p) = tp_pvd (pm_pages s p) \<and> p_index s' p = p_index s p"
    and "\<And>d. pvd_dirty_tree (fm_pvd s' d) = pvd_dirty_tree (fm_pvd s d)" and "tree_ok K D s"
  shows "tree_ok K D s'"
proof -
  have "dt_wf (pm_pages s') (pvd_dirty_tree (fm_pvd s d) c)" for d c
  proof -
    have "set (inorder (pvd_dirty_tree (fm_pvd s d) c)) \<subseteq> D" "dt_wf (pm_pages s) (pvd_dirty_tree (fm_pvd s d) c)"
      using assms(3) by (auto simp: tree_ok_def)
    moreover from this(1) have "map (\<lambda>p. tp_index (pm_pages s' p)) (inorder (pvd_dirty_tree (fm_pvd s d) c)) =
        map (\<lambda>p. tp_index (pm_pages s p)) (inorder (pvd_dirty_tree (fm_pvd s d) c))"
      using assms(1) by (intro map_cong) (auto simp: p_index_def)
    ultimately show ?thesis by (simp only: dt_wf_def)
  qed
  with assms show ?thesis unfolding tree_ok_def by (auto simp: p_index_def)
qed

definition same_frame :: "fm \<Rightarrow> fm \<Rightarrow> bool" where
  "same_frame s s' \<longleftrightarrow> pm_fl s' = pm_fl s \<and> pm_total s' = pm_total s \<and> fm_pvd s' = fm_pvd s \<and>
     (\<forall>p. page_ids (pm_pages s' p) = page_ids (pm_pages s p)) \<and>
     (\<forall>p. tp_in_use (pm_pages s p) \<noteq> 1 \<longrightarrow> pm_pages s' p = pm_pages s p)"

lemma buf_inv_frame:
  assumes inv: "buf_inv K D s" and fr: "same_frame s s'" and q: "clean_ok s'" "dirty_ok s'"
    and b: "\<And>p. tp_buffer_id (pm_pages s' p) \<noteq> BI_NONE \<Longrightarrow> tp_buffer_id (pm_pages s p) = BI_NONE \<Longrightarrow>
      tp_in_use (pm_pages s p) = 1 \<and> (\<forall>d. tp_pvd (pm_pages s p) = Some d \<longrightarrow> radix_lookup K s d (p_index s p) = Some p)"
  shows "buf_inv K D s'"
proof -
  have "page_ids (pm_pages s' p) = page_ids (pm_pages s p)" for p
    using fr unfolding same_frame_def by blast
  note ids = page_idsD [OF this]
  have pvd: "fm_pvd s' = fm_pvd s" and fl: "pm_fl s' = pm_fl s" "pm_total s' = pm_total s"
    and free: "\<And>p. tp_in_use (pm_pages s p) \<noteq> 1 \<Longrightarrow> pm_pages s' p = pm_pages s p"
    using fr unfolding same_frame_def by blast+
  have i: "pm_wf (k_topo K) s" "pages_ok K s" "rdx_ok K s" "tree_ok K D s"
    using inv unfolding buf_inv_def by blast+
  have "tp_in_use (pm_pages s p) \<noteq> 1" if "p \<in> free_set (k_topo K) s" for p
    using i(1) that by (auto simp: pm_wf_def)
  then have "pm_wf (k_topo K) s'"
    by (intro pm_wf_cong [OF i(1) fl] free) blast
  moreover have "pages_ok K s'"
    using i(2) b unfolding pages_ok_def ids fl by blast
  moreover have "rdx_ok K s'"
  proof -
    have "radix_lookup K s d (p_index s p) = Some p"
      if "tp_buffer_id (pm_pages s' p) \<noteq> BI_NONE" "tp_pvd (pm_pages s p) = Some d" for p d
      using b [OF that(1)] i(3) that(2) unfolding rdx_ok_def by blast
    then show ?thesis
      using i(3) by (simp add: rdx_ok_def ids p_index_def pvd radix_lookup_def)
  qed
  moreover have "tree_ok K D s'"
    by (rule tree_ok_cong [OF _ _ i(4)]) (simp_all add: ids p_index_def pvd)
  ultimately show ?thesis using q by (simp add: buf_inv_def)
qed

section \<open>Inserting and moving keep the invariant\<close>

lemma clear_dirty_simps [simp]:
  "tp_buffer_id (clear_dirty t) = tp_buffer_id t" "tp_index (clear_dirty t) = tp_index t"
  "\<not> TaggedPageDirty (clear_dirty t)" "tp_is_dirty (clear_dirty t) = 0"
  "pg_data (tp_page (clear_dirty t)) = pg_data (tp_page t)" "tp_page_valid (clear_dirty t) = tp_page_valid t"
  "tp_rmap (clear_dirty t) = tp_rmap t" "locked_tp (clear_dirty t) = locked_tp t"
  by (simp_all add: clear_dirty_def ClearTaggedPageDirty_def TaggedPageDirty_def tp_set_defs locked_tp_def)

lemma same_frame_page:
  assumes "pm_pages s' = (pm_pages s)(p := t)" and "page_ids t = page_ids (pm_pages s p)"
    and "tp_in_use (pm_pages s p) = 1" and "pm_fl s' = pm_fl s" and "pm_total s' = pm_total s" and "fm_pvd s' = fm_pvd s"
  shows "same_frame s s'"
  using assms by (auto simp: same_frame_def)

lemma fam_upd_page:
  assumes "fam_ok tag buf sz maxsz h n N F ps" and "tp_buffer_id t = tp_buffer_id (ps p)"
    and "tp_index t = tp_index (ps p)"
  shows "fam_ok tag buf sz maxsz h n N F (ps(p := t))"
proof -
  have "tagged_set tag h (ps(p := t)) = tagged_set tag h ps" using assms by (auto simp: tagged_set_def fun_eq_iff)
  moreover have "tp_buffer_id ((ps(p := t)) x) = tp_buffer_id (ps x)" for x using assms(2) by simp
  ultimately show ?thesis using assms(1) unfolding fam_ok_def fifo_wf_def by metis
qed

text \<open>The page \<open>p\<close> has been taken out of the buffers and is found in the radix tree of its object.\<close>

definition held :: "kernel \<Rightarrow> fm \<Rightarrow> pid \<Rightarrow> bool" where
  "held K s p \<longleftrightarrow> tp_in_use (pm_pages s p) = 1 \<and> tp_buffer_id (pm_pages s p) = BI_NONE \<and>
     (\<forall>d. tp_pvd (pm_pages s p) = Some d \<longrightarrow> radix_lookup K s d (p_index s p) = Some p)"

lemma enq_clean_eq:
  assumes "buf_inv K D s" and "tp_in_use (pm_pages s p) = 1" and "tp_buffer_id (pm_pages s p) = BI_NONE"
  obtains f where "enq_clean (clean_q (p_index s p)) p s =
      (0, s\<lparr>fb_primary := (fb_primary s)(clean_q (p_index s p) := f), pm_pages := set_buffer_id BI_CLEAN p (pm_pages s)\<rparr>)"
    and "lp_buffer f = lp_buffer (fb_primary s (clean_q (p_index s p))) @ [p]"
    and "lpq.fam clean_q NUM_QUEUES (pm_total s) ((fb_primary s)(clean_q (p_index s p) := f)) (set_buffer_id BI_CLEAN p (pm_pages s))"
proof -
  have c: "clean_ok s" using assms(1) by (simp add: buf_inv_def)
  have p: "tp_buffer_id (pm_pages s p) \<noteq> BI_CLEAN" "p < pm_total s"
    using assms(3) buf_inv_page(1) [OF assms(1,2)] by simp_all
  from lpq.fam_enq [OF c p, of "clean_q (p_index s p)"] show ?thesis
    using that by (auto simp: enq_clean_def p_index_def)
qed

lemma enq_dirty_eq:
  assumes "buf_inv K D s" and "tp_in_use (pm_pages s p) = 1" and "tp_buffer_id (pm_pages s p) = BI_NONE"
  obtains f where "enq_dirty (dirty_q (p_index s p)) p s =
      (0, s\<lparr>fb_dirty := (fb_dirty s)(dirty_q (p_index s p) := f), pm_pages := set_buffer_id BI_DIRTY p (pm_pages s)\<rparr>)"
    and "d_buffer f = d_buffer (fb_dirty s (dirty_q (p_index s p))) @ [p]"
    and "dq.fam dirty_q EVICTOR_THREADS (pm_total s) ((fb_dirty s)(dirty_q (p_index s p) := f)) (set_buffer_id BI_DIRTY p (pm_pages s))"
proof -
  have c: "dirty_ok s" using assms(1) by (simp add: buf_inv_def)
  have p: "tp_buffer_id (pm_pages s p) \<noteq> BI_DIRTY" "p < pm_total s"
    using assms(3) buf_inv_page(1) [OF assms(1,2)] by simp_all
  from dq.fam_enq [OF c p, of "dirty_q (p_index s p)"] show ?thesis
    using that by (auto simp: enq_dirty_def p_index_def)
qed

lemma rem_clean_eq:
  assumes "buf_inv K D s" and "tp_buffer_id (pm_pages s p) = BI_CLEAN"
  obtains f where "rem_clean (clean_q (p_index s p)) p s =
      s\<lparr>fb_primary := (fb_primary s)(clean_q (p_index s p) := f), pm_pages := set_buffer_id BI_NONE p (pm_pages s)\<rparr>"
    and "lp_buffer f = remove1 p (lp_buffer (fb_primary s (clean_q (p_index s p))))"
    and "lpq.fam clean_q NUM_QUEUES (pm_total s) ((fb_primary s)(clean_q (p_index s p) := f)) (set_buffer_id BI_NONE p (pm_pages s))"
proof -
  have c: "clean_ok s" using assms(1) by (simp add: buf_inv_def)
  from lpq.fam_rem [OF c assms(2), of "clean_q (p_index s p)"] show ?thesis
    using that by (auto simp: rem_clean_def p_index_def)
qed

lemma rem_dirty_eq:
  assumes "buf_inv K D s" and "tp_buffer_id (pm_pages s p) = BI_DIRTY"
  obtains f where "rem_dirty (dirty_q (p_index s p)) p s =
      s\<lparr>fb_dirty := (fb_dirty s)(dirty_q (p_index s p) := f), pm_pages := set_buffer_id BI_NONE p (pm_pages s)\<rparr>"
    and "d_buffer f = remove1 p (d_buffer (fb_dirty s (dirty_q (p_index s p))))"
    and "dq.fam dirty_q EVICTOR_THREADS (pm_total s) ((fb_dirty s)(dirty_q (p_index s p) := f)) (set_buffer_id BI_NONE p (pm_pages s))"
proof -
  have c: "dirty_ok s" using assms(1) by (simp add: buf_inv_def)
  from dq.fam_rem [OF c assms(2), of "dirty_q (p_index s p)"] show ?thesis
    using that by (auto simp: rem_dirty_def p_index_def)
qed

text \<open>A page that changes its buffer: the other family of queues does not see it.\<close>

lemma buf_inv_move:
  assumes inv: "buf_inv K D s" and p: "tp_in_use (pm_pages s p) = 1"
    and s': "pm_pages s' = set_buffer_id b p (pm_pages s)" "pm_fl s' = pm_fl s" "pm_total s' = pm_total s" "fm_pvd s' = fm_pvd s"
    and q: "clean_ok s'" "dirty_ok s'" and b: "b \<noteq> BI_NONE \<Longrightarrow> tp_buffer_id (pm_pages s p) = BI_NONE \<Longrightarrow> held K s p"
  shows "buf_inv K D s'"
proof (rule buf_inv_frame [OF inv _ q])
  show "same_frame s s'"
    by (rule same_frame_page [of _ _ p "(pm_pages s p)\<lparr>tp_buffer_id := b\<rparr>"]) (use s' p in \<open>auto simp: set_buffer_id_def\<close>)
qed (use s'(1) b in \<open>auto simp: held_def split: if_splits\<close>)

lemma enq_clean_inv:
  assumes "buf_inv K D s" and "held K s p"
  shows "buf_inv K D (snd (enq_clean (clean_q (p_index s p)) p s))"
proof -
  have p: "tp_in_use (pm_pages s p) = 1" "tp_buffer_id (pm_pages s p) = BI_NONE" using assms(2) by (auto simp: held_def)
  have d: "dirty_ok s" using assms(1) by (simp add: buf_inv_def)
  from enq_clean_eq [OF assms(1) p] obtain f where f: "enq_clean (clean_q (p_index s p)) p s =
      (0, s\<lparr>fb_primary := (fb_primary s)(clean_q (p_index s p) := f), pm_pages := set_buffer_id BI_CLEAN p (pm_pages s)\<rparr>)"
    "lpq.fam clean_q NUM_QUEUES (pm_total s) ((fb_primary s)(clean_q (p_index s p) := f)) (set_buffer_id BI_CLEAN p (pm_pages s))" by blast
  show ?thesis unfolding f(1) snd_conv
    by (rule buf_inv_move [OF assms(1) p(1), where b = BI_CLEAN])
      (use f(2) assms(2) fam_ok_other [OF d, of p BI_CLEAN] p in auto)
qed

lemma enq_dirty_inv:
  assumes "buf_inv K D s" and "held K s p"
  shows "buf_inv K D (snd (enq_dirty (dirty_q (p_index s p)) p s))"
proof -
  have p: "tp_in_use (pm_pages s p) = 1" "tp_buffer_id (pm_pages s p) = BI_NONE" using assms(2) by (auto simp: held_def)
  have d: "clean_ok s" using assms(1) by (simp add: buf_inv_def)
  from enq_dirty_eq [OF assms(1) p] obtain f where f: "enq_dirty (dirty_q (p_index s p)) p s =
      (0, s\<lparr>fb_dirty := (fb_dirty s)(dirty_q (p_index s p) := f), pm_pages := set_buffer_id BI_DIRTY p (pm_pages s)\<rparr>)"
    "dq.fam dirty_q EVICTOR_THREADS (pm_total s) ((fb_dirty s)(dirty_q (p_index s p) := f)) (set_buffer_id BI_DIRTY p (pm_pages s))" by blast
  show ?thesis unfolding f(1) snd_conv
    by (rule buf_inv_move [OF assms(1) p(1), where b = BI_DIRTY])
      (use f(2) assms(2) fam_ok_other [OF d, of p BI_DIRTY] p in auto)
qed

lemma held_removed:
  assumes "buf_inv K D s" and "tp_buffer_id (pm_pages s p) \<noteq> BI_NONE"
    and "pm_pages s' = set_buffer_id BI_NONE p (pm_pages s)" and "fm_pvd s' = fm_pvd s"
  shows "held K s' p"
  using assms by (auto simp: held_def buf_inv_def pages_ok_def rdx_ok_def p_index_def radix_lookup_def set_buffer_id_def)

lemma rem_clean_inv:
  assumes "buf_inv K D s" and "tp_buffer_id (pm_pages s p) = BI_CLEAN"
  shows "buf_inv K D (rem_clean (clean_q (p_index s p)) p s)" and "held K (rem_clean (clean_q (p_index s p)) p s) p"
proof -
  have p: "tp_in_use (pm_pages s p) = 1" using assms by (auto intro: buf_inv_in_use)
  have d: "dirty_ok s" using assms(1) by (simp add: buf_inv_def)
  from rem_clean_eq [OF assms] obtain f where f: "rem_clean (clean_q (p_index s p)) p s =
      s\<lparr>fb_primary := (fb_primary s)(clean_q (p_index s p) := f), pm_pages := set_buffer_id BI_NONE p (pm_pages s)\<rparr>"
    "lpq.fam clean_q NUM_QUEUES (pm_total s) ((fb_primary s)(clean_q (p_index s p) := f)) (set_buffer_id BI_NONE p (pm_pages s))" by blast
  show "buf_inv K D (rem_clean (clean_q (p_index s p)) p s)" unfolding f(1)
    by (rule buf_inv_move [OF assms(1) p, where b = BI_NONE])
      (use f(2) assms(2) fam_ok_other [OF d, of p BI_NONE] in auto)
  show "held K (rem_clean (clean_q (p_index s p)) p s) p" unfolding f(1)
    by (rule held_removed [OF assms(1)]) (use assms(2) in auto)
qed

lemma rem_dirty_inv:
  assumes "buf_inv K D s" and "tp_buffer_id (pm_pages s p) = BI_DIRTY"
  shows "buf_inv K D (rem_dirty (dirty_q (p_index s p)) p s)" and "held K (rem_dirty (dirty_q (p_index s p)) p s) p"
proof -
  have p: "tp_in_use (pm_pages s p) = 1" using assms by (auto intro: buf_inv_in_use)
  have d: "clean_ok s" using assms(1) by (simp add: buf_inv_def)
  from rem_dirty_eq [OF assms] obtain f where f: "rem_dirty (dirty_q (p_index s p)) p s =
      s\<lparr>fb_dirty := (fb_dirty s)(dirty_q (p_index s p) := f), pm_pages := set_buffer_id BI_NONE p (pm_pages s)\<rparr>"
    "dq.fam dirty_q EVICTOR_THREADS (pm_total s) ((fb_dirty s)(dirty_q (p_index s p) := f)) (set_buffer_id BI_NONE p (pm_pages s))" by blast
  show "buf_inv K D (rem_dirty (dirty_q (p_index s p)) p s)" unfolding f(1)
    by (rule buf_inv_move [OF assms(1) p, where b = BI_NONE])
      (use f(2) assms(2) fam_ok_other [OF d, of p BI_NONE] in auto)
  show "held K (rem_dirty (dirty_q (p_index s p)) p s) p" unfolding f(1)
    by (rule held_removed [OF assms(1)]) (use assms(2) in auto)
qed

section \<open>Specifications of inserting and moving\<close>

lemma buf_inv_flags:
  assumes "buf_inv K D s" and "tp_in_use (pm_pages s p) = 1"
    and "page_ids (f (pm_pages s p)) = page_ids (pm_pages s p)" and "tp_buffer_id (f (pm_pages s p)) = tp_buffer_id (pm_pages s p)"
  shows "buf_inv K D (upd_page p f s)"
proof (rule buf_inv_frame [OF assms(1)])
  have q: "clean_ok s" "dirty_ok s" using assms(1) by (simp_all add: buf_inv_def)
  note ids = assms(4) page_idsD(3) [OF assms(3)]
  show "clean_ok (upd_page p f s)" "dirty_ok (upd_page p f s)"
    using fam_upd_page [of _ _ _ _ _ _ _ _ "pm_pages s" "f (pm_pages s p)" p, OF q(1) ids]
      fam_upd_page [of _ _ _ _ _ _ _ _ "pm_pages s" "f (pm_pages s p)" p, OF q(2) ids] by simp_all
  show "same_frame s (upd_page p f s)"
    by (rule same_frame_page [of _ _ p "f (pm_pages s p)"]) (use assms in auto)
qed (use assms(4) in \<open>auto split: if_splits\<close>)

text \<open>
  Inserting a page that was taken out of the buffers never fails for lack of room: the page is
  the last one of its clean queue and no other queue has changed, the invariant of the buffer is
  kept, and with \<^verbatim>\<open>clear\<close> the page is not dirty.
\<close>

lemma insert_page_spec:
  assumes "buf_inv K D s" and "held K s p"
  shows "buf_inv K D (insert_page_fifo_buffer_t p clear s) \<and>
    (\<forall>q. lp_buffer (fb_primary (insert_page_fifo_buffer_t p clear s) q) =
       lp_buffer (fb_primary s q) @ (if q = clean_q (p_index s p) then [p] else [])) \<and>
    tp_buffer_id (pm_pages (insert_page_fifo_buffer_t p clear s) p) = BI_CLEAN \<and>
    (clear \<longrightarrow> \<not> TaggedPageDirty (pm_pages (insert_page_fifo_buffer_t p clear s) p)) \<and>
    (\<forall>x. x \<noteq> p \<longrightarrow> pm_pages (insert_page_fifo_buffer_t p clear s) x = pm_pages s x)"
proof -
  have p: "tp_in_use (pm_pages s p) = 1" "tp_buffer_id (pm_pages s p) = BI_NONE" using assms(2) by (auto simp: held_def)
  from enq_clean_eq [OF assms(1) p] obtain f where f: "enq_clean (clean_q (p_index s p)) p s =
      (0, s\<lparr>fb_primary := (fb_primary s)(clean_q (p_index s p) := f), pm_pages := set_buffer_id BI_CLEAN p (pm_pages s)\<rparr>)"
    "lp_buffer f = lp_buffer (fb_primary s (clean_q (p_index s p))) @ [p]" by blast
  let ?s = "s\<lparr>fb_primary := (fb_primary s)(clean_q (p_index s p) := f), pm_pages := set_buffer_id BI_CLEAN p (pm_pages s)\<rparr>"
  have "buf_inv K D ?s" using enq_clean_inv [OF assms] by (simp add: f(1))
  moreover have "buf_inv K D (upd_page p clear_dirty ?s)"
    by (rule buf_inv_flags [OF calculation]) (use p(1) in \<open>simp_all add: set_buffer_id_def\<close>)
  ultimately show ?thesis
    by (auto simp: insert_page_fifo_buffer_t_def f set_buffer_id_def)
qed

text \<open>
  Moving a clean page to the dirty buffer: it leaves its clean queue, is the last page of the
  dirty queue its number selects, and the invariant of the buffer is kept.
\<close>

lemma move_page_c2d_spec:
  assumes "buf_inv K D s" and "tp_buffer_id (pm_pages s p) = BI_CLEAN"
  shows "buf_inv K D (move_page_c2d_fifo_buffer_t p s) \<and>
    dirty_pages (move_page_c2d_fifo_buffer_t p s) = insert p (dirty_pages s) \<and>
    (\<forall>q. d_buffer (fb_dirty (move_page_c2d_fifo_buffer_t p s) q) =
       d_buffer (fb_dirty s q) @ (if q = dirty_q (p_index s p) then [p] else [])) \<and>
    pm_pages (move_page_c2d_fifo_buffer_t p s) = set_buffer_id BI_DIRTY p (pm_pages s)"
proof -
  let ?s = "rem_clean (clean_q (p_index s p)) p s"
  note r = rem_clean_inv [OF assms]
  from rem_clean_eq [OF assms] obtain f where f: "?s = s\<lparr>fb_primary := (fb_primary s)(clean_q (p_index s p) := f),
      pm_pages := set_buffer_id BI_NONE p (pm_pages s)\<rparr>" by blast
  have ix: "p_index ?s p = p_index s p" unfolding f by (simp add: p_index_def)
  have p: "tp_in_use (pm_pages ?s p) = 1" "tp_buffer_id (pm_pages ?s p) = BI_NONE" using r(2) by (auto simp: held_def)
  from enq_dirty_eq [OF r(1) p] obtain g where g: "enq_dirty (dirty_q (p_index s p)) p ?s =
      (0, ?s\<lparr>fb_dirty := (fb_dirty ?s)(dirty_q (p_index s p) := g), pm_pages := set_buffer_id BI_DIRTY p (pm_pages ?s)\<rparr>)"
    "d_buffer g = d_buffer (fb_dirty ?s (dirty_q (p_index s p))) @ [p]" unfolding ix by blast
  have mv: "move_page_c2d_fifo_buffer_t p s =
      ?s\<lparr>fb_dirty := (fb_dirty ?s)(dirty_q (p_index s p) := g), pm_pages := set_buffer_id BI_DIRTY p (pm_pages ?s)\<rparr>"
    using g(1) by (simp add: move_page_c2d_fifo_buffer_t_def Let_def)
  have "buf_inv K D (move_page_c2d_fifo_buffer_t p s)"
    using enq_dirty_inv [OF r] by (simp add: ix g(1) mv)
  then show ?thesis
    by (auto simp: mv g(2) f dirty_pages_def set_buffer_id_def)
qed

text \<open>
  Moving a dirty page back to the clean buffer: it leaves its dirty queue, is the last page of its
  clean queue and not dirty any more, and the invariant of the buffer is kept.
\<close>

lemma move_page_d2c_spec:
  assumes "buf_inv K D s" and "tp_buffer_id (pm_pages s p) = BI_DIRTY"
  shows "buf_inv K D (move_page_d2c_fifo_buffer_t p s) \<and>
    dirty_pages (move_page_d2c_fifo_buffer_t p s) = dirty_pages s - {p} \<and>
    (\<forall>q. lp_buffer (fb_primary (move_page_d2c_fifo_buffer_t p s) q) =
       lp_buffer (fb_primary s q) @ (if q = clean_q (p_index s p) then [p] else [])) \<and>
    pm_pages (move_page_d2c_fifo_buffer_t p s) = (pm_pages s)(p := clear_dirty ((pm_pages s p)\<lparr>tp_buffer_id := BI_CLEAN\<rparr>))"
proof -
  let ?s = "rem_dirty (dirty_q (p_index s p)) p s"
  note r = rem_dirty_inv [OF assms]
  from rem_dirty_eq [OF assms] obtain f where f: "?s = s\<lparr>fb_dirty := (fb_dirty s)(dirty_q (p_index s p) := f),
      pm_pages := set_buffer_id BI_NONE p (pm_pages s)\<rparr>" by blast
  have ix: "p_index ?s p = p_index s p" unfolding f by (simp add: p_index_def)
  have p: "tp_in_use (pm_pages ?s p) = 1" "tp_buffer_id (pm_pages ?s p) = BI_NONE" using r(2) by (auto simp: held_def)
  from enq_clean_eq [OF r(1) p] obtain g where g: "enq_clean (clean_q (p_index s p)) p ?s =
      (0, ?s\<lparr>fb_primary := (fb_primary ?s)(clean_q (p_index s p) := g), pm_pages := set_buffer_id BI_CLEAN p (pm_pages ?s)\<rparr>)"
    "lp_buffer g = lp_buffer (fb_primary ?s (clean_q (p_index s p))) @ [p]" unfolding ix by blast
  let ?t = "?s\<lparr>fb_primary := (fb_primary ?s)(clean_q (p_index s p) := g), pm_pages := set_buffer_id BI_CLEAN p (pm_pages ?s)\<rparr>"
  have mv: "move_page_d2c_fifo_buffer_t p s = upd_page p clear_dirty ?t"
    using g(1) by (simp add: move_page_d2c_fifo_buffer_t_def Let_def)
  have "buf_inv K D ?t" using enq_clean_inv [OF r] by (simp add: ix g(1))
  then have "buf_inv K D (move_page_d2c_fifo_buffer_t p s)" unfolding mv
    by (rule buf_inv_flags) (use p(1) in \<open>simp_all add: set_buffer_id_def\<close>)
  then show ?thesis
    by (auto simp: mv g(2) f dirty_pages_def set_buffer_id_def)
qed

section \<open>Purging\<close>

text \<open>
  Every page-table entry maps a page in use and is recorded among the reverse mappings of that page.
\<close>

definition map_inv :: "fm \<Rightarrow> bool" where
  "map_inv s \<longleftrightarrow> (\<forall>p k. maps_page (fm_pte s) p k \<longrightarrow> tp_in_use (pm_pages s p) = 1 \<and>
     (\<exists>i<MAX_RMAPS_PER_PAGE. pvr_is_valid (rmap_of s p i) \<and> rmap_key s p i = k))"

lemma map_inv_complete:
  "map_inv s \<Longrightarrow> length (tp_rmap (pm_pages s p)) = MAX_RMAPS_PER_PAGE \<Longrightarrow> rmap_complete s p"
  unfolding map_inv_def rmap_complete_def by blast

lemma trylock_any_cases:
  "trylock_tp tp ULONG_MAX = (if tp_in_use tp \<noteq> 1 then (-3, tp) else if locked_tp tp then (-1, tp) else (0, tp_set_locked True tp))"
  by (simp add: trylock_tp_def locked_tp_def)

definition can_purge :: "fm \<Rightarrow> pid \<Rightarrow> bool" where
  "can_purge s p \<longleftrightarrow> tp_in_use (pm_pages s p) = 1 \<and> \<not> locked_tp (pm_pages s p) \<and>
     (\<forall>d. tp_pvd (pm_pages s p) = Some d \<longrightarrow> pvd_during_unlink (fm_pvd s d) \<noteq> 1)"

lemma deq_eq:
  "deq (fm_pvd s) p (pm_pages s) =
     (if can_purge s p then (True, (pm_pages s)(p := tp_set_locked True (pm_pages s p))) else (False, pm_pages s))"
  by (auto simp: deq_def trylock_any_cases can_purge_def split: option.splits)

lemma tp_set_locked_simps [simp]:
  "tp_buffer_id (tp_set_locked b t) = tp_buffer_id t" "tp_index (tp_set_locked b t) = tp_index t"
  "tp_in_use (tp_set_locked b t) = tp_in_use t" "tp_pvd (tp_set_locked b t) = tp_pvd t"
  "tp_rmap (tp_set_locked b t) = tp_rmap t" "locked_tp (tp_set_locked b t) = b"
  by (simp_all add: tp_set_defs locked_tp_def)

lemma deq_if_clean_spec:
  assumes inv: "buf_inv K D s" and q: "q < NUM_QUEUES" and d: "deq_if_clean q (deq (fm_pvd s)) s = (r, s')"
  obtains f where "buf_inv K D s'"
    and "case r of None \<Rightarrow> s' = s\<lparr>fb_primary := (fb_primary s)(q := f)\<rparr>
         | Some p \<Rightarrow> tp_buffer_id (pm_pages s p) = BI_CLEAN \<and> clean_q (p_index s p) = q \<and> can_purge s p \<and> held K s' p \<and>
             s' = s\<lparr>fb_primary := (fb_primary s)(q := f),
                    pm_pages := (pm_pages s)(p := (tp_set_locked True (pm_pages s p))\<lparr>tp_buffer_id := BI_NONE\<rparr>)\<rparr>"
proof -
  have ok: "clean_ok s" "dirty_ok s" using inv by (simp_all add: buf_inv_def)
  obtain f ps where f: "lp_dequeue_if (fb_primary s q) (deq (fm_pvd s)) (pm_pages s) = (r, f, ps)"
    using d by (auto simp: deq_if_clean_def split: prod.splits)
  then have s': "s' = s\<lparr>fb_primary := (fb_primary s)(q := f), pm_pages := ps\<rparr>" using d by (simp add: deq_if_clean_def)
  have "tp_buffer_id (snd (deq (fm_pvd s) p (pm_pages s)) x) = tp_buffer_id (pm_pages s x)"
    "tp_index (snd (deq (fm_pvd s) p (pm_pages s)) x) = tp_index (pm_pages s x)" for p x by (simp_all add: deq_eq)
  note w = lpq.fam_deq_if [OF ok(1) q f this]
  show ?thesis
  proof (cases r)
    case None
    then have "ps = pm_pages s" using w by (auto simp: deq_eq split: if_splits)
    moreover from this have "s' = s\<lparr>fb_primary := (fb_primary s)(q := f)\<rparr>" using s' by simp
    moreover from this have "buf_inv K D s'"
      by (intro buf_inv_frame [OF inv]) (use w ok calculation in \<open>auto simp: same_frame_def\<close>)
    ultimately show ?thesis using that None by simp
  next
    case (Some p)
    then have p: "tp_buffer_id (pm_pages s p) = BI_CLEAN" "clean_q (p_index s p) = q" "can_purge s p"
      and ps: "ps = (pm_pages s)(p := (tp_set_locked True (pm_pages s p))\<lparr>tp_buffer_id := BI_NONE\<rparr>)"
      using w by (auto simp: deq_eq p_index_def set_buffer_id_def split: if_splits)
    have u: "tp_in_use (pm_pages s p) = 1" using p(1) inv by (auto intro: buf_inv_in_use)
    have "dq.fam dirty_q EVICTOR_THREADS (pm_total s) (fb_dirty s) ps"
    proof -
      have "ps = set_buffer_id BI_NONE p ((pm_pages s)(p := tp_set_locked True (pm_pages s p)))"
        by (simp add: ps set_buffer_id_def)
      moreover have "dq.fam dirty_q EVICTOR_THREADS (pm_total s) (fb_dirty s) ((pm_pages s)(p := tp_set_locked True (pm_pages s p)))"
        by (rule fam_upd_page [OF ok(2)]) simp_all
      ultimately show ?thesis using p(1) by (auto intro!: fam_ok_other)
    qed
    moreover have "lpq.fam clean_q NUM_QUEUES (pm_total s) ((fb_primary s)(q := f)) ps" using w by blast
    ultimately have qs: "clean_ok s'" "dirty_ok s'" by (simp_all add: s')
    have "same_frame s s'"
      by (rule same_frame_page [of _ _ p "(tp_set_locked True (pm_pages s p))\<lparr>tp_buffer_id := BI_NONE\<rparr>"]) (simp_all add: s' ps u)
    then have inv': "buf_inv K D s'"
      by (rule buf_inv_frame [OF inv _ qs]) (auto simp: s' ps split: if_splits)
    have "held K s' p" using inv p(1) u
      by (auto simp: held_def s' ps p_index_def radix_lookup_def buf_inv_def rdx_ok_def)
    then show ?thesis using that [of f] inv' Some p s' ps by simp
  qed
qed

subsection \<open>What purging one page does\<close>

definition drop_pages :: "pid set \<Rightarrow> ('a \<Rightarrow> pid) \<Rightarrow> 'a option \<Rightarrow> 'a option" where
  "drop_pages P g x = (case x of None \<Rightarrow> None | Some a \<Rightarrow> if g a \<in> P then None else Some a)"

lemma drop_pages_simps [simp]:
  "drop_pages P g None = None" "drop_pages {} g x = x" "drop_pages P g (drop_pages Q g x) = drop_pages (Q \<union> P) g x"
  "drop_pages P g x = Some a \<longleftrightarrow> x = Some a \<and> g a \<notin> P"
  by (auto simp: drop_pages_def split: option.splits)

definition drop_rdx :: "pid set \<Rightarrow> pr_vma_data \<Rightarrow> pr_vma_data" where
  "drop_rdx P v = v\<lparr>pvd_rdx := (\<lambda>c i. drop_pages P (\<lambda>p. p) (pvd_rdx v c i))\<rparr>"

lemma drop_rdx_simps [simp]:
  "pvd_rdx (drop_rdx P v) c i = drop_pages P (\<lambda>p. p) (pvd_rdx v c i)" "drop_rdx P (drop_rdx Q v) = drop_rdx (Q \<union> P) v"
  "pvd_dirty_tree (drop_rdx P v) = pvd_dirty_tree v" "pvd_during_unlink (drop_rdx P v) = pvd_during_unlink v"
  "pvd_bk (drop_rdx P v) = pvd_bk v" "pvd_type (drop_rdx P v) = pvd_type v" "drop_rdx {} v = v"
  by (simp_all add: drop_rdx_def)

text \<open>
  The pages in \<open>P\<close> have been taken out of queue \<open>q\<close>, of the radix trees and of the page tables; they are
  locked.
\<close>

definition purged :: "nat \<Rightarrow> pid set \<Rightarrow> fm \<Rightarrow> fm \<Rightarrow> bool" where
  "purged q P s s' \<longleftrightarrow> pm_fl s' = pm_fl s \<and> pm_total s' = pm_total s \<and> fb_dirty s' = fb_dirty s \<and>
     env_of s' = env_of s \<and>
     (\<forall>p. p \<notin> P \<longrightarrow> pm_pages s' p = pm_pages s p) \<and>
     (\<forall>p\<in>P. tp_buffer_id (pm_pages s p) = BI_CLEAN \<and> clean_q (p_index s p) = q \<and> can_purge s p \<and>
        page_ids (pm_pages s' p) = page_ids (pm_pages s p) \<and> tp_buffer_id (pm_pages s' p) = BI_NONE \<and>
        locked_tp (pm_pages s' p)) \<and>
     (\<forall>d. fm_pvd s' d = drop_rdx P (fm_pvd s d)) \<and>
     (\<forall>k. fm_pte s' k = drop_pages P pte_frame (fm_pte s k))"

lemma purged_none: "s' = s\<lparr>fb_primary := f\<rparr> \<Longrightarrow> purged q {} s s'"
  by (simp add: purged_def env_of_def)

lemma purged_disjoint: "purged q P s s1 \<Longrightarrow> purged q Q s1 s2 \<Longrightarrow> P \<inter> Q = {}"
  unfolding purged_def by (metis buffer_id.distinct(1) disjoint_iff)

lemma purged_trans:
  assumes a: "purged q P s s1" and b: "purged q Q s1 s2"
  shows "purged q (P \<union> Q) s s2"
proof -
  have dis: "P \<inter> Q = {}" by (rule purged_disjoint [OF a b])
  have a': "\<And>p. p \<notin> P \<Longrightarrow> pm_pages s1 p = pm_pages s p" "\<And>d. fm_pvd s1 d = drop_rdx P (fm_pvd s d)"
    using a unfolding purged_def by blast+
  have "can_purge s1 p = can_purge s p" if "p \<notin> P" for p
    using a' that by (simp add: can_purge_def)
  then have "tp_buffer_id (pm_pages s p) = BI_CLEAN \<and> clean_q (p_index s p) = q \<and> can_purge s p \<and>
      page_ids (pm_pages s2 p) = page_ids (pm_pages s p) \<and> tp_buffer_id (pm_pages s2 p) = BI_NONE \<and>
      locked_tp (pm_pages s2 p)" if "p \<in> P \<union> Q" for p
    using that a b dis a'(1) [of p] unfolding purged_def p_index_def by (metis Un_iff disjoint_iff)
  with a b show ?thesis unfolding purged_def by simp
qed

lemma radix_delete_simps [simp]:
  "pm_pages (radix_delete K d i s) = pm_pages s" "pm_fl (radix_delete K d i s) = pm_fl s"
  "pm_total (radix_delete K d i s) = pm_total s" "fb_primary (radix_delete K d i s) = fb_primary s"
  "fb_dirty (radix_delete K d i s) = fb_dirty s" "fm_vma (radix_delete K d i s) = fm_vma s"
  "fm_pte (radix_delete K d i s) = fm_pte s" "fm_disk (radix_delete K d i s) = fm_disk s"
  "env_of (radix_delete K d i s) = env_of s"
  by (simp_all add: radix_delete_def upd_pvd_def env_of_def)

lemma radix_delete_drop:
  assumes "rdx_ok K s" and "tp_pvd (pm_pages s p) = Some d" and "held K s p"
  shows "fm_pvd (radix_delete K d (p_index s p) s) d' = drop_rdx {p} (fm_pvd s d')"
proof -
  let ?i = "p_index s p"
  have iff: "pvd_rdx (fm_pvd s d') c i = Some p \<longleftrightarrow> d' = d \<and> c = cpu_of_index K ?i \<and> i = ?i" for c i
    using assms unfolding rdx_ok_def held_def radix_lookup_def by (metis option.inject)
  have here: "pvd_rdx (fm_pvd s d) (cpu_of_index K ?i) ?i = Some p"
    using assms(2,3) by (simp add: held_def radix_lookup_def)
  have "pvd_rdx (fm_pvd (radix_delete K d ?i s) d') c i = drop_pages {p} (\<lambda>p. p) (pvd_rdx (fm_pvd s d') c i)" for c i
  proof (cases "d' = d \<and> c = cpu_of_index K ?i \<and> i = ?i")
    case True
    with here show ?thesis by (simp add: radix_delete_def upd_pvd_def drop_pages_def)
  next
    case False
    then have "pvd_rdx (fm_pvd s d') c i \<noteq> Some p" using iff by simp
    with False show ?thesis by (auto simp: radix_delete_def upd_pvd_def drop_pages_def split: option.splits)
  qed
  then have "pvd_rdx (fm_pvd (radix_delete K d ?i s) d') = (\<lambda>c i. drop_pages {p} (\<lambda>p. p) (pvd_rdx (fm_pvd s d') c i))"
    by (intro ext)
  then show ?thesis by (cases "d' = d") (simp_all add: drop_rdx_def radix_delete_def upd_pvd_def)
qed

lemma buf_inv_drop_rdx:
  assumes "buf_inv K D s" and "\<And>d. fm_pvd s' d = drop_rdx P (fm_pvd s d)"
    and "\<And>p. p \<in> P \<Longrightarrow> tp_buffer_id (pm_pages s p) = BI_NONE"
    and "pm_pages s' = pm_pages s" "pm_fl s' = pm_fl s" "pm_total s' = pm_total s" "fb_primary s' = fb_primary s" "fb_dirty s' = fb_dirty s"
  shows "buf_inv K D s'"
proof -
  have i: "pm_wf (k_topo K) s" "pages_ok K s" "rdx_ok K s" "tree_ok K D s" "clean_ok s" "dirty_ok s"
    using assms(1) unfolding buf_inv_def by blast+
  have "pm_wf (k_topo K) s'" by (rule pm_wf_cong [OF i(1)]) (simp_all add: assms(4-))
  moreover have "rdx_ok K s'" using i(3) assms(3) by (auto simp: rdx_ok_def radix_lookup_def assms(2,4) p_index_def)
  moreover have "tree_ok K D s'"
    by (rule tree_ok_cong [OF _ _ i(4)]) (simp_all add: assms(2,4) p_index_def)
  ultimately show ?thesis using i by (simp add: buf_inv_def pages_ok_def assms(4-))
qed

lemma unmap_page_ids:
  assumes "unmap_effect p I s s'"
  shows "page_ids (pm_pages s' x) = page_ids (pm_pages s x)" "tp_buffer_id (pm_pages s' x) = tp_buffer_id (pm_pages s x)"
    "locked_tp (pm_pages s' x) = locked_tp (pm_pages s x)" "x \<noteq> p \<Longrightarrow> pm_pages s' x = pm_pages s x"
proof -
  obtain r b where "pm_pages s' = (pm_pages s)(p := (tp_set_pg_dirty b (pm_pages s p))\<lparr>tp_rmap := r\<rparr>)"
    "length r = length (tp_rmap (pm_pages s p))"
    using assms by (auto simp: unmap_effect_def unmap_page_def)
  then show "page_ids (pm_pages s' x) = page_ids (pm_pages s x)" "tp_buffer_id (pm_pages s' x) = tp_buffer_id (pm_pages s x)"
    "locked_tp (pm_pages s' x) = locked_tp (pm_pages s x)" "x \<noteq> p \<Longrightarrow> pm_pages s' x = pm_pages s x"
    by (auto simp: page_ids_def tp_set_defs locked_tp_def)
qed

lemma buf_inv_unmap:
  assumes "buf_inv K D s" and "tp_in_use (pm_pages s p) = 1" and "unmap_effect p I s s'"
  shows "buf_inv K D s'"
proof (rule buf_inv_frame [OF assms(1)])
  note u = unmap_page_ids [OF assms(3)]
  have fr: "unmap_frame s s'" using assms(3) by (simp add: unmap_effect_def)
  have q: "clean_ok s" "dirty_ok s" using assms(1) by (simp_all add: buf_inv_def)
  show "same_frame s s'"
    using u(1) u(4) assms(2) fr unfolding same_frame_def unmap_frame_def by metis
  show "clean_ok s'" "dirty_ok s'"
    using q fr by (simp_all add: unmap_frame_def fam_ok_cong [of "pm_pages s'" "pm_pages s", OF u(2) page_idsD(3) [OF u(1)]])
qed (simp add: unmap_page_ids(2) [OF assms(3)])

lemma map_inv_unmap:
  assumes "map_inv s" and "unmap_effect p {..<MAX_RMAPS_PER_PAGE} s s'" and "rmap_complete s p"
  shows "map_inv s'" and "fm_pte s' k = drop_pages {p} pte_frame (fm_pte s k)"
proof -
  note u = unmap_page_ids(4) [OF assms(2)]
  have fr: "fm_vma s' = fm_vma s" using assms(2) by (simp add: unmap_effect_def unmap_frame_def)
  show pte: "fm_pte s' k = drop_pages {p} pte_frame (fm_pte s k)" for k
    using unmap_complete_pte [OF assms(2,3)] by (auto simp: maps_page_def drop_pages_def split: option.splits)
  have "maps_page (fm_pte s) x k \<and> x \<noteq> p" if "maps_page (fm_pte s') x k" for x k
    using that by (auto simp: maps_page_def pte)
  moreover have "rmap_of s' x i = rmap_of s x i" "rmap_key s' x i = rmap_key s x i" if "x \<noteq> p" for x i
    using u [OF that] fr by (simp_all add: rmap_of_def rmap_key_def)
  ultimately show "map_inv s'"
    using assms(1) u unfolding map_inv_def by metis
qed

lemma purge_one_spec:
  assumes inv: "buf_inv K D s" "map_inv s" and K: "walk_ok K" and q: "q < NUM_QUEUES"
    and r: "purge_one K q (et, pgs, s) = (et', pgs', s')"
  obtains P where "pgs' = pgs \<and> P = {} \<or> (\<exists>p. pgs' = pgs @ [p] \<and> P = {p})"
    and "purged q P s s'" and "buf_inv K D s'" and "map_inv s'"
proof -
  obtain t s1 where d: "deq_if_clean q (deq (fm_pvd s)) s = (t, s1)" by fastforce
  from deq_if_clean_spec [OF inv(1) q d] obtain f where i1: "buf_inv K D s1"
    and c: "case t of None \<Rightarrow> s1 = s\<lparr>fb_primary := (fb_primary s)(q := f)\<rparr>
         | Some p \<Rightarrow> tp_buffer_id (pm_pages s p) = BI_CLEAN \<and> clean_q (p_index s p) = q \<and> can_purge s p \<and> held K s1 p \<and>
             s1 = s\<lparr>fb_primary := (fb_primary s)(q := f),
                    pm_pages := (pm_pages s)(p := (tp_set_locked True (pm_pages s p))\<lparr>tp_buffer_id := BI_NONE\<rparr>)\<rparr>" by blast
  show ?thesis
  proof (cases t)
    case None
    then have "pgs' = pgs" "s' = s1" using r d by (simp_all add: purge_one_def)
    moreover have "map_inv s1" using inv(2) c None by (simp add: map_inv_def rmap_of_def rmap_key_def)
    ultimately show ?thesis using that [of "{}"] i1 c None by (simp add: purged_none)
  next
    case (Some p)
    from c [unfolded Some option.case] have h: "tp_buffer_id (pm_pages s p) = BI_CLEAN" "clean_q (p_index s p) = q" "can_purge s p" "held K s1 p"
      and s1: "s1 = s\<lparr>fb_primary := (fb_primary s)(q := f),
                    pm_pages := (pm_pages s)(p := (tp_set_locked True (pm_pages s p))\<lparr>tp_buffer_id := BI_NONE\<rparr>)\<rparr>"
      by blast+
    have u: "tp_in_use (pm_pages s p) = 1" using h(3) by (simp add: can_purge_def)
    then obtain v where v: "tp_pvd (pm_pages s p) = Some v" using buf_inv_page(2) [OF inv(1)] by blast
    have v1: "tp_pvd (pm_pages s1 p) = Some v" "p_index s1 p = p_index s p" by (simp_all add: s1 v p_index_def)
    let ?s2 = "radix_delete K v (p_index s p) s1"
    obtain et3 s3 where rm: "remove_mappings K p (Some et, ?s2) = (et3, s3)" by fastforce
    have pg1: "x \<noteq> p \<Longrightarrow> pm_pages s1 x = pm_pages s x" "page_ids (pm_pages s1 p) = page_ids (pm_pages s p)"
      "tp_buffer_id (pm_pages s1 p) = BI_NONE" "locked_tp (pm_pages s1 p)" for x
      by (simp_all add: s1) (simp add: locked_tp_def tp_set_defs)
    have s2: "pm_pages ?s2 = pm_pages s1" "pm_fl ?s2 = pm_fl s1" "pm_total ?s2 = pm_total s1" "fb_primary ?s2 = fb_primary s1"
      "fb_dirty ?s2 = fb_dirty s1" "fm_vma ?s2 = fm_vma s1" "fm_pte ?s2 = fm_pte s1" "env_of ?s2 = env_of s1"
      by simp_all
    have "rdx_ok K s1" using i1 by (simp add: buf_inv_def)
    from radix_delete_drop [OF this v1(1) h(4)] have rd: "fm_pvd ?s2 d = drop_rdx {p} (fm_pvd s d)" for d
      by (simp add: v1(2)) (simp add: s1)
    have i2: "buf_inv K D ?s2"
      by (rule buf_inv_drop_rdx [OF i1, of _ "{p}"]) (use rd s2 h(4) in \<open>simp_all add: s1 held_def\<close>)
    have m2: "map_inv ?s2" using inv(2) unfolding map_inv_def rmap_of_def rmap_key_def s2(1,6,7) by (simp add: s1)
    have u2: "tp_in_use (pm_pages ?s2 p) = 1" using u by (simp add: s2(1) s1)
    note len = buf_inv_page(4) [OF i2 u2]
    note eff = remove_mappings_effect [OF K len, of "Some et", unfolded rm snd_conv]
    note um = unmap_page_ids [OF eff] and mi = map_inv_unmap [OF m2 eff map_inv_complete [OF m2 len]]
    have fr: "unmap_frame ?s2 s3" using eff by (simp add: unmap_effect_def)
    have s': "s' = s3 \<and> pgs' = pgs @ [p]"
      using r d Some v1 rm by (simp add: purge_one_def Let_def split: prod.splits)
    have "purged q {p} s s3"
    proof -
      have "pm_pages s3 x = pm_pages s x" if "x \<noteq> p" for x using um(4) [OF that] pg1(1) [OF that] by simp
      moreover have "page_ids (pm_pages s3 p) = page_ids (pm_pages s p)" "tp_buffer_id (pm_pages s3 p) = BI_NONE"
        "locked_tp (pm_pages s3 p)" using um(1-3) [of p] pg1(2-4) by simp_all
      moreover have "fm_pte s3 k = drop_pages {p} pte_frame (fm_pte s k)" for k using mi(2) [of k] by (simp add: s1)
      moreover have "env_of s3 = env_of s" using fr s2(8) by (simp add: unmap_frame_def env_of_def s1)
      ultimately show ?thesis using fr h rd unfolding purged_def unmap_frame_def s2(1-7) by (simp add: s1)
    qed
    then show ?thesis using that [of "{p}"] s' buf_inv_unmap [OF i2 u2 eff] mi(1) by blast
  qed
qed

subsection \<open>The whole purge\<close>

lemma purge_loop_spec:
  assumes inv: "buf_inv K D s" "map_inv s" and K: "walk_ok K" and q: "q < NUM_QUEUES"
  shows "(purge_one K q ^^ n) (et, [], s) = (et', pgs, s') \<Longrightarrow>
    purged q (set pgs) s s' \<and> distinct pgs \<and> length pgs \<le> n \<and> buf_inv K D s' \<and> map_inv s'"
proof (induction n arbitrary: et' pgs s')
  case 0
  with inv show ?case by (auto simp: purged_def)
next
  case (Suc n)
  obtain et1 pgs1 s1 where l: "(purge_one K q ^^ n) (et, [], s) = (et1, pgs1, s1)" by (metis prod_cases3)
  with Suc.prems have r: "purge_one K q (et1, pgs1, s1) = (et', pgs, s')" by simp
  note IH = Suc.IH [OF l]
  from IH obtain P where P: "pgs = pgs1 \<and> P = {} \<or> (\<exists>p. pgs = pgs1 @ [p] \<and> P = {p})"
    "purged q P s1 s'" "buf_inv K D s'" "map_inv s'"
    using purge_one_spec [OF _ _ K q r] by blast
  from IH purged_trans [OF _ P(2)] purged_disjoint [OF _ P(2)]
  have "purged q (set pgs1 \<union> P) s s'" "set pgs1 \<inter> P = {}" by blast+
  with P IH show ?case by auto
qed

text \<open>Pages that can be given back: in use, in no queue, in no radix tree and in no page table.\<close>

definition detached :: "kernel \<Rightarrow> fm \<Rightarrow> pid \<Rightarrow> bool" where
  "detached K s p \<longleftrightarrow> tp_in_use (pm_pages s p) = 1 \<and> tp_buffer_id (pm_pages s p) = BI_NONE \<and>
     (\<forall>d c i. pvd_rdx (fm_pvd s d) c i \<noteq> Some p) \<and> (\<forall>k. \<not> maps_page (fm_pte s) p k)"

lemma free_page_lock_fm [simp]:
  "fm_pvd (free_page_lock p s) = fm_pvd s" "fm_pte (free_page_lock p s) = fm_pte s" "fm_vma (free_page_lock p s) = fm_vma s"
  "fm_disk (free_page_lock p s) = fm_disk s" "fb_primary (free_page_lock p s) = fb_primary s"
  "fb_dirty (free_page_lock p s) = fb_dirty s" "fm_bug (free_page_lock p s) = fm_bug s"
  "env_of (free_page_lock p s) = env_of s"
  by (simp_all add: free_page_lock_def Let_def env_of_def)

lemma free_page_lock_inv:
  assumes inv: "buf_inv K D s" "map_inv s" and p: "detached K s p" "p \<notin> D"
  shows "buf_inv K D (free_page_lock p s)" and "map_inv (free_page_lock p s)"
    and "free_set (k_topo K) (free_page_lock p s) = insert p (free_set (k_topo K) s)"
proof -
  have i: "pm_wf (k_topo K) s" "pages_ok K s" "rdx_ok K s" "tree_ok K D s" "clean_ok s" "dirty_ok s"
    using inv(1) unfolding buf_inv_def by blast+
  have u: "tp_in_use (pm_pages s p) = 1" "tp_buffer_id (pm_pages s p) = BI_NONE" using p(1) by (auto simp: detached_def)
  note pg = buf_inv_page [OF inv(1) u(1)]
  note w = free_page_lock_wf [OF i(1) pg(5,1,3)]
  show "free_set (k_topo K) (free_page_lock p s) = insert p (free_set (k_topo K) s)" by (rule w(2))
  have "clean_ok (free_page_lock p s)" "dirty_ok (free_page_lock p s)"
  proof -
    let ?ps = "(pm_pages s)(p := release_page (pm_pages s p))"
    have "lpq.fam clean_q NUM_QUEUES (pm_total s) (fb_primary s) ?ps = clean_ok s"
      "dq.fam dirty_q EVICTOR_THREADS (pm_total s) (fb_dirty s) ?ps = dirty_ok s"
      by (rule fam_ok_cong; use u(2) in auto)+
    with i(5,6) show "clean_ok (free_page_lock p s)" "dirty_ok (free_page_lock p s)" by simp_all
  qed
  moreover have "pages_ok K (free_page_lock p s)" using i(2) by (auto simp: pages_ok_def fm_simps)
  moreover have "rdx_ok K (free_page_lock p s)"
    using i(3) p(1) by (auto simp: rdx_ok_def detached_def radix_lookup_def p_index_def fm_simps)
  moreover have "tree_ok K D (free_page_lock p s)"
    by (rule tree_ok_cong [OF _ _ i(4)]) (use p(2) in \<open>auto simp: p_index_def\<close>)
  ultimately show "buf_inv K D (free_page_lock p s)"
    using w(1) unfolding buf_inv_def by blast
  have "p \<noteq> x" if "maps_page (fm_pte s) x k" for x k using p(1) that unfolding detached_def by blast
  then show "map_inv (free_page_lock p s)"
    using inv(2) by (fastforce simp: map_inv_def rmap_of_def rmap_key_def)
qed

lemma free_pages_fold:
  assumes "buf_inv K D s" "map_inv s" "\<forall>p\<in>set pgs. detached K s p \<and> p \<notin> D" "distinct pgs"
  shows "buf_inv K D (fold free_page_lock pgs s) \<and> map_inv (fold free_page_lock pgs s) \<and>
    free_set (k_topo K) (fold free_page_lock pgs s) = set pgs \<union> free_set (k_topo K) s \<and>
    (\<forall>p. pm_pages (fold free_page_lock pgs s) p = (if p \<in> set pgs then release_page (pm_pages s p) else pm_pages s p)) \<and>
    fm_pvd (fold free_page_lock pgs s) = fm_pvd s \<and> fm_pte (fold free_page_lock pgs s) = fm_pte s \<and>
    env_of (fold free_page_lock pgs s) = env_of s"
  using assms
proof (induction pgs arbitrary: s)
  case (Cons p pgs)
  then have "detached K s p" "p \<notin> D" by auto
  note f = free_page_lock_inv [OF Cons.prems(1,2) this]
  have "\<forall>x\<in>set pgs. detached K (free_page_lock p s) x \<and> x \<notin> D"
    using Cons.prems by (auto simp: detached_def)
  from Cons.IH [OF f(1,2) this] f(3) Cons.prems show ?case by auto
qed simp

lemma flush_etlb_frame:
  "flush_etlb g etlb s = s\<lparr>fm_flush := fm_flush (flush_etlb g etlb s)\<rparr>"
proof -
  have "\<exists>l. flush_etlb g etlb s = s\<lparr>fm_flush := l\<rparr>"
    unfolding flush_etlb_def
  proof (induction etlb arbitrary: s)
    case Nil
    show ?case by (rule exI [of _ "fm_flush s"]) simp
  next
    case (Cons e etlb)
    show ?case using Cons [of "if et_ptr e \<noteq> 0 then log_flush (Flush_range (g s (et_ptr e)) (et_start e) (et_end e + PAGE_SIZE)) s else s"]
      by (auto simp: log_flush_def)
  qed
  then obtain l where "flush_etlb g etlb s = s\<lparr>fm_flush := l\<rparr>" by blast
  then show ?thesis by simp
qed

lemma try_purge_pages_fast_cases:
  assumes inv: "buf_wf K s" "map_inv s" and K: "walk_ok K" and q: "q < NUM_QUEUES"
    and r: "try_purge_pages_fast K N q s = (n, s')"
  obtains pgs s1 where "n = length pgs" "distinct pgs" "n \<le> PURGE_N" "purged q (set pgs) s s1"
    "buf_wf K s'" "map_inv s'" "free_set (k_topo K) s' = set pgs \<union> free_set (k_topo K) s"
    "\<And>p. pm_pages s' p = (if p \<in> set pgs then release_page (pm_pages s1 p) else pm_pages s p)"
    "fm_pvd s' = fm_pvd s1" "fm_pte s' = fm_pte s1" "env_of s' = env_of s"
proof -
  let ?D = "dirty_pages s"
  obtain et pgs s1 where l: "(purge_one K q ^^ PURGE_N) (etlb_init, [], s) = (et, pgs, s1)" by (metis prod_cases3)
  have L: "purged q (set pgs) s s1" "distinct pgs" "length pgs \<le> PURGE_N" "buf_inv K ?D s1" "map_inv s1"
    using purge_loop_spec [OF _ inv(2) K q l] inv(1) by (auto simp: buf_wf_def)
  have cl: "tp_buffer_id (pm_pages s p) = BI_CLEAN" if "p \<in> set pgs" for p using L(1) that by (auto simp: purged_def)
  have nd: "p \<notin> ?D" if "p \<in> set pgs" for p using cl [OF that] by (simp add: dirty_pages_def)
  have det: "detached K s1 p" if p: "p \<in> set pgs" for p
  proof -
    have "tp_in_use (pm_pages s1 p) = 1" "tp_buffer_id (pm_pages s1 p) = BI_NONE"
      using L(1) p page_idsD(1) [of "pm_pages s1 p" "pm_pages s p"] by (auto simp: purged_def can_purge_def)
    then show ?thesis using L(1) p by (auto simp: purged_def detached_def maps_page_def)
  qed
  let ?s2 = "if pgs = [] then s1 else flush_etlb (\<lambda>s mm. mm) et s1"
  have s': "n = length pgs \<and> s' = fold free_page_lock pgs ?s2"
    using r l by (auto simp: try_purge_pages_fast_def Let_def split: if_splits)
  obtain x where f2: "?s2 = s1\<lparr>fm_flush := x\<rparr>"
  proof (cases "pgs = []")
    case True
    then show ?thesis using that [of "fm_flush s1"] by simp
  next
    case False
    then show ?thesis using that flush_etlb_frame [of "\<lambda>s mm. mm" et s1] by simp
  qed
  have tr: "buf_inv K D (s1\<lparr>fm_flush := x\<rparr>) = buf_inv K D s1" "map_inv (s1\<lparr>fm_flush := x\<rparr>) = map_inv s1"
    "detached K (s1\<lparr>fm_flush := x\<rparr>) p = detached K s1 p" for D x p
    by (simp_all add: buf_inv_def pm_wf_def pages_ok_def rdx_ok_def tree_ok_def radix_lookup_def p_index_def free_set_def
        map_inv_def rmap_of_def rmap_key_def detached_def)
  have "buf_inv K ?D ?s2" "map_inv ?s2" "\<forall>p\<in>set pgs. detached K ?s2 p \<and> p \<notin> ?D"
    unfolding f2 tr using L(4,5) det nd by blast+
  note fin = free_pages_fold [OF this L(2)]
  have eq2: "pm_pages ?s2 = pm_pages s1" "fm_pvd ?s2 = fm_pvd s1" "fm_pte ?s2 = fm_pte s1" "env_of ?s2 = env_of s1"
    "free_set (k_topo K) ?s2 = free_set (k_topo K) s1"
    unfolding f2 by (simp_all add: free_set_def env_of_def)
  have dp: "dirty_pages s' = ?D"
    using fin s' L(1) eq2(1) cl unfolding purged_def dirty_pages_def by (auto split: if_splits)
  have "buf_wf K s'" using fin s' dp by (simp add: buf_wf_def)
  moreover have "free_set (k_topo K) s1 = free_set (k_topo K) s" "env_of s1 = env_of s"
    using L(1) by (auto simp: purged_def free_set_def)
  moreover have "pm_pages s1 p = pm_pages s p" if "p \<notin> set pgs" for p using L(1) that by (auto simp: purged_def)
  ultimately show ?thesis using that [of pgs s1] fin s' L eq2 by simp
qed

section \<open>Properties of the buffer\<close>


text \<open>
  C20. The three ways a page changes its queue keep the invariant of the buffer: inserting a page taken
  out of the buffers, moving it from clean to dirty and moving it back. No queue ever overflows, and
  each move puts the page at the tail of the queue its number selects.
\<close>

theorem moves_keep_invariant:
  assumes "buf_inv K D s"
  shows "(held K s p \<longrightarrow> buf_inv K D (insert_page_fifo_buffer_t p clear s) \<and>
      last (lp_buffer (fb_primary (insert_page_fifo_buffer_t p clear s) (clean_q (p_index s p)))) = p) \<and>
    (tp_buffer_id (pm_pages s p) = BI_CLEAN \<longrightarrow> buf_inv K D (move_page_c2d_fifo_buffer_t p s) \<and>
      last (d_buffer (fb_dirty (move_page_c2d_fifo_buffer_t p s) (dirty_q (p_index s p)))) = p) \<and>
    (tp_buffer_id (pm_pages s p) = BI_DIRTY \<longrightarrow> buf_inv K D (move_page_d2c_fifo_buffer_t p s) \<and>
      last (lp_buffer (fb_primary (move_page_d2c_fifo_buffer_t p s) (clean_q (p_index s p)))) = p \<and>
      \<not> TaggedPageDirty (pm_pages (move_page_d2c_fifo_buffer_t p s) p))"
  using insert_page_spec [OF assms, of p clear] move_page_c2d_spec [OF assms, of p] move_page_d2c_spec [OF assms, of p]
  by auto


section \<open>An example\<close>

text \<open>Page 3 of the example buffer holds page 3 of device 0, clean and mapped at \<open>0x15000\<close>.\<close>

definition buf_example :: fm where
  "buf_example =
     (let s = upd_page 3 (\<lambda>t. tp_set_index 3 (t\<lparr>tp_in_use := 1, tp_buffer_id := BI_CLEAN, tp_pvd := Some 0, tp_cpuid := 1, tp_page_valid := 1\<rparr>)) fm_mapped;
          s = s\<lparr>pm_fl := (pm_fl s)(1 := [2]), fb_primary := (fb_primary s)(3 := \<lparr>lp_buffer = [3], lp_size = 1, lp_max_size = 12\<rparr>),
                fm_disk := (\<lambda>b i. [ucast i])\<rparr>
      in snd (radix_insert kernel_example 0 3 3 s))"

lemma buf_example_simps:
  "pm_pages buf_example p = (if p = 3 then tp_set_index 3 ((pm_pages fm_mapped 3)\<lparr>tp_in_use := 1, tp_buffer_id := BI_CLEAN, tp_pvd := Some 0, tp_cpuid := 1, tp_page_valid := 1\<rparr>)
     else pm_pages fm_example p)"
  "pm_fl buf_example c = (if c = 1 then [2] else if c < 4 then [2 * c, 2 * c + 1] else [])" "pm_total buf_example = 8"
  "fb_primary buf_example q = (if q = 3 then \<lparr>lp_buffer = [3], lp_size = 1, lp_max_size = 12\<rparr> else lp_init 12)"
  "fb_dirty buf_example q = d_init 12" "fm_pte buf_example = fm_pte fm_mapped" "fm_vma buf_example = fm_vma fm_mapped"
  "fm_pvd buf_example d = (if d = 0 then pvd_example\<lparr>pvd_rdx := (\<lambda>c i. if c = 3 \<and> i = 3 then Some 3 else None)\<rparr> else pvd_example)"
  by (auto simp: buf_example_def fm_mapped_def fm_example_def Let_def radix_insert_def radix_lookup_def upd_pvd_def
      pvd_example_def cpu_of_index_def kernel_example_def one_node_topology_def upd_rmap_def upd_page_def fun_eq_iff)

lemma fm_example_page [simp]:
  "tp_in_use (pm_pages fm_example p) = 0" "tp_buffer_id (pm_pages fm_example p) = BI_NONE"
  "locked_tp (pm_pages fm_example p) = False"
  by (simp_all add: fm_example_def locked_tp_def tp_example_def page_NULL_def)

lemma buf_example_wf: "buf_wf kernel_example buf_example"
proof -
  have n: "num_online_cpus (k_topo kernel_example) = 4" by (simp add: kernel_example_def one_node_topology_def)
  have c3: "cpu_of_index kernel_example 3 = 3" by (simp add: cpu_of_index_def n)
  have b: "tp_buffer_id (pm_pages buf_example p) = (if p = 3 then BI_CLEAN else BI_NONE)"
    "tp_in_use (pm_pages buf_example p) = (if p = 3 then 1 else 0)" for p
    by (simp_all add: buf_example_simps tp_set_defs)
  have i3: "tp_index (pm_pages buf_example 3) = 3" "tp_pvd (pm_pages buf_example 3) = Some 0" "tp_cpuid (pm_pages buf_example 3) = 1"
    "length (tp_rmap (pm_pages buf_example 3)) = MAX_RMAPS_PER_PAGE"
    using fm_mapped_complete by (simp_all add: buf_example_simps tp_set_defs rmap_complete_def)
  have f: "free_set (k_topo kernel_example) buf_example = {0, 1, 2, 4, 5, 6, 7}"
    by (auto simp: free_set_def n buf_example_simps lessThan_nat_numeral lessThan_Suc)
  have nl: "\<not> locked_tp (pm_pages buf_example p)" if "p \<noteq> 3" for p using that by (simp add: buf_example_simps)
  have "pm_wf (k_topo kernel_example) buf_example"
    unfolding pm_wf_def f n using nl by (auto simp: b buf_example_simps(2,3))
  moreover have "pages_ok kernel_example buf_example"
    by (auto simp: pages_ok_def b i3 n buf_example_simps(3))
  moreover have "clean_ok buf_example"
    by (auto simp: fam_ok_def tagged_set_def b i3 buf_example_simps(3,4) lp_init_def fifo_wf_def clean_q_def fm_const_defs)
  moreover have "dirty_ok buf_example"
    by (auto simp: fam_ok_def tagged_set_def b buf_example_simps(3,5) d_init_def fifo_wf_def)
  moreover have "rdx_ok kernel_example buf_example"
    by (auto simp: rdx_ok_def radix_lookup_def b i3 c3 p_index_def buf_example_simps(8) pvd_example_def)
  moreover have "tree_ok kernel_example (dirty_pages buf_example) buf_example"
    by (auto simp: tree_ok_def dirty_pages_def b buf_example_simps(8) pvd_example_def)
  ultimately show ?thesis by (simp add: buf_wf_def buf_inv_def)
qed

lemma buf_example_map: "map_inv buf_example"
proof -
  have r: "rmap_of buf_example 3 i = rmap_of fm_mapped 3 i" "rmap_key buf_example 3 i = rmap_key fm_mapped 3 i" for i
    by (simp_all add: rmap_of_def rmap_key_def buf_example_simps tp_set_defs)
  have "p = 3" if "maps_page (fm_pte fm_mapped) p k" for p k
    using that by (auto simp: maps_page_def fm_mapped_def fm_example_def Let_def split: if_splits)
  moreover have "tp_in_use (pm_pages buf_example 3) = 1" by (simp add: buf_example_simps tp_set_defs)
  ultimately show ?thesis
    using fm_mapped_complete r unfolding map_inv_def rmap_complete_def buf_example_simps(6) by metis
qed

lemma buf_example_p3:
  "p_index buf_example 3 = 3" "tp_buffer_id (pm_pages buf_example 3) = BI_CLEAN" "clean_q 3 = 3" "dirty_q 3 = 0"
  by (simp_all add: p_index_def buf_example_simps tp_set_defs clean_q_def dirty_q_def fm_const_defs)


theorem moves_keep_invariant_witness:
  "last (d_buffer (fb_dirty (move_page_c2d_fifo_buffer_t 3 buf_example) 0)) = 3"
  using moves_keep_invariant [OF buf_example_wf [unfolded buf_wf_def], of 3] buf_example_p3 by metis


end
