(* ===== verification/Evictor.thy ===== *)
theory Evictor
  imports Fifo_Buffer
begin

text \<open>
  The evictor threads of \<^verbatim>\<open>mmap_generational_fifo_buffer.c\<close>: each one takes dirty pages with neighbouring
  numbers out of its dirty queue and of the dirty trees, makes their mappings read-only, writes them
  and puts them into the clean queues.
\<close>

section \<open>The evictor\<close>

definition remove_from_dirty_tree :: "kernel \<Rightarrow> pid \<Rightarrow> fm \<Rightarrow> fm" where
  "remove_from_dirty_tree K p s =
     (case tp_pvd (pm_pages s p) of
        None \<Rightarrow> s\<lparr>fm_bug := True\<rparr>
      | Some d \<Rightarrow>
          (let c = cpu_of_index K (p_index s p)
           in upd_pvd d (\<lambda>v. v\<lparr>pvd_dirty_tree := (pvd_dirty_tree v)(c :=
                snd (tagged_rb_erase (k_rb K) (pm_pages s) (pvd_dirty_tree v c) (p_index s p)))\<rparr>) s))"

definition ev_deq :: "pid \<Rightarrow> pages \<Rightarrow> bool \<times> pages" where
  "ev_deq p ps =
     (let (r, tp) = trylock_tp (ps p) ULONG_MAX in if r \<noteq> 0 then (False, ps) else (True, ps(p := tp)))"

definition deq_if_dirty :: "nat \<Rightarrow> (pid \<Rightarrow> pages \<Rightarrow> bool \<times> pages) \<Rightarrow> fm \<Rightarrow> pid option \<times> fm" where
  "deq_if_dirty q c s =
     (let (r, f, ps) = d_dequeue_if (fb_dirty s q) c (pm_pages s)
      in (r, s\<lparr>fb_dirty := (fb_dirty s)(q := f), pm_pages := ps\<rparr>))"

definition rem_if_dirty :: "nat \<Rightarrow> pid \<Rightarrow> (pid \<Rightarrow> pages \<Rightarrow> bool \<times> pages) \<Rightarrow> fm \<Rightarrow> bool \<times> fm" where
  "rem_if_dirty q p c s =
     (let (r, f, ps) = d_remove_if (fb_dirty s q) p c (pm_pages s)
      in (r, s\<lparr>fb_dirty := (fb_dirty s)(q := f), pm_pages := ps\<rparr>))"

definition EVICT_BATCH :: nat where "EVICT_BATCH = 512"

text \<open>Taking the page with number \<open>offset\<close> out of the dirty tree and the dirty queue, if it can be locked.\<close>

definition evictor_take :: "kernel \<Rightarrow> nat \<Rightarrow> nat \<Rightarrow> u64 \<Rightarrow> fm \<Rightarrow> pid option \<times> fm" where
  "evictor_take K ID pvd offset s =
     (let c = cpu_of_index K offset;
          tree = pvd_dirty_tree (fm_pvd s pvd) c
      in case tagged_rb_search (pm_pages s) tree offset of
           None \<Rightarrow> (None, s)
         | Some tp \<Rightarrow>
             (let s = upd_pvd pvd (\<lambda>v. v\<lparr>pvd_dirty_tree := (pvd_dirty_tree v)(c := rb_erase (k_rb K) tp tree)\<rparr>) s;
                  (ok, s) = rem_if_dirty ID tp ev_deq s
              in if ok then (Some tp, s)
                 else (None, upd_pvd pvd (\<lambda>v. v\<lparr>pvd_dirty_tree := (pvd_dirty_tree v)(c :=
                         snd (tagged_rb_insert (k_rb K) (pm_pages s) (pvd_dirty_tree v c) tp))\<rparr>) s)))"

text \<open>
  The loop that collects neighbours. \<^verbatim>\<open>iter++ >= 2048\<close> ends it after at most 2049 rounds: \<open>n\<close> counts them
  down.
\<close>

fun evictor_collect :: "kernel \<Rightarrow> nat \<Rightarrow> nat \<Rightarrow> nat \<Rightarrow> u64 \<Rightarrow> pid list \<Rightarrow> fm \<Rightarrow> pid list \<times> fm" where
  "evictor_collect K ID pvd 0 offset pgs s = (pgs, s)"
| "evictor_collect K ID pvd (Suc n) offset pgs s =
     (if length pgs \<ge> EVICT_BATCH then (pgs, s)
      else if unat (drop_bit 9 offset) mod EVICTOR_THREADS \<noteq> ID then (pgs, s)
      else let (tp, s) = evictor_take K ID pvd offset s
           in evictor_collect K ID pvd n (offset + 1)
                (case tp of None \<Rightarrow> pgs | Some p \<Rightarrow> pgs @ [p]) s)"

definition EVICT_ITER :: nat where "EVICT_ITER = 2049"

text \<open>The test at the start of a round: the number of dirty pages, an \<^verbatim>\<open>unsigned int\<close>, against
  three fifths of the buffer.\<close>

definition dirty_total :: "fm \<Rightarrow> int" where
  "dirty_total s = sum_list (map (\<lambda>i. d_size (fb_dirty s i)) [0..<EVICTOR_THREADS]) mod 2 ^ 32"

text \<open>
  The first half of a round: \<open>None\<close> when the thread sleeps (too few dirty pages, or no page could be
  locked); otherwise the pages, which are locked and in no dirty tree and no dirty queue, with their
  backing object.
\<close>

definition evictor_select :: "kernel \<Rightarrow> nat \<Rightarrow> fm \<Rightarrow> (pid list \<times> nat) option \<times> fm" where
  "evictor_select K ID s =
     (if dirty_total s < int (fb_size s div 5 * 3) then (None, s)
      else case deq_if_dirty ID ev_deq s of
             (None, s) \<Rightarrow> (None, s)
           | (Some p, s) \<Rightarrow>
               (case tp_pvd (pm_pages s p) of
                  None \<Rightarrow> (None, s\<lparr>fm_bug := True\<rparr>)
                | Some pvd \<Rightarrow>
                    (let s = remove_from_dirty_tree K p s;
                         (pgs, s) = evictor_collect K ID pvd EVICT_ITER (p_index s p + 1) [p] s
                     in (Some (pgs, pvd), s))))"

definition evictor_clear :: "kernel \<Rightarrow> pid list \<Rightarrow> fm \<Rightarrow> fm" where
  "evictor_clear K pgs s =
     (let (etlb, s) = fold (\<lambda>p st. clear_mappings K p st) pgs (Some etlb_init, s)
      in flush_etlb (\<lambda>s vma. vma_mm (fm_vma s vma)) (case etlb of None \<Rightarrow> [] | Some et \<Rightarrow> et) s)"

definition evictor_write :: "kernel \<Rightarrow> nat \<Rightarrow> pid list \<Rightarrow> fm \<Rightarrow> fm" where
  "evictor_write K pvd pgs s =
     (if pvd_type (fm_pvd s pvd) = D_BLKD then write_bio_async K pgs s else write_file_async K pgs s)"

definition evictor_finish :: "pid list \<Rightarrow> fm \<Rightarrow> fm" where
  "evictor_finish pgs s =
     (let s = fold (\<lambda>p. insert_page_fifo_buffer_t p True) pgs s
      in fold (\<lambda>p. upd_page p unlock_tp) pgs s)"

text \<open>
  A whole round of \<^verbatim>\<open>evictor_thread\<close>; the first component tells whether the thread goes on. A thread
  that sees \<^verbatim>\<open>evictor_run\<close> cleared counts itself out and exits.
\<close>

definition evictor_thread :: "kernel \<Rightarrow> nat \<Rightarrow> fm \<Rightarrow> bool \<times> fm" where
  "evictor_thread K ID s =
     (if \<not> fb_evictor_run s then (False, s\<lparr>fb_active_evictors := fb_active_evictors s - 1\<rparr>)
      else case evictor_select K ID s of
             (None, s) \<Rightarrow> (True, s)
           | (Some (pgs, pvd), s) \<Rightarrow>
               (True, evictor_finish pgs (evictor_write K pvd pgs (evictor_clear K pgs s))))"


end
