(* ===== verification/Buffer_Trees.thy ===== *)
theory Buffer_Trees
  imports Fifo_Buffer
begin

text \<open>
  How changes of the dirty trees, of the flags of backing objects and of the regions act on the
  invariant of the buffer: the lemmas shared by the fault handler, the evictor and the write-back of
  dirty pages.
\<close>

section \<open>Updates of backing objects\<close>

lemma upd_pvd_simps [simp]:
  "fm_pvd (upd_pvd d f s) = (fm_pvd s)(d := f (fm_pvd s d))"
  "pm_pages (upd_pvd d f s) = pm_pages s" "pm_fl (upd_pvd d f s) = pm_fl s"
  "pm_total (upd_pvd d f s) = pm_total s" "pm_numa_dv (upd_pvd d f s) = pm_numa_dv s"
  "fb_primary (upd_pvd d f s) = fb_primary s" "fb_dirty (upd_pvd d f s) = fb_dirty s"
  "fb_size (upd_pvd d f s) = fb_size s" "fb_evictor_run (upd_pvd d f s) = fb_evictor_run s"
  "fm_pve (upd_pvd d f s) = fm_pve s" "fm_info (upd_pvd d f s) = fm_info s"
  "fm_vma (upd_pvd d f s) = fm_vma s" "fm_pte (upd_pvd d f s) = fm_pte s"
  "fm_disk (upd_pvd d f s) = fm_disk s" "fm_bug (upd_pvd d f s) = fm_bug s"
  "fm_rdd (upd_pvd d f s) = fm_rdd s" "fm_lower (upd_pvd d f s) = fm_lower s"
  "fm_isize (upd_pvd d f s) = fm_isize s" "fm_flush (upd_pvd d f s) = fm_flush s"
  by (simp_all add: upd_pvd_def)

lemma p_index_cong: "pm_pages s' p = pm_pages s p \<Longrightarrow> p_index s' p = p_index s p"
  by (simp add: p_index_def)

lemma dirty_pages_cong: "pm_pages s' = pm_pages s \<Longrightarrow> dirty_pages s' = dirty_pages s"
  by (simp add: dirty_pages_def)

text \<open>The invariant sees of a backing object its radix trees and its dirty trees only.\<close>

lemma buf_inv_pvd:
  assumes "buf_inv K D s" and "pm_pages s' = pm_pages s" and "pm_fl s' = pm_fl s" and "pm_total s' = pm_total s"
    and "fb_primary s' = fb_primary s" and "fb_dirty s' = fb_dirty s"
    and rdx: "\<And>d. pvd_rdx (fm_pvd s' d) = pvd_rdx (fm_pvd s d)" and tree: "tree_ok K D' s'"
  shows "buf_inv K D' s'"
proof -
  have i: "pm_wf (k_topo K) s" "pages_ok K s" "rdx_ok K s" "clean_ok s" "dirty_ok s"
    using assms(1) unfolding buf_inv_def by blast+
  have "pm_wf (k_topo K) s'"
    by (rule pm_wf_cong [OF i(1)]) (simp_all only: assms(2-4))
  moreover have "pages_ok K s'" using i(2) by (simp only: pages_ok_def assms(2-4))
  moreover have "rdx_ok K s'" using i(3)
    by (simp only: rdx_ok_def radix_lookup_def rdx assms(2) p_index_def)
  moreover have "clean_ok s'" "dirty_ok s'" using i(4,5) by (simp_all only: assms(2-6))
  ultimately show ?thesis using tree unfolding buf_inv_def by blast
qed

lemma buf_inv_pvd_flags:
  assumes "buf_inv K D s" and "\<And>v. pvd_rdx (f v) = pvd_rdx v" and "\<And>v. pvd_dirty_tree (f v) = pvd_dirty_tree v"
  shows "buf_inv K D (upd_pvd d f s)"
proof (rule buf_inv_pvd [OF assms(1)])
  have "tree_ok K D s" using assms(1) by (simp add: buf_inv_def)
  then show "tree_ok K D (upd_pvd d f s)"
    by (rule tree_ok_cong [rotated 2]) (simp_all add: p_index_def assms(3))
qed (simp_all add: assms(2))

text \<open>Replacing one dirty tree: the pages of the other trees stay the same.\<close>

definition set_dirty_tree :: "nat \<Rightarrow> rb_root \<Rightarrow> pr_vma_data \<Rightarrow> pr_vma_data" where
  "set_dirty_tree c t v = v\<lparr>pvd_dirty_tree := (pvd_dirty_tree v)(c := t)\<rparr>"

lemma set_dirty_tree_simps [simp]:
  "pvd_rdx (set_dirty_tree c t v) = pvd_rdx v" "pvd_during_unlink (set_dirty_tree c t v) = pvd_during_unlink v"
  "pvd_dirty_tree (set_dirty_tree c t v) = (pvd_dirty_tree v)(c := t)" "pvd_type (set_dirty_tree c t v) = pvd_type v"
  "pvd_bk (set_dirty_tree c t v) = pvd_bk v"
  by (simp_all add: set_dirty_tree_def)

lemma buf_inv_tree:
  assumes inv: "buf_inv K D s" and wf: "dt_wf (pm_pages s) t"
    and t: "set_tree t = {p\<in>D'. tp_pvd (pm_pages s p) = Some d \<and> cpu_of_index K (p_index s p) = c}"
    and same: "\<And>p. tp_pvd (pm_pages s p) \<noteq> Some d \<or> cpu_of_index K (p_index s p) \<noteq> c \<Longrightarrow> p \<in> D \<longleftrightarrow> p \<in> D'"
    and f: "f (fm_pvd s d) = set_dirty_tree c t (fm_pvd s d)"
  shows "buf_inv K D' (upd_pvd d f s)"
proof (rule buf_inv_pvd [OF inv])
  show "tree_ok K D' (upd_pvd d f s)"
    unfolding tree_ok_def
  proof (intro allI)
    fix e b
    have old: "dt_wf (pm_pages s) (pvd_dirty_tree (fm_pvd s e) b)"
      "set_tree (pvd_dirty_tree (fm_pvd s e) b) =
        {p\<in>D. tp_pvd (pm_pages s p) = Some e \<and> cpu_of_index K (p_index s p) = b}"
      using inv by (auto simp: buf_inv_def tree_ok_def)
    have ix: "p_index (upd_pvd d f s) p = p_index s p" for p by (simp add: p_index_def)
    show "dt_wf (pm_pages (upd_pvd d f s)) (pvd_dirty_tree (fm_pvd (upd_pvd d f s) e) b) \<and>
      set_tree (pvd_dirty_tree (fm_pvd (upd_pvd d f s) e) b) =
        {p\<in>D'. tp_pvd (pm_pages (upd_pvd d f s) p) = Some e \<and> cpu_of_index K (p_index (upd_pvd d f s) p) = b}"
    proof (cases "e = d \<and> b = c")
      case True
      then show ?thesis using wf t by (simp add: f ix)
    next
      case False
      then have "pvd_dirty_tree (fm_pvd (upd_pvd d f s) e) b = pvd_dirty_tree (fm_pvd s e) b"
        by (auto simp: f)
      with old same False show ?thesis by (auto simp: ix)
    qed
  qed
qed (simp_all add: f)

section \<open>Adding a page to and taking it from its dirty tree\<close>

lemma buf_inv_found:
  assumes "buf_inv K D s" and "tp_buffer_id (pm_pages s p) \<noteq> BI_NONE" and "tp_pvd (pm_pages s p) = Some d"
  shows "radix_lookup K s d (p_index s p) = Some p"
proof -
  have "rdx_ok K s" using assms(1) unfolding buf_inv_def by (elim conjE)
  note conjunct2 [OF this [unfolded rdx_ok_def], rule_format, OF assms(2,3)]
  then show ?thesis .
qed

lemma found_inj:
  assumes "buf_inv K D s" and "tp_buffer_id (pm_pages s q) \<noteq> BI_NONE" and "tp_pvd (pm_pages s q) = Some d"
    and "radix_lookup K s d (p_index s p) = Some p" and "p_index s q = p_index s p"
  shows "q = p"
  using buf_inv_found [OF assms(1-3)] assms(4) unfolding assms(5) by (metis option.inject)

lemma buf_inv_tree_insert:
  assumes L: "rb_lib_ok (k_rb K)" and inv: "buf_inv K D s" and d: "tp_pvd (pm_pages s p) = Some d"
    and found: "radix_lookup K s d (p_index s p) = Some p" and D: "\<And>q. q \<in> D \<Longrightarrow> tp_buffer_id (pm_pages s q) \<noteq> BI_NONE"
    and p: "p \<notin> D" and c: "c = cpu_of_index K (p_index s p)"
    and f: "f (fm_pvd s d) = set_dirty_tree c (snd (tagged_rb_insert (k_rb K) (pm_pages s) (pvd_dirty_tree (fm_pvd s d) c) p)) (fm_pvd s d)"
  shows "buf_inv K (insert p D) (upd_pvd d f s)"
proof -
  let ?t = "pvd_dirty_tree (fm_pvd s d) c"
  have t: "dt_wf (pm_pages s) ?t" "set_tree ?t = {q\<in>D. tp_pvd (pm_pages s q) = Some d \<and> cpu_of_index K (p_index s q) = c}"
    using inv by (auto simp: buf_inv_def tree_ok_def)
  obtain ret t' where i: "tagged_rb_insert (k_rb K) (pm_pages s) ?t p = (ret, t')" by fastforce
  have "tp_index (pm_pages s q) \<noteq> tp_index (pm_pages s p)" if "q \<in> set_tree ?t" for q
  proof
    assume "tp_index (pm_pages s q) = tp_index (pm_pages s p)"
    then have "q = p" using that t(2) D found_inj [OF inv _ _ found, of q] by (auto simp: p_index_def)
    with p that t(2) show False by simp
  qed
  then have t': "dt_wf (pm_pages s) t'" "set_tree t' = insert p (set_tree ?t)"
    using tagged_rb_insert_spec [OF L t(1) i] by (auto split: if_splits)
  show ?thesis
    by (rule buf_inv_tree [OF inv t'(1)]) (use t' t(2) d c i f in auto)
qed

lemma buf_inv_tree_erase:
  assumes inv: "buf_inv K D s" and d: "tp_pvd (pm_pages s p) = Some d" and c: "c = cpu_of_index K (p_index s p)"
    and wf: "dt_wf (pm_pages s) t" and t: "set_tree t = set_tree (pvd_dirty_tree (fm_pvd s d) c) - {p}"
    and f: "f (fm_pvd s d) = set_dirty_tree c t (fm_pvd s d)"
  shows "buf_inv K (D - {p}) (upd_pvd d f s)"
proof -
  have "set_tree (pvd_dirty_tree (fm_pvd s d) c) = {q\<in>D. tp_pvd (pm_pages s q) = Some d \<and> cpu_of_index K (p_index s q) = c}"
    using inv by (auto simp: buf_inv_def tree_ok_def)
  then show ?thesis
    by (intro buf_inv_tree [OF inv wf]) (use t d c f in auto)
qed

section \<open>What the queue operations leave alone\<close>

lemma enq_clean_rest [simp]:
  "fm_pvd (snd (enq_clean q p s)) = fm_pvd s" "fm_pve (snd (enq_clean q p s)) = fm_pve s" "fm_info (snd (enq_clean q p s)) = fm_info s"
  "fm_vma (snd (enq_clean q p s)) = fm_vma s" "fm_pte (snd (enq_clean q p s)) = fm_pte s" "fm_disk (snd (enq_clean q p s)) = fm_disk s"
  "fm_rdd (snd (enq_clean q p s)) = fm_rdd s" "fm_lower (snd (enq_clean q p s)) = fm_lower s" "fm_isize (snd (enq_clean q p s)) = fm_isize s"
  "fm_flush (snd (enq_clean q p s)) = fm_flush s" "fm_bug (snd (enq_clean q p s)) = fm_bug s" "pm_fl (snd (enq_clean q p s)) = pm_fl s"
  "pm_total (snd (enq_clean q p s)) = pm_total s" "pm_numa_dv (snd (enq_clean q p s)) = pm_numa_dv s"
  by (simp_all add: enq_clean_def Let_def split: prod.splits)

lemma rem_clean_rest [simp]:
  "fm_pvd (rem_clean q p s) = fm_pvd s" "fm_pve (rem_clean q p s) = fm_pve s" "fm_info (rem_clean q p s) = fm_info s"
  "fm_vma (rem_clean q p s) = fm_vma s" "fm_pte (rem_clean q p s) = fm_pte s" "fm_disk (rem_clean q p s) = fm_disk s"
  "fm_rdd (rem_clean q p s) = fm_rdd s" "fm_lower (rem_clean q p s) = fm_lower s" "fm_isize (rem_clean q p s) = fm_isize s"
  "fm_flush (rem_clean q p s) = fm_flush s" "fm_bug (rem_clean q p s) = fm_bug s" "pm_fl (rem_clean q p s) = pm_fl s"
  "pm_total (rem_clean q p s) = pm_total s" "pm_numa_dv (rem_clean q p s) = pm_numa_dv s"
  by (simp_all add: rem_clean_def Let_def split: prod.splits)

lemma enq_dirty_rest [simp]:
  "fm_pvd (snd (enq_dirty q p s)) = fm_pvd s" "fm_pve (snd (enq_dirty q p s)) = fm_pve s" "fm_info (snd (enq_dirty q p s)) = fm_info s"
  "fm_vma (snd (enq_dirty q p s)) = fm_vma s" "fm_pte (snd (enq_dirty q p s)) = fm_pte s" "fm_disk (snd (enq_dirty q p s)) = fm_disk s"
  "fm_rdd (snd (enq_dirty q p s)) = fm_rdd s" "fm_lower (snd (enq_dirty q p s)) = fm_lower s" "fm_isize (snd (enq_dirty q p s)) = fm_isize s"
  "fm_flush (snd (enq_dirty q p s)) = fm_flush s" "fm_bug (snd (enq_dirty q p s)) = fm_bug s" "pm_fl (snd (enq_dirty q p s)) = pm_fl s"
  "pm_total (snd (enq_dirty q p s)) = pm_total s" "pm_numa_dv (snd (enq_dirty q p s)) = pm_numa_dv s"
  by (simp_all add: enq_dirty_def Let_def split: prod.splits)

lemma rem_dirty_rest [simp]:
  "fm_pvd (rem_dirty q p s) = fm_pvd s" "fm_pve (rem_dirty q p s) = fm_pve s" "fm_info (rem_dirty q p s) = fm_info s"
  "fm_vma (rem_dirty q p s) = fm_vma s" "fm_pte (rem_dirty q p s) = fm_pte s" "fm_disk (rem_dirty q p s) = fm_disk s"
  "fm_rdd (rem_dirty q p s) = fm_rdd s" "fm_lower (rem_dirty q p s) = fm_lower s" "fm_isize (rem_dirty q p s) = fm_isize s"
  "fm_flush (rem_dirty q p s) = fm_flush s" "fm_bug (rem_dirty q p s) = fm_bug s" "pm_fl (rem_dirty q p s) = pm_fl s"
  "pm_total (rem_dirty q p s) = pm_total s" "pm_numa_dv (rem_dirty q p s) = pm_numa_dv s"
  by (simp_all add: rem_dirty_def Let_def split: prod.splits)

lemma insert_page_rest [simp]:
  "fm_pvd (insert_page_fifo_buffer_t p b s) = fm_pvd s" "fm_pve (insert_page_fifo_buffer_t p b s) = fm_pve s" "fm_info (insert_page_fifo_buffer_t p b s) = fm_info s"
  "fm_vma (insert_page_fifo_buffer_t p b s) = fm_vma s" "fm_pte (insert_page_fifo_buffer_t p b s) = fm_pte s" "fm_disk (insert_page_fifo_buffer_t p b s) = fm_disk s"
  "fm_rdd (insert_page_fifo_buffer_t p b s) = fm_rdd s" "fm_lower (insert_page_fifo_buffer_t p b s) = fm_lower s" "fm_isize (insert_page_fifo_buffer_t p b s) = fm_isize s"
  "fm_flush (insert_page_fifo_buffer_t p b s) = fm_flush s" "fm_bug (insert_page_fifo_buffer_t p b s) = fm_bug s" "pm_fl (insert_page_fifo_buffer_t p b s) = pm_fl s"
  "pm_total (insert_page_fifo_buffer_t p b s) = pm_total s" "pm_numa_dv (insert_page_fifo_buffer_t p b s) = pm_numa_dv s"
  by (simp_all add: insert_page_fifo_buffer_t_def Let_def split_beta)

lemma move_page_c2d_rest [simp]:
  "fm_pvd (move_page_c2d_fifo_buffer_t p s) = fm_pvd s" "fm_pve (move_page_c2d_fifo_buffer_t p s) = fm_pve s" "fm_info (move_page_c2d_fifo_buffer_t p s) = fm_info s"
  "fm_vma (move_page_c2d_fifo_buffer_t p s) = fm_vma s" "fm_pte (move_page_c2d_fifo_buffer_t p s) = fm_pte s" "fm_disk (move_page_c2d_fifo_buffer_t p s) = fm_disk s"
  "fm_rdd (move_page_c2d_fifo_buffer_t p s) = fm_rdd s" "fm_lower (move_page_c2d_fifo_buffer_t p s) = fm_lower s" "fm_isize (move_page_c2d_fifo_buffer_t p s) = fm_isize s"
  "fm_flush (move_page_c2d_fifo_buffer_t p s) = fm_flush s" "fm_bug (move_page_c2d_fifo_buffer_t p s) = fm_bug s" "pm_fl (move_page_c2d_fifo_buffer_t p s) = pm_fl s"
  "pm_total (move_page_c2d_fifo_buffer_t p s) = pm_total s" "pm_numa_dv (move_page_c2d_fifo_buffer_t p s) = pm_numa_dv s"
  by (simp_all add: move_page_c2d_fifo_buffer_t_def Let_def split_beta)

lemma move_page_d2c_rest [simp]:
  "fm_pvd (move_page_d2c_fifo_buffer_t p s) = fm_pvd s" "fm_pve (move_page_d2c_fifo_buffer_t p s) = fm_pve s" "fm_info (move_page_d2c_fifo_buffer_t p s) = fm_info s"
  "fm_vma (move_page_d2c_fifo_buffer_t p s) = fm_vma s" "fm_pte (move_page_d2c_fifo_buffer_t p s) = fm_pte s" "fm_disk (move_page_d2c_fifo_buffer_t p s) = fm_disk s"
  "fm_rdd (move_page_d2c_fifo_buffer_t p s) = fm_rdd s" "fm_lower (move_page_d2c_fifo_buffer_t p s) = fm_lower s" "fm_isize (move_page_d2c_fifo_buffer_t p s) = fm_isize s"
  "fm_flush (move_page_d2c_fifo_buffer_t p s) = fm_flush s" "fm_bug (move_page_d2c_fifo_buffer_t p s) = fm_bug s" "pm_fl (move_page_d2c_fifo_buffer_t p s) = pm_fl s"
  "pm_total (move_page_d2c_fifo_buffer_t p s) = pm_total s" "pm_numa_dv (move_page_d2c_fifo_buffer_t p s) = pm_numa_dv s"
  by (simp_all add: move_page_d2c_fifo_buffer_t_def Let_def split_beta)

section \<open>Allocating a page\<close>

lemma queues_cong:
  assumes "\<And>p. tp_buffer_id (pm_pages s' p) = tp_buffer_id (pm_pages s p)"
    and "\<And>p. tp_buffer_id (pm_pages s p) \<noteq> BI_NONE \<Longrightarrow> tp_index (pm_pages s' p) = tp_index (pm_pages s p)"
    and "fb_primary s' = fb_primary s" and "fb_dirty s' = fb_dirty s" and "pm_total s' = pm_total s"
  shows "clean_ok s' = clean_ok s" and "dirty_ok s' = dirty_ok s"
  unfolding assms(3-5) by (rule fam_ok_cong; use assms(1,2) in simp)+

lemma buf_inv_scan:
  assumes inv: "buf_inv K D s" and eff: "scan_effect (k_topo K) s s1"
    and D: "\<And>p. p \<in> D \<Longrightarrow> tp_in_use (pm_pages s p) = 1"
  shows "buf_inv K D s1"
proof -
  have i: "pm_wf (k_topo K) s" "pages_ok K s" "rdx_ok K s" "tree_ok K D s" "clean_ok s" "dirty_ok s"
    using inv unfolding buf_inv_def by blast+
  obtain ps fl where s1: "s1 = s\<lparr>pm_pages := ps, pm_fl := fl\<rparr>" using eff by (auto simp: scan_effect_def)
  have ch: "pm_pages s1 p = pm_pages s p \<or> tp_in_use (pm_pages s p) = 0 \<and> tp_buffer_id (pm_pages s p) = BI_NONE \<and>
      (\<exists>c. pm_pages s1 p = (pm_pages s p)\<lparr>tp_cpuid := c\<rparr>)" for p
    by (rule scan_effect_page [OF eff i(1)])
  have same: "tp_buffer_id (pm_pages s1 p) = tp_buffer_id (pm_pages s p)" "tp_index (pm_pages s1 p) = tp_index (pm_pages s p)"
    "tp_in_use (pm_pages s1 p) = tp_in_use (pm_pages s p)" "tp_pvd (pm_pages s1 p) = tp_pvd (pm_pages s p)"
    "tp_rmap (pm_pages s1 p) = tp_rmap (pm_pages s p)" for p
    using ch [of p] by auto
  have cpu: "tp_cpuid (pm_pages s1 p) = tp_cpuid (pm_pages s p)" if "tp_in_use (pm_pages s p) = 1" for p
    using ch [of p] that by auto
  have q: "clean_ok s1" "dirty_ok s1"
    using i(5,6) queues_cong [of s1 s, OF same(1,2)] by (simp_all add: s1)
  have tot: "pm_total s1 = pm_total s" "fm_pvd s1 = fm_pvd s" by (simp_all add: s1)
  have "pages_ok K s1" using i(2) cpu unfolding pages_ok_def same tot by simp
  moreover have "rdx_ok K s1" using i(3) unfolding rdx_ok_def same p_index_def radix_lookup_def tot by simp
  moreover have "tree_ok K D s1" by (rule tree_ok_cong [OF _ _ i(4)]) (simp_all add: same p_index_def tot)
  moreover have "pm_wf (k_topo K) s1" using eff by (simp add: scan_effect_def)
  ultimately show ?thesis using q unfolding buf_inv_def by blast
qed

text \<open>A claimed page is in use and in no queue and in no tree yet.\<close>

lemma buf_inv_claim:
  assumes inv: "buf_inv K D s" and p: "tp_in_use (pm_pages s p) \<noteq> 1" "p < pm_total s" "p \<notin> free_set (k_topo K) s" "p \<notin> D"
    and cpu: "tp_cpuid (pm_pages s p) < ncpus K"
  shows "buf_inv K D (upd_page p (claim_page off d) s)"
proof -
  have i: "pm_wf (k_topo K) s" "pages_ok K s" "rdx_ok K s" "tree_ok K D s" "clean_ok s" "dirty_ok s"
    using inv unfolding buf_inv_def by blast+
  have b: "tp_buffer_id (pm_pages s p) = BI_NONE" using i(2) p(1) by (auto simp: pages_ok_def)
  have cl: "tp_buffer_id (claim_page off d t) = BI_NONE" "length (tp_rmap (claim_page off d t)) = MAX_RMAPS_PER_PAGE" for t
    using claim_page_spec(1) [of off d t] by (simp_all add: page_reset_def)
  have "tp_buffer_id (pm_pages (upd_page p (claim_page off d) s) x) = tp_buffer_id (pm_pages s x)" for x by (simp add: b cl)
  moreover have "tp_index (pm_pages (upd_page p (claim_page off d) s) x) = tp_index (pm_pages s x)"
    if "tp_buffer_id (pm_pages s x) \<noteq> BI_NONE" for x using that b by auto
  ultimately have q: "clean_ok (upd_page p (claim_page off d) s)" "dirty_ok (upd_page p (claim_page off d) s)"
    using i(5,6) queues_cong [of "upd_page p (claim_page off d) s" s] by simp_all
  have "pages_ok K (upd_page p (claim_page off d) s)" using i(2) p(2) cpu by (auto simp: pages_ok_def claim_page_spec cl)
  moreover have "rdx_ok K (upd_page p (claim_page off d) s)"
    using i(3) p(1) unfolding rdx_ok_def radix_lookup_def p_index_def by (auto simp: cl)
  moreover have "tree_ok K D (upd_page p (claim_page off d) s)"
    by (rule tree_ok_cong [OF _ _ i(4)]) (use p(4) in \<open>auto simp: p_index_def\<close>)
  ultimately show ?thesis using q pm_wf_upd_page [OF i(1) p(3)] unfolding buf_inv_def by blast
qed

lemma dirty_in_use: "buf_inv K D s \<Longrightarrow> p \<in> dirty_pages s \<Longrightarrow> tp_in_use (pm_pages s p) = 1"
  by (auto simp: dirty_pages_def intro: buf_inv_in_use)

lemma alloc_page_lock_inv:
  assumes T: "topology_ok (k_topo K)" and wf: "buf_wf K s" and m: "map_inv s"
    and al: "alloc_page_lock (k_topo K) nodeid off d s = (r, s')"
  shows "buf_wf K s' \<and> map_inv s' \<and> fm_pvd s' = fm_pvd s \<and> env_of s' = env_of s \<and> fm_pte s' = fm_pte s \<and> fm_bug s' = fm_bug s \<and>
    (\<forall>p. tp_in_use (pm_pages s p) = 1 \<longrightarrow> pm_pages s' p = pm_pages s p) \<and>
    (case r of None \<Rightarrow> \<forall>p. tp_in_use (pm_pages s' p) = tp_in_use (pm_pages s p)
     | Some p \<Rightarrow> tp_in_use (pm_pages s p) \<noteq> 1 \<and> tp_in_use (pm_pages s' p) = 1 \<and> \<not> locked_tp (pm_pages s' p) \<and>
         p_index s' p = off \<and> tp_pvd (pm_pages s' p) = Some d \<and> page_reset (pm_pages s' p) \<and>
         (\<forall>x. x \<noteq> p \<longrightarrow> tp_in_use (pm_pages s' x) = tp_in_use (pm_pages s x)))"
proof -
  have inv: "buf_inv K (dirty_pages s) s" using wf by (simp add: buf_wf_def)
  have pw: "pm_wf (k_topo K) s" using inv unfolding buf_inv_def by blast
  from alloc_page_lock_cases [OF T pw al] obtain s1 where eff: "scan_effect (k_topo K) s s1"
    and r: "case r of None \<Rightarrow> s' = s1
         | Some p \<Rightarrow> s' = upd_page p (claim_page off d) s1 \<and> p \<in> free_set (k_topo K) s \<and> p \<notin> free_set (k_topo K) s1 \<and>
             tp_cpuid (pm_pages s1 p) < ncpus K" by blast
  have i1: "buf_inv K (dirty_pages s) s1" by (rule buf_inv_scan [OF inv eff dirty_in_use [OF inv]])
  have free: "p < pm_total s" "tp_in_use (pm_pages s p) = 0" "\<not> locked_tp (pm_pages s p)" "tp_buffer_id (pm_pages s p) = BI_NONE"
    if "p \<in> free_set (k_topo K) s" for p using pw that unfolding pm_wf_def by blast+
  have ch: "pm_pages s1 p = pm_pages s p \<or> tp_in_use (pm_pages s p) = 0 \<and> (\<exists>c. pm_pages s1 p = (pm_pages s p)\<lparr>tp_cpuid := c\<rparr>)" for p
    using scan_effect_page [OF eff pw, of p] by blast
  have f1: "tp_in_use (pm_pages s1 p) = tp_in_use (pm_pages s p)" "tp_buffer_id (pm_pages s1 p) = tp_buffer_id (pm_pages s p)"
    "locked_tp (pm_pages s1 p) = locked_tp (pm_pages s p)" for p using ch [of p] by (auto simp: locked_tp_def)
  obtain ps fl where s1: "s1 = s\<lparr>pm_pages := ps, pm_fl := fl\<rparr>" using eff by (auto simp: scan_effect_def)
  have rest: "fm_pvd s1 = fm_pvd s" "env_of s1 = env_of s" "fm_pte s1 = fm_pte s" "fm_bug s1 = fm_bug s"
    "pm_total s1 = pm_total s" "fm_vma s1 = fm_vma s" by (simp_all add: s1 env_of_def)
  have same1: "pm_pages s1 p = pm_pages s p" if "tp_in_use (pm_pages s p) = 1" for p using ch [of p] that by auto
  have D1: "dirty_pages s1 = dirty_pages s" by (simp add: dirty_pages_def f1)
  have map: "map_inv t" if t: "fm_pte t = fm_pte s" "fm_vma t = fm_vma s" "\<And>p. tp_in_use (pm_pages s p) = 1 \<Longrightarrow> pm_pages t p = pm_pages s p" for t
    unfolding map_inv_def
  proof (intro allI impI)
    fix p k assume mp: "maps_page (fm_pte t) p k"
    then have "tp_in_use (pm_pages s p) = 1 \<and> (\<exists>i<MAX_RMAPS_PER_PAGE. pvr_is_valid (rmap_of s p i) \<and> rmap_key s p i = k)"
      using m unfolding map_inv_def t(1) by blast
    then show "tp_in_use (pm_pages t p) = 1 \<and> (\<exists>i<MAX_RMAPS_PER_PAGE. pvr_is_valid (rmap_of t p i) \<and> rmap_key t p i = k)"
      using t(2,3) by (simp add: rmap_of_def rmap_key_def)
  qed
  show ?thesis
  proof (cases r)
    case None
    then have s': "s' = s1" using r by simp
    show ?thesis unfolding s' None option.case using i1 D1 rest same1 f1(1) map [OF rest(3,6) same1]
      by (simp add: buf_wf_def)
  next
    case (Some p)
    then have s': "s' = upd_page p (claim_page off d) s1" and p: "p \<in> free_set (k_topo K) s" "p \<notin> free_set (k_topo K) s1"
      "tp_cpuid (pm_pages s1 p) < ncpus K" using r by simp_all
    have "p \<notin> dirty_pages s" using free(4) [OF p(1)] by (simp add: dirty_pages_def)
    then have i2: "buf_inv K (dirty_pages s) s'" unfolding s'
      by (intro buf_inv_claim [OF i1]) (use free [OF p(1)] p f1 rest in simp_all)
    have "tp_buffer_id (claim_page off d t) = BI_NONE" for t
      using claim_page_spec(1) [of off d t] by (simp add: page_reset_def)
    then have "dirty_pages s' = dirty_pages s" using free(4) [OF p(1)] by (auto simp: dirty_pages_def s' f1)
    then have "buf_wf K s'" using i2 by (simp add: buf_wf_def)
    moreover have same: "pm_pages s' x = pm_pages s x" if "tp_in_use (pm_pages s x) = 1" for x
      using same1 [OF that] free(2) [OF p(1)] that by (auto simp: s')
    moreover have "map_inv s'" by (rule map) (use rest same in \<open>simp_all add: s'\<close>)
    moreover have "env_of s' = env_of s" using rest(2) by (simp add: s' env_of_def)
    ultimately show ?thesis unfolding Some option.case
      using rest free [OF p(1)] by (simp add: s' claim_page_spec f1 p_index_def)
  qed
qed

section \<open>Changes the invariant does not see\<close>

text \<open>Regions, page tables, TLB requests, the store, raw devices and the bug flag are not part of it.\<close>

lemma buf_inv_rest:
  assumes "buf_inv K D s" and "pm_pages s' = pm_pages s" and "pm_fl s' = pm_fl s" and "pm_total s' = pm_total s"
    and "fb_primary s' = fb_primary s" and "fb_dirty s' = fb_dirty s" and "fm_pvd s' = fm_pvd s"
  shows "buf_inv K D s'"
proof (rule buf_inv_pvd [OF assms(1-6)])
  have "tree_ok K D s" using assms(1) by (simp add: buf_inv_def)
  then show "tree_ok K D s'"
    by (rule tree_ok_cong [rotated 2]) (simp_all add: p_index_def assms(2,7))
qed (simp add: assms(7))

lemma buf_inv_bug [simp]: "buf_inv K D s \<Longrightarrow> buf_inv K D (s\<lparr>fm_bug := b\<rparr>)"
  by (erule buf_inv_rest) simp_all

end
