(* ===== verification/Fault_Handler.thy ===== *)
theory Fault_Handler
  imports Buffer_Trees
begin

text \<open>
  \<^verbatim>\<open>mmap_fault_handler.c\<close>: the operations of a mapped region. A page fault finds or reads the page of the
  faulting address (\<^verbatim>\<open>perma_getpage\<close>), the first write to a page makes it dirty (\<^verbatim>\<open>perma_page_mkwrite\<close>), and
  opening, closing and moving a region keep its lists of mapped pages. The configuration is that of
  \<^verbatim>\<open>shared_defines.h\<close>: one page per fault, direct I/O, per-CPU radix trees, no fast path, no
  \<^verbatim>\<open>map_pages\<close>, no huge pages and \<^verbatim>\<open>DMAP_BGON\<close> empty.
\<close>

section \<open>Reading a page\<close>

definition tp_set_data :: "pdata \<Rightarrow> tagged_page \<Rightarrow> tagged_page" where
  "tp_set_data c tp = tp\<lparr>tp_page := (tp_page tp)\<lparr>pg_data := c\<rparr>\<rparr>"

definition page_content :: "fm \<Rightarrow> pid \<Rightarrow> pdata" where
  "page_content s p = pg_data (tp_page (pm_pages s p))"

definition read_pages_bio :: "kernel \<Rightarrow> nat \<Rightarrow> u64 \<Rightarrow> pid \<Rightarrow> fm \<Rightarrow> int \<times> fm" where
  "read_pages_bio K device byte_offset p s =
     (let sector = drop_bit 9 byte_offset;
          i = drop_bit 3 sector
      in if \<not> k_bio_ok K device i then (1, s)
         else (0, upd_page p (tp_set_data (fm_disk s device i)) s))"

text \<open>
  The bitmap is an array of \<^verbatim>\<open>BITS_TO_LONGS(bitmap_size)\<close> words; a bit beyond it is outside the array.
\<close>

definition in_bitmap :: "raw_device_data \<Rightarrow> u64 \<Rightarrow> bool" where
  "in_bitmap r i \<longleftrightarrow> i div 64 < (rdd_bitmap_size r + 63) div 64"

definition upd_rdd :: "nat \<Rightarrow> (raw_device_data \<Rightarrow> raw_device_data) \<Rightarrow> fm \<Rightarrow> fm" where
  "upd_rdd d f s = s\<lparr>fm_rdd := (fm_rdd s)(d := f (fm_rdd s d))\<rparr>"

definition set_bit_rdd :: "u64 \<Rightarrow> bool \<Rightarrow> raw_device_data \<Rightarrow> raw_device_data" where
  "set_bit_rdd i b r = r\<lparr>rdd_bitmap := (rdd_bitmap r)(i := b)\<rparr>"

definition read_or_fake_page_bio :: "kernel \<Rightarrow> nat \<Rightarrow> u64 \<Rightarrow> pid \<Rightarrow> fm \<Rightarrow> int \<times> fm" where
  "read_or_fake_page_bio K pvd page_byte_offset p s =
     (case (pvd_bk (fm_pvd s pvd), pvd_rdd (fm_pvd s pvd)) of
        (Some device, Some rdd) \<Rightarrow>
          (let i = page_byte_offset div 4096 in
           if \<not> in_bitmap (fm_rdd s rdd) i then (0, s\<lparr>fm_bug := True\<rparr>)
           else if rdd_bitmap (fm_rdd s rdd) i
           then let (ret, s) = read_pages_bio K device page_byte_offset p s
                in if ret \<noteq> 0 then (1, s) else (0, s)
           else (0, upd_rdd rdd (set_bit_rdd i True) s))
      | _ \<Rightarrow> (0, s\<lparr>fm_bug := True\<rparr>))"

text \<open>A short read leaves the rest of the frame as it was.\<close>

definition read_pages_file :: "kernel \<Rightarrow> u64 \<Rightarrow> u64 \<Rightarrow> pid \<Rightarrow> fm \<Rightarrow> int \<times> fm" where
  "read_pages_file K vma byte_offset p s =
     (let lower_file = fm_lower s (vma_file (fm_vma s vma));
          rd_retval = k_read_iter K lower_file byte_offset;
          n = nat rd_retval;
          s = upd_page p (\<lambda>t. tp_set_data (take n (fm_disk s lower_file (drop_bit 12 byte_offset)) @
                                drop n (pg_data (tp_page t))) t) s;
          rd_retval = (if rd_retval > 0 then rd_retval div 4096 else rd_retval)
      in if rd_retval < 0 then (-1, s) else (rd_retval, s))"

definition dmap_set_page_priority :: "nat \<Rightarrow> pid \<Rightarrow> u64 \<Rightarrow> fm \<Rightarrow> fm" where
  "dmap_set_page_priority pvd p page_offset s =
     (if pvd_type (fm_pvd s pvd) = D_BLKD then
        (case pvd_rdd (fm_pvd s pvd) of
           None \<Rightarrow> s\<lparr>fm_bug := True\<rparr>
         | Some rdd \<Rightarrow>
             (case rdd_meta (fm_rdd s rdd) of
                None \<Rightarrow> s\<lparr>fm_bug := True\<rparr>
              | Some meta \<Rightarrow>
                  (if unat page_offset < length meta
                   then upd_page p (\<lambda>t. t\<lparr>tp_priority := unat (meta ! unat page_offset)\<rparr>) s
                   else s\<lparr>fm_bug := True\<rparr>)))
      else s)"

text \<open>The result of the read is only looked at by an assertion that is compiled out.\<close>

definition dmap_do_page_io :: "kernel \<Rightarrow> u64 \<Rightarrow> nat \<Rightarrow> pid \<Rightarrow> u64 \<Rightarrow> fm \<Rightarrow> fm" where
  "dmap_do_page_io K vma pvd p page_byte_offset s =
     (let s = (if tp_page_valid (pm_pages s p) = 0 then
                 (if pvd_type (fm_pvd s pvd) = D_BLKD
                  then snd (read_or_fake_page_bio K pvd page_byte_offset p s)
                  else snd (read_pages_file K vma page_byte_offset p s))
               else s)
      in if tp_page_valid (pm_pages s p) = 0
         then upd_page p (\<lambda>t. t\<lparr>tp_page_valid := 1\<rparr>) s else s)"

section \<open>Recording a mapping\<close>

text \<open>The members of \<^verbatim>\<open>struct vm_fault\<close> the driver uses; \<open>vmf_page\<close> names the frame of a tagged page.\<close>

record vm_fault =
  vmf_vma :: u64
  vmf_address :: u64
  vmf_pgoff :: u64
  vmf_page :: pid

text \<open>
  The loop over the reverse-map entries: it stops at a valid entry of the VMA; otherwise the last
  invalid entry is the free one.
\<close>

fun rmap_scan :: "u64 \<Rightarrow> pr_vma_rmap list \<Rightarrow> nat \<Rightarrow> nat option \<Rightarrow> bool \<times> nat option" where
  "rmap_scan vma [] i free_entry = (False, free_entry)"
| "rmap_scan vma (r # rs) i free_entry =
     (if pvr_is_valid r
      then (if pvr_get_vma r = vma then (True, free_entry) else rmap_scan vma rs (i + 1) free_entry)
      else rmap_scan vma rs (i + 1) (Some i))"

definition fill_rmap :: "nat \<Rightarrow> u64 \<Rightarrow> u64 \<Rightarrow> pr_vma_rmap \<Rightarrow> pr_vma_rmap" where
  "fill_rmap i vaddr vma r =
     (let r = pvr_set_idx r (word_of_nat i);
          r = pvr_set_vaddr r vaddr;
          r = pvr_set_vma r vma;
          r = pvr_set_cpu r 0
      in pvr_mk_valid r)"

definition link_mapped :: "nat \<Rightarrow> nat \<Rightarrow> pid \<Rightarrow> nat \<Rightarrow> fm \<Rightarrow> fm" where
  "link_mapped pve cpu p i s =
     upd_pve pve (\<lambda>e. e\<lparr>pve_mapped := (pve_mapped e)(cpu := pve_mapped e cpu @ [(p, i)])\<rparr>) s"

text \<open>With no entry left the code writes \<^verbatim>\<open>rmap[-1]\<close>.\<close>

definition dmap_add_or_update_rmap :: "nat \<Rightarrow> vm_fault \<Rightarrow> pid \<Rightarrow> u64 \<Rightarrow> fm \<Rightarrow> fm" where
  "dmap_add_or_update_rmap cpu vmf p off s =
     (let vma = vmf_vma vmf;
          pve = fi_pve (fm_info s (vma_info (fm_vma s vma)));
          (found, free_entry) = rmap_scan vma (tp_rmap (pm_pages s p)) 0 None
      in if found then s
         else case free_entry of
                None \<Rightarrow> s\<lparr>fm_bug := True\<rparr>
              | Some i \<Rightarrow>
                  (let s = upd_rmap p i (fill_rmap i (vmf_address vmf + off * PAGE_SIZE) vma) s;
                       s = link_mapped pve cpu p i s
                   in upd_rmap p i (\<lambda>r. pvr_set_cpu r (word_of_nat cpu)) s))"

section \<open>Making a page writable\<close>

definition dirty_tree_insert :: "kernel \<Rightarrow> nat \<Rightarrow> pid \<Rightarrow> fm \<Rightarrow> fm" where
  "dirty_tree_insert K pvd p s =
     (let c = cpu_of_index K (p_index s p)
      in upd_pvd pvd (\<lambda>v. v\<lparr>pvd_dirty_tree := (pvd_dirty_tree v)(c :=
           snd (tagged_rb_insert (k_rb K) (pm_pages s) (pvd_dirty_tree v c) p))\<rparr>) s)"

text \<open>The time stamps of the lower file are not part of the state.\<close>

definition dmap_do_tagged_page_writable :: "kernel \<Rightarrow> nat \<Rightarrow> pid \<Rightarrow> fm \<Rightarrow> fm" where
  "dmap_do_tagged_page_writable K pvd p s =
     (if tp_is_dirty (pm_pages s p) \<noteq> 0 then s
      else let s = upd_page p (\<lambda>t. t\<lparr>tp_is_dirty := 1\<rparr>) s
           in if tp_buffer_id (pm_pages s p) \<noteq> BI_CLEAN then s\<lparr>fm_bug := True\<rparr>
              else let s = upd_pvd pvd (\<lambda>v. v\<lparr>pvd_is_readonly := False\<rparr>) s;
                       s = dirty_tree_insert K pvd p s;
                       s = move_page_c2d_fifo_buffer_t p s
                   in upd_page p (tp_set_pg_dirty True) s)"

definition VM_FAULT_NOPAGE :: int where "VM_FAULT_NOPAGE = 0x100"
definition VM_FAULT_LOCKED :: int where "VM_FAULT_LOCKED = 0x200"

definition vmf_pvd :: "fm \<Rightarrow> vm_fault \<Rightarrow> nat" where
  "vmf_pvd s vmf = fi_pvd (fm_info s (vma_info (fm_vma s (vmf_vma vmf))))"

text \<open>\<open>None\<close> as the result: the page is locked by another thread, and the handler waits for it and starts again.\<close>

definition perma_page_mkwrite :: "kernel \<Rightarrow> vm_fault \<Rightarrow> fm \<Rightarrow> int option \<times> fm" where
  "perma_page_mkwrite K vmf s =
     (let pvd = vmf_pvd s vmf;
          page_offset = vmf_pgoff vmf;
          s = upd_pvd pvd (\<lambda>v. v\<lparr>pvd_is_readonly := False\<rparr>) s;
          p = pg_private (tp_page (pm_pages s (vmf_page vmf)));
          (tl, tp) = trylock_tp (pm_pages s p) page_offset
      in if tl = -2 then (Some VM_FAULT_NOPAGE, s)
         else if tl = -3 then (Some VM_FAULT_NOPAGE, s)
         else if tl \<noteq> 0 then (None, s)
         else (Some VM_FAULT_LOCKED, dmap_do_tagged_page_writable K pvd p (upd_page p (\<lambda>_. tp) s)))"

section \<open>Finding the page of a fault\<close>

definition fmap_radix_lookup :: "kernel \<Rightarrow> nat \<Rightarrow> u64 \<Rightarrow> fm \<Rightarrow> pid option" where
  "fmap_radix_lookup K pvd offset s = radix_lookup K s pvd offset"

definition fmap_radix_insert :: "kernel \<Rightarrow> nat \<Rightarrow> u64 \<Rightarrow> pid \<Rightarrow> fm \<Rightarrow> int \<times> fm" where
  "fmap_radix_insert K pvd offset p s = radix_insert K pvd offset p s"

text \<open>
  The body of the loop of \<^verbatim>\<open>perma_getpage\<close>, in the two parts between which other threads run: the lookup
  with the allocation of a page, and the insertion of that page. \<open>Again\<close> means \<^verbatim>\<open>goto retry_find_page\<close>,
  possibly after waiting for the lock of the page; \<open>Hit\<close> and \<open>Fresh\<close> are the page, locked; \<open>Spins\<close> is a thread
  that holds the lock of a page and waits for it to become valid. \<open>Alloc\<close> is a page to be inserted.
\<close>

datatype find_result = Hit pid | Fresh pid | Alloc pid | Again | Spins pid

definition getpage_lookup :: "kernel \<Rightarrow> nat \<Rightarrow> nat \<Rightarrow> u64 \<Rightarrow> nat \<Rightarrow> fm \<Rightarrow> find_result \<times> fm" where
  "getpage_lookup K nodeid pvd page_offset rnd s =
     (case fmap_radix_lookup K pvd page_offset s of
        None \<Rightarrow>
          (case alloc_page_lock (k_topo K) nodeid page_offset pvd s of
             (None, s) \<Rightarrow> (Again, snd (try_purge_pages_fast K 512 (rnd mod NUM_QUEUES) s))
           | (Some p, s) \<Rightarrow>
               (let (r, tp) = trylock_tp (pm_pages s p) ULONG_MAX in (Alloc p, upd_page p (\<lambda>_. tp) s)))
      | Some p \<Rightarrow>
          (let (r, tp) = trylock_tp (pm_pages s p) ULONG_MAX
           in if r \<noteq> 0 then (Again, s)
              else (if tp_page_valid tp \<noteq> 1 then Spins p else Hit p, upd_page p (\<lambda>_. tp) s)))"

definition getpage_insert :: "kernel \<Rightarrow> nat \<Rightarrow> u64 \<Rightarrow> pid \<Rightarrow> fm \<Rightarrow> find_result \<times> fm" where
  "getpage_insert K pvd page_offset p s =
     (let (rdx_ret, s) = fmap_radix_insert K pvd page_offset p s
      in if rdx_ret = 0 then (Fresh p, s)
         else if rdx_ret = - EEXIST then (Again, free_page_lock p s)
         else (Fresh p, s))"

text \<open>The loop; the list holds the random numbers of its rounds, one for each.\<close>

fun getpage_find :: "kernel \<Rightarrow> nat \<Rightarrow> nat \<Rightarrow> u64 \<Rightarrow> nat list \<Rightarrow> fm \<Rightarrow> find_result \<times> fm" where
  "getpage_find K nodeid pvd page_offset [] s = (Again, s)"
| "getpage_find K nodeid pvd page_offset (rnd # rnds) s =
     (let (r, s) = getpage_lookup K nodeid pvd page_offset rnd s;
          (r, s) = (case r of Alloc p \<Rightarrow> getpage_insert K pvd page_offset p s | _ \<Rightarrow> (r, s))
      in case r of Again \<Rightarrow> getpage_find K nodeid pvd page_offset rnds s | _ \<Rightarrow> (r, s))"

text \<open>The number of pages to read: \<^verbatim>\<open>dev_pgs\<close> and \<^verbatim>\<open>num_pages\<close> are 32-bit integers.\<close>

definition getpage_dev_pgs :: "kernel \<Rightarrow> nat \<Rightarrow> nat \<Rightarrow> fm \<Rightarrow> 32 word option" where
  "getpage_dev_pgs K pvd file s =
     (if pvd_type (fm_pvd s pvd) = D_FILE then Some (ucast (drop_bit 12 (fm_isize s (fm_lower s file))))
      else map_option (\<lambda>b. ucast (drop_bit 3 (k_capacity K b))) (pvd_bk (fm_pvd s pvd)))"

definition getpage_num_pages :: "32 word \<Rightarrow> u64 \<Rightarrow> int" where
  "getpage_num_pages dev_pgs pgoff =
     (let n = (if pgoff + 1 \<le> scast dev_pgs then 1 else ucast (scast dev_pgs - pgoff) :: 32 word)
      in if n = 0 then 1 else sint n)"

text \<open>What is done with a page that is new in the buffer.\<close>

definition getpage_fill :: "kernel \<Rightarrow> u64 \<Rightarrow> nat \<Rightarrow> u64 \<Rightarrow> pid \<Rightarrow> fm \<Rightarrow> fm" where
  "getpage_fill K vma pvd page_offset p s =
     (let s = dmap_set_page_priority pvd p page_offset s;
          s = insert_page_fifo_buffer_t p False s
      in dmap_do_page_io K vma pvd p (push_bit 12 page_offset) s)"

text \<open>
  The result is \<open>None\<close> while the thread waits, otherwise the returned value with the page. Values of
  \<^verbatim>\<open>num_pages\<close> other than one make the code follow a NULL pointer or write beyond its arrays.
\<close>

definition perma_getpage ::
  "kernel \<Rightarrow> nat \<Rightarrow> nat \<Rightarrow> nat list \<Rightarrow> vm_fault \<Rightarrow> fm \<Rightarrow> (int \<times> pid option) option \<times> fm" where
  "perma_getpage K nodeid cpu rnds vmf s =
     (let v = fm_vma s (vmf_vma vmf);
          pvd = vmf_pvd s vmf
      in if vmf_address vmf < vma_start v \<or> vmf_address vmf \<ge> vma_end v
         then (Some (- EFAULT, None), s)
         else case getpage_dev_pgs K pvd (vma_file v) s of
                None \<Rightarrow> (Some (VM_FAULT_LOCKED, None), s\<lparr>fm_bug := True\<rparr>)
              | Some dev_pgs \<Rightarrow>
                  (if getpage_num_pages dev_pgs (vmf_pgoff vmf) \<noteq> 1
                   then (Some (VM_FAULT_LOCKED, None), s\<lparr>fm_bug := True\<rparr>)
                   else case getpage_find K nodeid pvd (vmf_pgoff vmf) rnds s of
                          (Hit p, s) \<Rightarrow>
                            (Some (VM_FAULT_LOCKED, Some p), dmap_add_or_update_rmap cpu vmf p 0 s)
                        | (Fresh p, s) \<Rightarrow>
                            (let s = getpage_fill K (vmf_vma vmf) pvd (vmf_pgoff vmf) p s
                             in (Some (VM_FAULT_LOCKED, Some p), dmap_add_or_update_rmap cpu vmf p 0 s))
                        | (_, s) \<Rightarrow> (None, s)))"

definition perma_vma_fault ::
  "kernel \<Rightarrow> nat \<Rightarrow> nat \<Rightarrow> nat list \<Rightarrow> vm_fault \<Rightarrow> fm \<Rightarrow> (int \<times> vm_fault) option \<times> fm" where
  "perma_vma_fault K nodeid cpu rnds vmf s =
     (case perma_getpage K nodeid cpu rnds vmf s of
        (None, s) \<Rightarrow> (None, s)
      | (Some (ret, pg), s) \<Rightarrow>
          (Some (ret, case pg of None \<Rightarrow> vmf | Some p \<Rightarrow> vmf\<lparr>vmf_page := p\<rparr>), s))"

section \<open>Making a page writable keeps the invariant\<close>

text \<open>
  The flags of a page between operations: its content is valid, and it is marked dirty exactly when it
  is in a dirty queue. A page in use that is not settled is locked by the thread that works on it.
\<close>

definition settled :: "tagged_page \<Rightarrow> bool" where
  "settled t \<longleftrightarrow> tp_page_valid t = 1 \<and>
     (tp_buffer_id t = BI_CLEAN \<and> tp_is_dirty t = 0 \<or> tp_buffer_id t = BI_DIRTY \<and> tp_is_dirty t = 1)"

definition flags_ok :: "'a page_map_scheme \<Rightarrow> bool" where
  "flags_ok s \<longleftrightarrow> (\<forall>p. tp_in_use (pm_pages s p) = 1 \<longrightarrow> settled (pm_pages s p) \<or> locked_tp (pm_pages s p))"

definition mk_writable :: "tagged_page \<Rightarrow> tagged_page" where
  "mk_writable t = tp_set_pg_dirty True (t\<lparr>tp_is_dirty := 1, tp_buffer_id := BI_DIRTY\<rparr>)"

lemma mk_writable_simps [simp]:
  "tp_buffer_id (mk_writable t) = BI_DIRTY" "tp_is_dirty (mk_writable t) = 1" "TaggedPageDirty (mk_writable t)"
  "pg_data (tp_page (mk_writable t)) = pg_data (tp_page t)" "tp_rmap (mk_writable t) = tp_rmap t"
  "locked_tp (mk_writable t) = locked_tp t" "tp_in_use (mk_writable t) = tp_in_use t"
  "tp_page_valid (mk_writable t) = tp_page_valid t" "page_ids (mk_writable t) = page_ids t"
  "tp_index (mk_writable t) = tp_index t" "tp_pvd (mk_writable t) = tp_pvd t"
  by (simp_all add: mk_writable_def tp_set_defs TaggedPageDirty_def locked_tp_def page_ids_def)

text \<open>The first write: the page moves to the dirty queue and the dirty tree, together.\<close>

lemma writable_clean:
  assumes L: "rb_lib_ok (k_rb K)" and wf: "buf_wf K s" and d: "tp_pvd (pm_pages s p) = Some d"
    and p: "tp_buffer_id (pm_pages s p) = BI_CLEAN" "tp_is_dirty (pm_pages s p) = 0"
  shows "buf_wf K (dmap_do_tagged_page_writable K d p s) \<and>
    pm_pages (dmap_do_tagged_page_writable K d p s) = (pm_pages s)(p := mk_writable (pm_pages s p)) \<and>
    fm_bug (dmap_do_tagged_page_writable K d p s) = fm_bug s \<and>
    fm_pte (dmap_do_tagged_page_writable K d p s) = fm_pte s \<and>
    fm_vma (dmap_do_tagged_page_writable K d p s) = fm_vma s"
proof -
  let ?D = "dirty_pages s" and ?c = "cpu_of_index K (p_index s p)"
  have inv: "buf_inv K ?D s" using wf by (simp add: buf_wf_def)
  have use: "tp_in_use (pm_pages s p) = 1" by (rule buf_inv_in_use [OF inv]) (simp add: p)
  obtain s1 where s1: "s1 = upd_page p (\<lambda>t. t\<lparr>tp_is_dirty := 1\<rparr>) s" by simp
  obtain s2 where s2: "s2 = upd_pvd d (\<lambda>v. v\<lparr>pvd_is_readonly := False\<rparr>) s1" by simp
  obtain s3 where s3: "s3 = dirty_tree_insert K d p s2" by simp
  obtain s4 where s4: "s4 = move_page_c2d_fifo_buffer_t p s3" by simp
  have res: "dmap_do_tagged_page_writable K d p s = upd_page p (tp_set_pg_dirty True) s4"
    using p by (simp add: dmap_do_tagged_page_writable_def s1 s2 s3 s4)
  have i1: "buf_inv K ?D s1" unfolding s1 by (rule buf_inv_flags [OF inv use]) simp_all
  have i2: "buf_inv K ?D s2" unfolding s2 by (rule buf_inv_pvd_flags [OF i1]) simp_all
  have pg2: "pm_pages s2 = (pm_pages s)(p := (pm_pages s p)\<lparr>tp_is_dirty := 1\<rparr>)" by (simp add: s2 s1)
  have ix: "p_index s2 p = p_index s p" by (simp add: p_index_def pg2)
  have "radix_lookup K s2 d (p_index s2 p) = Some p"
    by (rule buf_inv_found [OF i2]) (simp_all add: pg2 p d)
  then have i3: "buf_inv K (insert p ?D) s3" unfolding s3 dirty_tree_insert_def Let_def
    by (intro buf_inv_tree_insert [OF L i2, where c = "cpu_of_index K (p_index s2 p)"])
      (auto simp: pg2 d set_dirty_tree_def dirty_pages_def p)
  have pg3: "pm_pages s3 = pm_pages s2" by (simp add: s3 dirty_tree_insert_def Let_def)
  have "tp_buffer_id (pm_pages s3 p) = BI_CLEAN" by (simp add: pg3 pg2 p)
  note mv = move_page_c2d_spec [OF i3 this, folded s4]
  have D4: "dirty_pages s4 = insert p ?D" using mv by (simp add: dirty_pages_def pg3 pg2) auto
  have use4: "tp_in_use (pm_pages s4 p) = 1" using mv use by (simp add: pg3 pg2 set_buffer_id_def)
  have i5: "buf_inv K (insert p ?D) (upd_page p (tp_set_pg_dirty True) s4)"
    by (rule buf_inv_flags [OF _ use4]) (use mv in simp_all)
  have pg5: "pm_pages (upd_page p (tp_set_pg_dirty True) s4) = (pm_pages s)(p := mk_writable (pm_pages s p))"
    using mv by (simp add: pg3 pg2 set_buffer_id_def mk_writable_def)
  then have "dirty_pages (upd_page p (tp_set_pg_dirty True) s4) = insert p ?D"
    by (auto simp: dirty_pages_def)
  with i5 pg5 show ?thesis unfolding res
    by (simp add: buf_wf_def s4 s3 s2 s1 dirty_tree_insert_def Let_def)
qed

lemma writable_dirty:
  "tp_is_dirty (pm_pages s p) \<noteq> 0 \<Longrightarrow> dmap_do_tagged_page_writable K d p s = s"
  by (simp add: dmap_do_tagged_page_writable_def)

section \<open>What the search for a page returns\<close>

definition fm_inv :: "kernel \<Rightarrow> fm \<Rightarrow> bool" where
  "fm_inv K s \<longleftrightarrow> buf_wf K s \<and> map_inv s \<and> flags_ok s"

text \<open>The members of a backing object that never change while it is open.\<close>

definition pvd_fixed :: "pr_vma_data \<Rightarrow> pvd_kind \<times> nat option \<times> nat option \<times> nat \<times> nat option list" where
  "pvd_fixed v = (pvd_type v, pvd_bk v, pvd_rdd v, pvd_ino v, pvd_open_fds v)"

lemma pvd_fixed_drop_rdx [simp]: "pvd_fixed (drop_rdx P v) = pvd_fixed v"
  by (simp add: pvd_fixed_def drop_rdx_def)

definition kept :: "fm \<Rightarrow> fm \<Rightarrow> bool" where
  "kept s s' \<longleftrightarrow> env_of s' = env_of s \<and> (\<forall>d. pvd_fixed (fm_pvd s' d) = pvd_fixed (fm_pvd s d))"

lemma kept_trans: "kept s s1 \<Longrightarrow> kept s1 s2 \<Longrightarrow> kept s s2"
  by (simp add: kept_def)

lemma map_inv_page:
  assumes "map_inv s" and "pm_pages s' = (pm_pages s)(p := t)" and "tp_in_use t = tp_in_use (pm_pages s p)"
    and "tp_rmap t = tp_rmap (pm_pages s p)" and "fm_pte s' = fm_pte s" and "fm_vma s' = fm_vma s"
  shows "map_inv s'"
proof -
  have "rmap_of s' x i = rmap_of s x i" "tp_in_use (pm_pages s' x) = tp_in_use (pm_pages s x)" for x i
    by (simp_all add: rmap_of_def assms(2-4))
  then show ?thesis using assms(1) unfolding map_inv_def rmap_key_def assms(5,6) by simp
qed

lemma flags_ok_page:
  assumes "flags_ok s" and "pm_pages s' = (pm_pages s)(p := t)" and "settled t \<or> locked_tp t"
  shows "flags_ok s'"
  using assms by (simp add: flags_ok_def)

lemma dirty_pages_page:
  "pm_pages s' = (pm_pages s)(p := t) \<Longrightarrow> tp_buffer_id t = tp_buffer_id (pm_pages s p) \<Longrightarrow> dirty_pages s' = dirty_pages s"
  by (auto simp: dirty_pages_def)

lemma buf_wf_flags:
  assumes "buf_wf K s" and "tp_in_use (pm_pages s p) = 1"
    and "page_ids (f (pm_pages s p)) = page_ids (pm_pages s p)" and "tp_buffer_id (f (pm_pages s p)) = tp_buffer_id (pm_pages s p)"
  shows "buf_wf K (upd_page p f s)"
proof -
  have "dirty_pages (upd_page p f s) = dirty_pages s"
    by (rule dirty_pages_page [where p = p and t = "f (pm_pages s p)"]) (use assms(4) in simp_all)
  then show ?thesis using buf_inv_flags [of K "dirty_pages s" s p f] assms by (simp add: buf_wf_def)
qed

lemma fm_inv_lock:
  assumes "fm_inv K s" and "tp_in_use (pm_pages s p) = 1"
  shows "fm_inv K (upd_page p (tp_set_locked True) s)"
proof -
  have "buf_wf K (upd_page p (tp_set_locked True) s)"
    by (rule buf_wf_flags) (use assms in \<open>simp_all add: fm_inv_def\<close>)
  moreover have "map_inv (upd_page p (tp_set_locked True) s)"
    by (rule map_inv_page [where p = p and t = "tp_set_locked True (pm_pages s p)"]) (use assms in \<open>simp_all add: fm_inv_def\<close>)
  moreover have "flags_ok (upd_page p (tp_set_locked True) s)"
    by (rule flags_ok_page [where p = p and t = "tp_set_locked True (pm_pages s p)"]) (use assms in \<open>simp_all add: fm_inv_def\<close>)
  ultimately show ?thesis by (simp add: fm_inv_def)
qed

lemma purge_keeps:
  assumes "fm_inv K s" and "walk_ok K" and "q < NUM_QUEUES"
    and "s' = snd (try_purge_pages_fast K N q s)"
  shows "fm_inv K s'" and "kept s s'"
    and "radix_lookup K s' d i = Some p \<Longrightarrow> radix_lookup K s d i = Some p \<and> pm_pages s' p = pm_pages s p"
proof -
  obtain n where r: "try_purge_pages_fast K N q s = (n, s')" using assms(4) by (cases "try_purge_pages_fast K N q s") simp
  have b: "buf_wf K s" "map_inv s" "flags_ok s" using assms(1) by (simp_all add: fm_inv_def)
  from try_purge_pages_fast_cases [OF b(1,2) assms(2,3) r] obtain pgs s1 where c: "purged q (set pgs) s s1" "buf_wf K s'" "map_inv s'"
    "\<And>p. pm_pages s' p = (if p \<in> set pgs then release_page (pm_pages s1 p) else pm_pages s p)"
    "fm_pvd s' = fm_pvd s1" "env_of s' = env_of s" by metis
  have "flags_ok s'" using b(3) by (auto simp: flags_ok_def c(4) fm_simps)
  then show "fm_inv K s'" using c(2,3) by (simp add: fm_inv_def)
  have pvd: "fm_pvd s' d = drop_rdx (set pgs) (fm_pvd s d)" for d using c(1) unfolding c(5) purged_def by blast
  show "kept s s'" unfolding kept_def using c(6) by (simp add: pvd)
  show "radix_lookup K s d i = Some p \<and> pm_pages s' p = pm_pages s p" if "radix_lookup K s' d i = Some p"
    using that by (auto simp: radix_lookup_def pvd c(4))
qed

lemma found_in_use:
  assumes "buf_inv K D s" and "pvd_rdx (fm_pvd s d) c i = Some p"
  shows "tp_in_use (pm_pages s p) = 1" "tp_pvd (pm_pages s p) = Some d" "p_index s p = i"
proof -
  have "rdx_ok K s" using assms(1) unfolding buf_inv_def by (elim conjE)
  note conjunct1 [OF this [unfolded rdx_ok_def], rule_format, OF assms(2)]
  then show "tp_in_use (pm_pages s p) = 1" "tp_pvd (pm_pages s p) = Some d" "p_index s p = i" by simp_all
qed

lemma mapped_in_use: "map_inv s \<Longrightarrow> maps_page (fm_pte s) p k \<Longrightarrow> tp_in_use (pm_pages s p) = 1"
  unfolding map_inv_def by blast

text \<open>One lookup: what it returns is locked, and a page it allocates is known to nobody else.\<close>

definition fresh :: "kernel \<Rightarrow> nat \<Rightarrow> u64 \<Rightarrow> pid \<Rightarrow> fm \<Rightarrow> bool" where
  "fresh K d off p s \<longleftrightarrow> detached K s p \<and> locked_tp (pm_pages s p) \<and> page_reset (pm_pages s p) \<and>
     p_index s p = off \<and> tp_pvd (pm_pages s p) = Some d"

lemma getpage_alloc_spec:
  assumes inv: "fm_inv K s" and T: "topology_ok (k_topo K)"
    and al: "alloc_page_lock (k_topo K) nodeid off d s = (Some p, s1)"
  shows "trylock_tp (pm_pages s1 p) ULONG_MAX = (0, tp_set_locked True (pm_pages s1 p)) \<and>
    fm_inv K (upd_page p (tp_set_locked True) s1) \<and> kept s (upd_page p (tp_set_locked True) s1) \<and>
    fresh K d off p (upd_page p (tp_set_locked True) s1) \<and> fm_pvd s1 = fm_pvd s"
proof -
  have b: "buf_wf K s" "map_inv s" "flags_ok s" using inv by (simp_all add: fm_inv_def)
  note a = alloc_page_lock_inv [OF T b(1,2) al]
  have p: "tp_in_use (pm_pages s p) \<noteq> 1" "tp_in_use (pm_pages s1 p) = 1" "\<not> locked_tp (pm_pages s1 p)" "p_index s1 p = off"
    "tp_pvd (pm_pages s1 p) = Some d" "page_reset (pm_pages s1 p)" using a by simp_all
  have same: "tp_in_use (pm_pages s x) = 1 \<Longrightarrow> pm_pages s1 x = pm_pages s x"
    "x \<noteq> p \<Longrightarrow> tp_in_use (pm_pages s1 x) = tp_in_use (pm_pages s x)" for x using a by simp_all
  have pvd: "fm_pvd s1 = fm_pvd s" "fm_pte s1 = fm_pte s" "env_of s1 = env_of s" using a by simp_all
  let ?s = "upd_page p (tp_set_locked True) s1"
  have "buf_wf K ?s" by (rule buf_wf_flags) (use a p(2) in simp_all)
  moreover have "map_inv ?s"
    by (rule map_inv_page [where s = s1 and p = p and t = "tp_set_locked True (pm_pages s1 p)"]) (use a in simp_all)
  moreover have "flags_ok ?s"
  proof -
    have "settled (pm_pages ?s x) \<or> locked_tp (pm_pages ?s x)" if "tp_in_use (pm_pages ?s x) = 1" for x
    proof (cases "x = p")
      case False
      with that same(2) [OF False] have "tp_in_use (pm_pages s x) = 1" by simp
      with same(1) b(3) False show ?thesis by (simp add: flags_ok_def)
    qed simp
    then show ?thesis by (simp add: flags_ok_def)
  qed
  moreover have "kept s ?s" using pvd by (simp add: kept_def env_of_def)
  moreover have "detached K ?s p"
  proof -
    have "pvd_rdx (fm_pvd s e) c i \<noteq> Some p" for e c i
      using found_in_use(1) [of K "dirty_pages s" s e c i p] b(1) p(1) by (auto simp: buf_wf_def)
    moreover have "\<not> maps_page (fm_pte s) p k" for k using mapped_in_use [OF b(2)] p(1) by blast
    ultimately show ?thesis using p by (simp add: detached_def pvd page_reset_def)
  qed
  ultimately show ?thesis
    using p pvd by (simp add: fm_inv_def fresh_def trylock_any_cases p_index_def page_reset_cong)
qed

lemma getpage_lookup_spec:
  assumes inv: "fm_inv K s" and K: "walk_ok K" "topology_ok (k_topo K)"
    and r: "getpage_lookup K nodeid d off rnd s = (r, s')"
  shows "fm_inv K s' \<and> kept s s' \<and>
    (case r of
       Hit p \<Rightarrow> radix_lookup K s d off = Some p \<and> s' = upd_page p (tp_set_locked True) s \<and> settled (pm_pages s p)
     | Alloc p \<Rightarrow> radix_lookup K s d off = None \<and> radix_lookup K s' d off = None \<and> fresh K d off p s'
     | Again \<Rightarrow> radix_lookup K s' d off = radix_lookup K s d off \<and> (\<forall>p. radix_lookup K s d off = Some p \<longrightarrow> s' = s)
     | _ \<Rightarrow> False)"
proof (cases "radix_lookup K s d off")
  case None
  obtain a s1 where al: "alloc_page_lock (k_topo K) nodeid off d s = (a, s1)" by fastforce
  have q: "rnd mod NUM_QUEUES < NUM_QUEUES" by (simp add: fm_const_defs)
  show ?thesis
  proof (cases a)
    case n: None
    have b: "buf_wf K s" "map_inv s" "flags_ok s" using inv by (simp_all add: fm_inv_def)
    note x = alloc_page_lock_inv [OF K(2) b(1,2) al, unfolded n option.case]
    have "flags_ok s1" using x b(3) unfolding flags_ok_def by metis
    then have i1: "fm_inv K s1" using x by (simp add: fm_inv_def)
    have rs: "r = Again" "s' = snd (try_purge_pages_fast K 512 (rnd mod NUM_QUEUES) s1)"
      using r None al n by (simp_all add: getpage_lookup_def fmap_radix_lookup_def)
    have l1: "radix_lookup K s1 d off = None" using None x by (simp add: radix_lookup_def)
    have "kept s s1" using x by (simp add: kept_def)
    moreover have "radix_lookup K s' d off = None"
      using purge_keeps(3) [OF i1 K(1) q rs(2), of d off] l1 by (cases "radix_lookup K s' d off") auto
    ultimately show ?thesis using purge_keeps(1,2) [OF i1 K(1) q rs(2)] None kept_trans by (auto simp: rs(1))
  next
    case (Some p)
    note x = getpage_alloc_spec [OF inv K(2) al [unfolded Some]]
    then have rs: "r = Alloc p" "s' = upd_page p (tp_set_locked True) s1"
      using r None al Some by (simp_all add: getpage_lookup_def fmap_radix_lookup_def upd_page_def)
    have "radix_lookup K s' d off = None" using None x by (simp add: rs radix_lookup_def)
    with x None show ?thesis by (simp add: rs)
  qed
next
  case (Some p)
  have "buf_inv K (dirty_pages s) s" "flags_ok s" using inv by (simp_all add: fm_inv_def buf_wf_def)
  then have u: "tp_in_use (pm_pages s p) = 1"
    using found_in_use(1) Some by (auto simp: radix_lookup_def)
  show ?thesis
  proof (cases "locked_tp (pm_pages s p)")
    case True
    then have "r = Again \<and> s' = s"
      using r Some u by (simp add: getpage_lookup_def fmap_radix_lookup_def trylock_any_cases)
    then show ?thesis using inv by (simp add: kept_def)
  next
    case False
    then have st: "settled (pm_pages s p)" using \<open>flags_ok s\<close> u by (auto simp: flags_ok_def)
    then have "r = Hit p \<and> s' = upd_page p (tp_set_locked True) s"
      using r Some u False by (simp add: getpage_lookup_def fmap_radix_lookup_def trylock_any_cases settled_def upd_page_def)
    then show ?thesis using fm_inv_lock [OF inv u] Some st by (simp add: kept_def env_of_def)
  qed
qed

section \<open>Inserting a new page\<close>

lemma radix_insert_simps [simp]:
  "pm_pages (snd (radix_insert K d i p s)) = pm_pages s" "fm_pte (snd (radix_insert K d i p s)) = fm_pte s"
  "env_of (snd (radix_insert K d i p s)) = env_of s" "fm_vma (snd (radix_insert K d i p s)) = fm_vma s"
  by (simp_all add: radix_insert_def env_of_def)

lemma buf_inv_radix_insert:
  assumes inv: "buf_inv K D s" and none: "radix_lookup K s d i = None"
    and p: "tp_in_use (pm_pages s p) = 1" "tp_pvd (pm_pages s p) = Some d" "p_index s p = i" "tp_buffer_id (pm_pages s p) = BI_NONE"
  shows "buf_inv K D (snd (radix_insert K d i p s))" and "radix_lookup K (snd (radix_insert K d i p s)) d i = Some p"
proof -
  let ?c = "cpu_of_index K i" and ?s = "snd (radix_insert K d i p s)"
  have b: "pm_wf (k_topo K) s" "pages_ok K s" "rdx_ok K s" "tree_ok K D s" "clean_ok s" "dirty_ok s"
    using inv unfolding buf_inv_def by blast+
  have eq: "?s = upd_pvd d (\<lambda>v. v\<lparr>pvd_rdx := (pvd_rdx v)(?c := (pvd_rdx v ?c)(i := Some p))\<rparr>) s"
    using none by (simp add: radix_insert_def)
  have rdx: "pvd_rdx (fm_pvd ?s e) c j = (if e = d \<and> c = ?c \<and> j = i then Some p else pvd_rdx (fm_pvd s e) c j)" for e c j
    by (simp add: eq)
  then show found: "radix_lookup K ?s d i = Some p" by (simp add: radix_lookup_def)
  have rest: "pm_pages ?s = pm_pages s" "pm_fl ?s = pm_fl s" "pm_total ?s = pm_total s" "fb_primary ?s = fb_primary s" "fb_dirty ?s = fb_dirty s"
    by (simp_all add: eq)
  have "radix_lookup K ?s e (p_index s x) = Some x"
    if x: "tp_buffer_id (pm_pages s x) \<noteq> BI_NONE" "tp_pvd (pm_pages s x) = Some e" for x e
    using buf_inv_found [OF inv x] none by (auto simp: radix_lookup_def rdx)
  then have "rdx_ok K ?s"
    using b(3) p(1-3) by (auto simp: rdx_ok_def rdx rest(1) p_index_def)
  moreover have "pm_wf (k_topo K) ?s" by (rule pm_wf_cong [OF b(1)]) (simp_all only: rest)
  moreover have "pages_ok K ?s" using b(2) by (simp only: pages_ok_def rest)
  moreover have "tree_ok K D ?s" by (rule tree_ok_cong [OF _ _ b(4)]) (simp_all add: eq p_index_def)
  moreover have "clean_ok ?s" "dirty_ok ?s" using b(5,6) by (simp_all only: rest)
  ultimately show "buf_inv K D ?s" unfolding buf_inv_def by blast
qed

text \<open>
  A page allocated for a number that another thread has inserted meanwhile goes back to the free
  lists; otherwise it is found under its number.
\<close>

lemma getpage_insert_spec:
  assumes inv: "fm_inv K s" and f: "fresh K d off p s" and r: "getpage_insert K d off p s = (r, s')"
  shows "fm_inv K s' \<and> kept s s' \<and>
    (case r of
       Fresh q \<Rightarrow> q = p \<and> radix_lookup K s d off = None \<and> radix_lookup K s' d off = Some p \<and>
         held K s' p \<and> pm_pages s' = pm_pages s \<and> fm_pte s' = fm_pte s
     | Again \<Rightarrow> radix_lookup K s d off \<noteq> None \<and> fm_pvd s' = fm_pvd s \<and>
         pm_pages s' = (pm_pages s)(p := release_page (pm_pages s p)) \<and>
         free_set (k_topo K) s' = insert p (free_set (k_topo K) s)
     | _ \<Rightarrow> False)"
proof -
  have b: "buf_inv K (dirty_pages s) s" "map_inv s" "flags_ok s" using inv by (simp_all add: fm_inv_def buf_wf_def)
  have p: "tp_in_use (pm_pages s p) = 1" "tp_buffer_id (pm_pages s p) = BI_NONE" "tp_pvd (pm_pages s p) = Some d" "p_index s p = off"
    using f by (simp_all add: fresh_def detached_def)
  show ?thesis
  proof (cases "radix_lookup K s d off")
    case None
    note i = buf_inv_radix_insert [OF b(1) None p(1,3,4,2)]
    have rs: "r = Fresh p" "s' = snd (radix_insert K d off p s)"
      using r None by (simp_all add: getpage_insert_def fmap_radix_insert_def radix_insert_def)
    have pg: "pm_pages s' = pm_pages s" "fm_pte s' = fm_pte s" "fm_vma s' = fm_vma s" "env_of s' = env_of s" by (simp_all add: rs)
    have "fm_inv K s'"
      using i(1) b(2,3) by (simp add: fm_inv_def buf_wf_def rs(2)[symmetric] map_inv_def flags_ok_def rmap_of_def rmap_key_def dirty_pages_def pg)
    moreover have "kept s s'"
      using None pg(4) by (auto simp: kept_def rs(2) radix_insert_def pvd_fixed_def)
    moreover have "held K s' p" using i(2) p by (simp add: held_def pg p_index_def rs(2)[symmetric])
    ultimately show ?thesis using None i(2) pg by (simp add: rs(1) rs(2)[symmetric])
  next
    case (Some q)
    have rs: "r = Again" "s' = free_page_lock p s"
      using r Some by (simp_all add: getpage_insert_def fmap_radix_insert_def radix_insert_def)
    have "p \<notin> dirty_pages s" using p(2) by (simp add: dirty_pages_def)
    with f have "detached K s p" "p \<notin> dirty_pages s" by (simp_all add: fresh_def)
    note fr = free_page_lock_inv [OF b(1,2) this]
    have "dirty_pages s' = dirty_pages s"
      by (rule dirty_pages_page [where p = p and t = "release_page (pm_pages s p)"]) (simp_all add: rs p)
    then have "fm_inv K s'" using fr b(3) by (auto simp: fm_inv_def buf_wf_def rs flags_ok_def fm_simps)
    then show ?thesis using Some fr by (simp add: rs kept_def)
  qed
qed

lemma getpage_find_spec:
  assumes "fm_inv K s" and K: "walk_ok K" "topology_ok (k_topo K)"
    and "getpage_find K nodeid d off rnds s = (r, s')"
  shows "fm_inv K s' \<and> kept s s' \<and>
    (case r of
       Hit p \<Rightarrow> radix_lookup K s d off = Some p \<and> radix_lookup K s' d off = Some p \<and>
         pm_pages s' p = tp_set_locked True (pm_pages s p) \<and> settled (pm_pages s p)
     | Fresh p \<Rightarrow> radix_lookup K s d off = None \<and> radix_lookup K s' d off = Some p \<and> held K s' p \<and>
         locked_tp (pm_pages s' p) \<and> page_reset (pm_pages s' p) \<and> p_index s' p = off \<and> tp_pvd (pm_pages s' p) = Some d \<and>
         (\<forall>k. \<not> maps_page (fm_pte s') p k)
     | Again \<Rightarrow> True | _ \<Rightarrow> False)"
  using assms(1,4)
proof (induction rnds arbitrary: s)
  case Nil
  then show ?case by (simp add: kept_def)
next
  case (Cons rnd rnds)
  obtain r1 s1 where l: "getpage_lookup K nodeid d off rnd s = (r1, s1)" by fastforce
  note x = getpage_lookup_spec [OF Cons.prems(1) K l]
  show ?case
  proof (cases r1)
    case (Hit p)
    then have "r = Hit p \<and> s' = s1" using Cons.prems(2) l by simp
    moreover have "radix_lookup K s1 d off = radix_lookup K s d off" using x Hit by (simp add: radix_lookup_def)
    ultimately show ?thesis using x Hit by auto
  next
    case (Alloc p)
    obtain r2 s2 where i: "getpage_insert K d off p s1 = (r2, s2)" by fastforce
    have f: "fresh K d off p s1" "radix_lookup K s1 d off = None" "radix_lookup K s d off = None" "fm_inv K s1" "kept s s1"
      using x Alloc by simp_all
    note y = getpage_insert_spec [OF f(4,1) i]
    then have r2: "r2 = Fresh p" using f(2) by (cases r2) simp_all
    then have "r = Fresh p \<and> s' = s2" using Cons.prems(2) l i Alloc by simp
    moreover have "kept s s2" using y f(5) kept_trans by blast
    ultimately show ?thesis using y f r2 by (simp add: fresh_def detached_def p_index_def)
  next
    case Again
    then have g: "getpage_find K nodeid d off rnds s1 = (r, s')" using Cons.prems(2) l by simp
    have f: "fm_inv K s1" "kept s s1"
      "radix_lookup K s1 d off = radix_lookup K s d off" "\<And>p. radix_lookup K s d off = Some p \<Longrightarrow> s1 = s"
      using x Again by simp_all
    note IH = Cons.IH [OF f(1) g]
    have "kept s s'" using f(2) IH kept_trans by blast
    with IH f(3,4) show ?thesis by (cases r) simp_all
  qed (use x in simp_all)
qed

section \<open>Recording the mapping of a fault\<close>

lemma rmap_scan_found:
  "fst (rmap_scan vma rs i fr) \<longleftrightarrow> (\<exists>r\<in>set rs. pvr_is_valid r \<and> pvr_get_vma r = vma)"
  by (induction vma rs i fr rule: rmap_scan.induct) auto

lemma rmap_scan_none:
  "rmap_scan vma rs i fr = (False, None) \<Longrightarrow> fr = None \<and> (\<forall>r\<in>set rs. pvr_is_valid r)"
  by (induction vma rs i fr rule: rmap_scan.induct) (auto split: if_splits)

lemma rmap_scan_some:
  "rmap_scan vma rs i fr = (False, Some k) \<Longrightarrow> fr = Some k \<or> (\<exists>j<length rs. k = i + j \<and> \<not> pvr_is_valid (rs ! j))"
proof (induction vma rs i fr rule: rmap_scan.induct)
  case (2 vma r rs i fr)
  have tail: "\<exists>j<length (r # rs). k = i + j \<and> \<not> pvr_is_valid ((r # rs) ! j)"
    if "j < length rs" "k = i + 1 + j" "\<not> pvr_is_valid (rs ! j)" for j
    using that by (intro exI [of _ "Suc j"]) simp
  show ?case
  proof (cases "pvr_is_valid r")
    case True
    then have "pvr_get_vma r \<noteq> vma" "rmap_scan vma rs (i + 1) fr = (False, Some k)" using "2.prems" by (auto split: if_splits)
    from "2.IH"(1) [OF True this] tail show ?thesis by blast
  next
    case False
    then have "rmap_scan vma rs (i + 1) (Some i) = (False, Some k)" using "2.prems" by simp
    from "2.IH"(2) [OF False this] tail have "k = i \<or> (\<exists>j<length (r # rs). k = i + j \<and> \<not> pvr_is_valid ((r # rs) ! j))" by blast
    then show ?thesis
    proof
      assume "k = i"
      with False show ?thesis by (intro disjI2 exI [of _ 0]) simp
    qed blast
  qed
qed simp

definition rmap_full :: "u64 \<Rightarrow> tagged_page \<Rightarrow> bool" where
  "rmap_full vma t \<longleftrightarrow> (\<forall>r\<in>set (tp_rmap t). pvr_is_valid r \<and> pvr_get_vma r \<noteq> vma)"

lemma fill_rmap_abs:
  assumes "i < 32" "cpu < 128" "vaddr AND 0xFFF = 0" "vma AND 1 = 0"
  shows "pvr_abs (pvr_set_cpu (fill_rmap i vaddr vma r) (word_of_nat cpu)) =
    \<lparr>f_vaddr = vaddr, f_idx = word_of_nat i, f_cpu = word_of_nat cpu, f_vma = vma, f_valid = True\<rparr>"
proof -
  have "(word_of_nat cpu :: u64) < 128" using assms(2) by (simp add: word_less_nat_alt unat_of_nat)
  then show ?thesis using word_of_nat_less_32 [OF assms(1)] assms(3,4)
    by (simp add: fill_rmap_def Let_def pvr_refine)
qed

text \<open>The entry of the faulting address, after the update.\<close>

definition recorded :: "fm \<Rightarrow> pid \<Rightarrow> u64 \<times> u64 \<Rightarrow> bool" where
  "recorded s p k \<longleftrightarrow> (\<exists>i<MAX_RMAPS_PER_PAGE. pvr_is_valid (rmap_of s p i) \<and> rmap_key s p i = k)"

lemma map_inv_recorded:
  "map_inv s \<longleftrightarrow> (\<forall>p k. maps_page (fm_pte s) p k \<longrightarrow> tp_in_use (pm_pages s p) = 1 \<and> recorded s p k)"
  by (simp add: map_inv_def recorded_def)

lemma recorded_map:
  assumes "map_inv s" and "tp_in_use (pm_pages s p) = 1" and "recorded s p k" and "pte_frame e = p"
  shows "map_inv (s\<lparr>fm_pte := (fm_pte s)(k \<mapsto> e)\<rparr>)"
proof -
  have "recorded (s\<lparr>fm_pte := m\<rparr>) x j = recorded s x j" for m x j
    by (simp add: recorded_def rmap_of_def rmap_key_def)
  with assms show ?thesis unfolding map_inv_recorded by (auto simp: maps_page_def split: if_splits)
qed

lemma add_rmap_spec:
  assumes len: "length (tp_rmap (pm_pages s p)) = MAX_RMAPS_PER_PAGE" and a: "vmf_address vmf AND 0xFFF = 0" "vmf_vma vmf AND 1 = 0"
    and cpu: "cpu < 128" and s': "s' = dmap_add_or_update_rmap cpu vmf p 0 s"
    and same: "\<And>i. i < MAX_RMAPS_PER_PAGE \<Longrightarrow> pvr_is_valid (rmap_of s p i) \<Longrightarrow> pvr_get_vma (rmap_of s p i) = vmf_vma vmf \<Longrightarrow>
      pvr_get_vaddr (rmap_of s p i) = vmf_address vmf"
  obtains rm where "pm_pages s' = (pm_pages s)(p := (pm_pages s p)\<lparr>tp_rmap := rm\<rparr>)" "length rm = MAX_RMAPS_PER_PAGE"
    and "fm_pvd s' = fm_pvd s" "fm_pte s' = fm_pte s" "env_of s' = env_of s" "pm_fl s' = pm_fl s" "pm_total s' = pm_total s"
      "fb_primary s' = fb_primary s" "fb_dirty s' = fb_dirty s"
    and "\<And>i. i < MAX_RMAPS_PER_PAGE \<Longrightarrow> pvr_is_valid (rmap_of s p i) \<Longrightarrow> rm ! i = rmap_of s p i"
    and "if rmap_full (vmf_vma vmf) (pm_pages s p) then fm_bug s'
         else fm_bug s' = fm_bug s \<and> recorded s' p (vma_mm (fm_vma s (vmf_vma vmf)), vmf_address vmf)"
proof -
  let ?rs = "tp_rmap (pm_pages s p)" and ?vma = "vmf_vma vmf"
  obtain found free where sc: "rmap_scan ?vma ?rs 0 None = (found, free)" by fastforce
  have x: "found \<longleftrightarrow> (\<exists>r\<in>set ?rs. pvr_is_valid r \<and> pvr_get_vma r = ?vma)" using rmap_scan_found [of ?vma ?rs 0 None] sc by simp
  consider (found) "found" | (full) "\<not> found" "free = None" | (new) i where "\<not> found" "free = Some i" by (cases free) auto
  then show ?thesis
  proof cases
    case found
    then have eq: "s' = s" using s' sc by (simp add: dmap_add_or_update_rmap_def)
    from found x obtain i where i: "i < MAX_RMAPS_PER_PAGE" "pvr_is_valid (rmap_of s p i)" "pvr_get_vma (rmap_of s p i) = ?vma"
      by (auto simp: in_set_conv_nth rmap_of_def len)
    then have "recorded s p (vma_mm (fm_vma s ?vma), vmf_address vmf)"
      using same [OF i] by (auto simp: recorded_def rmap_key_def)
    moreover have "\<not> rmap_full ?vma (pm_pages s p)" using found x by (auto simp: rmap_full_def)
    ultimately show ?thesis using len by (intro that [of ?rs]) (simp_all add: eq rmap_of_def)
  next
    case full
    then have eq: "s' = s\<lparr>fm_bug := True\<rparr>" using s' sc by (simp add: dmap_add_or_update_rmap_def)
    have "\<forall>r\<in>set ?rs. pvr_is_valid r" using rmap_scan_none [of ?vma ?rs 0 None] sc full by simp
    with x full(1) have "rmap_full ?vma (pm_pages s p)" unfolding rmap_full_def by blast
    then show ?thesis using len by (intro that [of ?rs]) (simp_all add: eq rmap_of_def env_of_def)
  next
    case (new i)
    have i: "i < MAX_RMAPS_PER_PAGE" "\<not> pvr_is_valid (rmap_of s p i)"
      using rmap_scan_some [of ?vma ?rs 0 None i] sc new by (simp_all add: rmap_of_def len)
    let ?e = "pvr_set_cpu (fill_rmap i (vmf_address vmf) ?vma (rmap_of s p i)) (word_of_nat cpu)"
    have eq: "s' = upd_rmap p i (\<lambda>r. pvr_set_cpu r (word_of_nat cpu))
        (link_mapped (fi_pve (fm_info s (vma_info (fm_vma s ?vma)))) cpu p i (upd_rmap p i (fill_rmap i (vmf_address vmf) ?vma) s))"
      using s' sc new by (simp add: dmap_add_or_update_rmap_def Let_def)
    have pg: "pm_pages s' = (pm_pages s)(p := (pm_pages s p)\<lparr>tp_rmap := ?rs[i := ?e]\<rparr>)"
      using i(1) len by (simp add: eq link_mapped_def upd_pve_def rmap_of_def)
    have rest: "fm_pvd s' = fm_pvd s" "fm_pte s' = fm_pte s" "env_of s' = env_of s" "pm_fl s' = pm_fl s" "pm_total s' = pm_total s"
      "fb_primary s' = fb_primary s" "fb_dirty s' = fb_dirty s" "fm_bug s' = fm_bug s" "fm_vma s' = fm_vma s"
      by (simp_all add: eq link_mapped_def upd_pve_def env_of_def)
    have i32: "i < 32" using i(1) by (simp add: fm_const_defs)
    have "rmap_of s' p i = ?e" using i(1) len by (simp add: rmap_of_def pg)
    then have "recorded s' p (vma_mm (fm_vma s ?vma), vmf_address vmf)"
      unfolding recorded_def rmap_key_def rest(9) using i(1) fill_rmap_abs [OF i32 cpu a, of "rmap_of s p i"]
      by (intro exI [of _ i]) (simp add: fm_simps)
    moreover have "\<not> rmap_full ?vma (pm_pages s p)"
      using i len by (auto simp: rmap_full_def rmap_of_def dest!: nth_mem [of i ?rs, unfolded len])
    moreover have "(?rs[i := ?e]) ! j = rmap_of s p j" if "pvr_is_valid (rmap_of s p j)" for j
      using i(2) that by (cases "j = i") (auto simp: rmap_of_def)
    ultimately show ?thesis using rest pg len by (intro that [of "?rs[i := ?e]"]) simp_all
  qed
qed

text \<open>New reverse-map entries in the place of invalid ones keep the invariants.\<close>

lemma fm_inv_rmap:
  assumes inv: "fm_inv K s" and use: "tp_in_use (pm_pages s p) = 1"
    and pg: "pm_pages s' = (pm_pages s)(p := (pm_pages s p)\<lparr>tp_rmap := rm\<rparr>)" "length rm = MAX_RMAPS_PER_PAGE"
    and rest: "fm_pvd s' = fm_pvd s" "fm_pte s' = fm_pte s" "fm_vma s' = fm_vma s" "pm_fl s' = pm_fl s" "pm_total s' = pm_total s"
      "fb_primary s' = fb_primary s" "fb_dirty s' = fb_dirty s"
    and old: "\<And>i. i < MAX_RMAPS_PER_PAGE \<Longrightarrow> pvr_is_valid (rmap_of s p i) \<Longrightarrow> maps_page (fm_pte s) p (rmap_key s p i) \<Longrightarrow> rm ! i = rmap_of s p i"
  shows "fm_inv K s'"
proof -
  have b: "buf_inv K (dirty_pages s) s" "map_inv s" "flags_ok s" using inv by (simp_all add: fm_inv_def buf_wf_def)
  have D: "dirty_pages s' = dirty_pages s" by (rule dirty_pages_page [OF pg(1)]) simp
  have "same_frame s s'"
    by (rule same_frame_page [OF pg(1)]) (use rest pg(2) buf_inv_page(4) [OF b(1) use] use in \<open>simp_all add: page_ids_def\<close>)
  moreover have "clean_ok s' = clean_ok s" "dirty_ok s' = dirty_ok s"
    by (rule queues_cong; simp add: pg(1) rest)+
  ultimately have "buf_inv K (dirty_pages s) s'" using b(1)
    by (intro buf_inv_frame [OF b(1)]) (auto simp: buf_inv_def pg(1) split: if_splits)
  moreover have "map_inv s'"
  proof -
    have "recorded s' x k" if "recorded s x k" "maps_page (fm_pte s) x k" for x k
    proof (cases "x = p")
      case True
      from that obtain i where i: "i < MAX_RMAPS_PER_PAGE" "pvr_is_valid (rmap_of s x i)" "rmap_key s x i = k"
        by (auto simp: recorded_def)
      then have "rmap_of s' x i = rmap_of s x i" using old that(2) True by (simp add: rmap_of_def pg(1))
      with i show ?thesis unfolding recorded_def rmap_key_def rest(3) by (intro exI [of _ i]) simp
    qed (use that in \<open>simp add: recorded_def rmap_of_def rmap_key_def pg(1) rest(3)\<close>)
    moreover have "tp_in_use (pm_pages s' x) = tp_in_use (pm_pages s x)" for x by (simp add: pg(1))
    moreover have "tp_in_use (pm_pages s x) = 1 \<and> recorded s x k" if "maps_page (fm_pte s) x k" for x k
      using b(2) that unfolding map_inv_recorded by blast
    ultimately show ?thesis unfolding map_inv_recorded rest(2) by metis
  qed
  moreover have "flags_ok s'" using b(3) by (auto simp: flags_ok_def pg(1) settled_def locked_tp_def)
  ultimately show ?thesis by (simp add: fm_inv_def buf_wf_def D)
qed

lemma add_rmap_inv:
  assumes inv: "fm_inv K s" and use: "tp_in_use (pm_pages s p) = 1" and a: "vmf_address vmf AND 0xFFF = 0" "vmf_vma vmf AND 1 = 0"
    and cpu: "cpu < 128" and s': "s' = dmap_add_or_update_rmap cpu vmf p 0 s"
    and same: "\<And>i. i < MAX_RMAPS_PER_PAGE \<Longrightarrow> pvr_is_valid (rmap_of s p i) \<Longrightarrow> pvr_get_vma (rmap_of s p i) = vmf_vma vmf \<Longrightarrow>
      pvr_get_vaddr (rmap_of s p i) = vmf_address vmf"
  shows "fm_inv K s' \<and> kept s s' \<and> (\<exists>rm. pm_pages s' = (pm_pages s)(p := (pm_pages s p)\<lparr>tp_rmap := rm\<rparr>)) \<and>
    fm_pvd s' = fm_pvd s \<and> fm_pte s' = fm_pte s \<and>
    (if rmap_full (vmf_vma vmf) (pm_pages s p) then fm_bug s'
     else fm_bug s' = fm_bug s \<and> recorded s' p (vma_mm (fm_vma s (vmf_vma vmf)), vmf_address vmf))"
proof -
  have b: "buf_inv K (dirty_pages s) s" using inv by (simp add: fm_inv_def buf_wf_def)
  from add_rmap_spec [OF buf_inv_page(4) [OF b use] a cpu s' same] obtain rm where
    pg: "pm_pages s' = (pm_pages s)(p := (pm_pages s p)\<lparr>tp_rmap := rm\<rparr>)" "length rm = MAX_RMAPS_PER_PAGE"
    and rest: "fm_pvd s' = fm_pvd s" "fm_pte s' = fm_pte s" "env_of s' = env_of s" "pm_fl s' = pm_fl s" "pm_total s' = pm_total s"
      "fb_primary s' = fb_primary s" "fb_dirty s' = fb_dirty s"
    and old: "\<And>i. i < MAX_RMAPS_PER_PAGE \<Longrightarrow> pvr_is_valid (rmap_of s p i) \<Longrightarrow> rm ! i = rmap_of s p i"
    and rec: "if rmap_full (vmf_vma vmf) (pm_pages s p) then fm_bug s'
         else fm_bug s' = fm_bug s \<and> recorded s' p (vma_mm (fm_vma s (vmf_vma vmf)), vmf_address vmf)" by blast
  have "fm_inv K s'"
    by (rule fm_inv_rmap [OF inv use pg rest(1,2) env_ofD(1) [OF rest(3)] rest(4-7)]) (simp add: old)
  then show ?thesis using rest pg(1) rec by (auto simp: kept_def)
qed

section \<open>Filling a new page\<close>

lemma tp_set_data_simps [simp]:
  "tp_buffer_id (tp_set_data c t) = tp_buffer_id t" "page_ids (tp_set_data c t) = page_ids t"
  "tp_page_valid (tp_set_data c t) = tp_page_valid t" "tp_is_dirty (tp_set_data c t) = tp_is_dirty t"
  "locked_tp (tp_set_data c t) = locked_tp t" "tp_rmap (tp_set_data c t) = tp_rmap t" "tp_in_use (tp_set_data c t) = tp_in_use t"
  "pg_data (tp_page (tp_set_data c t)) = c" "tp_pvd (tp_set_data c t) = tp_pvd t" "tp_index (tp_set_data c t) = tp_index t"
  by (simp_all add: tp_set_data_def page_ids_def locked_tp_def)

lemma tp_set_data_same [simp]: "tp_set_data (pg_data (tp_page t)) t = t"
  by (simp add: tp_set_data_def)

text \<open>What reading a page leaves alone, besides the page, the bitmap of a raw device and the bug flag.\<close>

definition io_frame :: "fm \<Rightarrow> fm \<Rightarrow> bool" where
  "io_frame s s' \<longleftrightarrow> pm_fl s' = pm_fl s \<and> pm_total s' = pm_total s \<and> pm_numa_dv s' = pm_numa_dv s \<and> fb_primary s' = fb_primary s \<and>
     fb_dirty s' = fb_dirty s \<and> fm_pvd s' = fm_pvd s \<and> fm_pte s' = fm_pte s \<and> fm_vma s' = fm_vma s \<and>
     fm_info s' = fm_info s \<and> fm_disk s' = fm_disk s \<and> fm_lower s' = fm_lower s \<and> fm_isize s' = fm_isize s"

lemma page_update_same: "(pm_pages s)(p := tp_set_data (page_content s p) (pm_pages s p)) = pm_pages s"
  by (simp add: page_content_def)

lemma read_bio_effect:
  "\<exists>c. pm_pages (snd (read_or_fake_page_bio K d off p s)) = (pm_pages s)(p := tp_set_data c (pm_pages s p)) \<and>
     io_frame s (snd (read_or_fake_page_bio K d off p s))"
proof (cases "pvd_bk (fm_pvd s d)"; cases "pvd_rdd (fm_pvd s d)")
  fix b r assume eq: "pvd_bk (fm_pvd s d) = Some b" "pvd_rdd (fm_pvd s d) = Some r"
  let ?read = "in_bitmap (fm_rdd s r) (off div 4096) \<and> rdd_bitmap (fm_rdd s r) (off div 4096) \<and>
    k_bio_ok K b (drop_bit 3 (drop_bit 9 off))"
  let ?c = "if ?read then fm_disk s b (drop_bit 3 (drop_bit 9 off)) else page_content s p"
  have "pm_pages (snd (read_or_fake_page_bio K d off p s)) = (pm_pages s)(p := tp_set_data ?c (pm_pages s p))"
    using eq by (simp add: read_or_fake_page_bio_def read_pages_bio_def Let_def page_content_def upd_rdd_def)
  moreover have "io_frame s (snd (read_or_fake_page_bio K d off p s))"
    using eq by (simp add: read_or_fake_page_bio_def read_pages_bio_def Let_def upd_rdd_def io_frame_def)
  ultimately show ?thesis by blast
qed (intro exI [of _ "page_content s p"]; simp add: read_or_fake_page_bio_def page_content_def io_frame_def)+

lemma read_file_effect:
  "\<exists>c. pm_pages (snd (read_pages_file K vma off p s)) = (pm_pages s)(p := tp_set_data c (pm_pages s p)) \<and>
     io_frame s (snd (read_pages_file K vma off p s))"
proof -
  let ?f = "fm_lower s (vma_file (fm_vma s vma))"
  let ?c = "take (nat (k_read_iter K ?f off)) (fm_disk s ?f (drop_bit 12 off)) @
    drop (nat (k_read_iter K ?f off)) (page_content s p)"
  have "pm_pages (snd (read_pages_file K vma off p s)) = (pm_pages s)(p := tp_set_data ?c (pm_pages s p))"
    by (simp add: read_pages_file_def Let_def page_content_def)
  moreover have "io_frame s (snd (read_pages_file K vma off p s))" by (simp add: read_pages_file_def Let_def io_frame_def)
  ultimately show ?thesis by blast
qed

lemma do_page_io_effect:
  assumes "tp_page_valid (pm_pages s p) = 0"
  shows "\<exists>c. pm_pages (dmap_do_page_io K vma d p off s) = (pm_pages s)(p := (tp_set_data c (pm_pages s p))\<lparr>tp_page_valid := 1\<rparr>) \<and>
    io_frame s (dmap_do_page_io K vma d p off s)"
proof -
  let ?s1 = "if pvd_type (fm_pvd s d) = D_BLKD then snd (read_or_fake_page_bio K d off p s) else snd (read_pages_file K vma off p s)"
  obtain c where c: "pm_pages ?s1 = (pm_pages s)(p := tp_set_data c (pm_pages s p))" "io_frame s ?s1"
    using read_bio_effect [of K d off p s] read_file_effect [of K vma off p s] by (cases "pvd_type (fm_pvd s d) = D_BLKD") auto
  have "dmap_do_page_io K vma d p off s = upd_page p (\<lambda>t. t\<lparr>tp_page_valid := 1\<rparr>) ?s1"
    using assms c(1) by (simp add: dmap_do_page_io_def)
  then have "pm_pages (dmap_do_page_io K vma d p off s) = (pm_pages s)(p := (tp_set_data c (pm_pages s p))\<lparr>tp_page_valid := 1\<rparr>)"
    "io_frame s (dmap_do_page_io K vma d p off s)" using c unfolding io_frame_def by simp_all
  then show ?thesis by blast
qed

lemma set_priority_effect:
  "\<exists>n. pm_pages (dmap_set_page_priority d p off s) = (pm_pages s)(p := (pm_pages s p)\<lparr>tp_priority := n\<rparr>) \<and>
    io_frame s (dmap_set_page_priority d p off s)"
proof -
  have *: "\<exists>n. pm_pages s = (pm_pages s)(p := (pm_pages s p)\<lparr>tp_priority := n\<rparr>)"
    by (rule exI [of _ "tp_priority (pm_pages s p)"]) simp
  then show ?thesis
    by (auto simp: dmap_set_page_priority_def io_frame_def split: option.splits)
qed

lemma buf_inv_page_change:
  assumes inv: "buf_inv K D s" and fr: "io_frame s s'" and pg: "pm_pages s' = (pm_pages s)(p := t)"
    and ids: "page_ids t = page_ids (pm_pages s p)" "tp_buffer_id t = tp_buffer_id (pm_pages s p)" and use: "tp_in_use (pm_pages s p) = 1"
  shows "buf_inv K D s'"
proof (rule buf_inv_frame [OF inv])
  have q: "clean_ok s" "dirty_ok s" using inv by (simp_all add: buf_inv_def)
  show "same_frame s s'" by (rule same_frame_page [OF pg ids(1) use]) (use fr in \<open>simp_all add: io_frame_def\<close>)
  have "clean_ok s' = clean_ok s" "dirty_ok s' = dirty_ok s"
    by (rule queues_cong; use fr ids(2) page_idsD(3) [OF ids(1)] in \<open>auto simp: pg io_frame_def\<close>)+
  then show "clean_ok s'" "dirty_ok s'" using q by simp_all
qed (use ids(2) in \<open>auto simp: pg split: if_splits\<close>)

lemma getpage_fill_spec:
  assumes inv: "fm_inv K s" and h: "held K s p" and r: "page_reset (pm_pages s p)" "locked_tp (pm_pages s p)"
    and s': "s' = getpage_fill K vma d off p s"
  shows "fm_inv K s' \<and> fm_pte s' = fm_pte s \<and> fm_vma s' = fm_vma s \<and> fm_pvd s' = fm_pvd s \<and>
    settled (pm_pages s' p) \<and> tp_buffer_id (pm_pages s' p) = BI_CLEAN \<and> locked_tp (pm_pages s' p) \<and>
    tp_in_use (pm_pages s' p) = 1 \<and> tp_rmap (pm_pages s' p) = tp_rmap (pm_pages s p) \<and>
    tp_pvd (pm_pages s' p) = tp_pvd (pm_pages s p) \<and> p_index s' p = p_index s p"
proof -
  let ?D = "dirty_pages s"
  have b: "buf_inv K ?D s" "map_inv s" "flags_ok s" using inv by (simp_all add: fm_inv_def buf_wf_def)
  have u: "tp_in_use (pm_pages s p) = 1" "tp_buffer_id (pm_pages s p) = BI_NONE" using h by (simp_all add: held_def)
  obtain s1 where s1: "s1 = dmap_set_page_priority d p off s" by simp
  obtain n where p1: "pm_pages s1 = (pm_pages s)(p := (pm_pages s p)\<lparr>tp_priority := n\<rparr>)" and f1: "io_frame s s1"
    using set_priority_effect [of d p off s] s1 by blast
  have i1: "buf_inv K ?D s1"
    by (rule buf_inv_page_change [OF b(1) f1 p1]) (use u in \<open>simp_all add: page_ids_def\<close>)
  have "held K s1 p" using h f1 by (simp add: held_def p1 p_index_def radix_lookup_def io_frame_def)
  obtain s2 where s2: "s2 = insert_page_fifo_buffer_t p False s1" by simp
  have u1: "tp_in_use (pm_pages s1 p) = 1" "tp_buffer_id (pm_pages s1 p) = BI_NONE" by (simp_all add: p1 u)
  from enq_clean_eq [OF i1 u1] obtain f where "enq_clean (clean_q (p_index s1 p)) p s1 =
      (0, s1\<lparr>fb_primary := (fb_primary s1)(clean_q (p_index s1 p) := f), pm_pages := set_buffer_id BI_CLEAN p (pm_pages s1)\<rparr>)"
    by blast
  then have "s2 = s1\<lparr>fb_primary := (fb_primary s1)(clean_q (p_index s1 p) := f), pm_pages := set_buffer_id BI_CLEAN p (pm_pages s1)\<rparr>"
    by (simp add: s2 insert_page_fifo_buffer_t_def)
  then have p2: "pm_pages s2 = (pm_pages s)(p := (pm_pages s p)\<lparr>tp_priority := n, tp_buffer_id := BI_CLEAN\<rparr>)"
    and f2: "fm_pte s2 = fm_pte s" "fm_vma s2 = fm_vma s" "fm_pvd s2 = fm_pvd s"
    using f1 by (simp_all add: p1 set_buffer_id_def io_frame_def)
  have i2: "buf_inv K ?D s2" using insert_page_spec [OF i1 \<open>held K s1 p\<close>, of False] by (simp add: s2)
  have "tp_page_valid (pm_pages s2 p) = 0" using r(1) by (simp add: p2 page_reset_def)
  from do_page_io_effect [OF this, of K vma d "push_bit 12 off"] obtain c where
    p3: "pm_pages s' = (pm_pages s2)(p := (tp_set_data c (pm_pages s2 p))\<lparr>tp_page_valid := 1\<rparr>)" and f3: "io_frame s2 s'"
    by (auto simp: s' getpage_fill_def Let_def s2 s1)
  have i3: "buf_inv K ?D s'"
    by (rule buf_inv_page_change [OF i2 f3 p3]) (simp_all add: p2 u)
  let ?t = "(tp_set_data c ((pm_pages s p)\<lparr>tp_priority := n, tp_buffer_id := BI_CLEAN\<rparr>))\<lparr>tp_page_valid := 1\<rparr>"
  have pg: "pm_pages s' = (pm_pages s)(p := ?t)" by (simp add: p3 p2)
  have t: "settled ?t" "locked_tp ?t" "tp_in_use ?t = 1" "tp_rmap ?t = tp_rmap (pm_pages s p)" "tp_pvd ?t = tp_pvd (pm_pages s p)"
    "tp_index ?t = tp_index (pm_pages s p)"
    using r u by (simp_all add: settled_def page_reset_def locked_tp_def tp_set_data_def)
  have fr: "fm_pte s' = fm_pte s" "fm_vma s' = fm_vma s" "fm_pvd s' = fm_pvd s" using f2 f3 by (simp_all add: io_frame_def)
  have "dirty_pages s' = ?D" using u(2) by (auto simp: dirty_pages_def pg)
  moreover have "map_inv s'" by (rule map_inv_page [OF b(2) pg]) (use t u fr in simp_all)
  moreover have "flags_ok s'" by (rule flags_ok_page [OF b(3) pg]) (use t in simp)
  ultimately have "fm_inv K s'" using i3 by (simp add: fm_inv_def buf_wf_def)
  then show ?thesis using t fr by (simp add: pg p_index_def)
qed

section \<open>Properties of the fault handler\<close>

lemma fm_inv_pvd_flags:
  assumes "fm_inv K s" and "\<And>v. pvd_rdx (f v) = pvd_rdx v" and "\<And>v. pvd_dirty_tree (f v) = pvd_dirty_tree v"
  shows "fm_inv K (upd_pvd d f s)"
proof -
  have "buf_inv K (dirty_pages s) (upd_pvd d f s)"
    by (rule buf_inv_pvd_flags) (use assms in \<open>simp_all add: fm_inv_def buf_wf_def\<close>)
  moreover have "dirty_pages (upd_pvd d f s) = dirty_pages s" by (simp add: dirty_pages_def)
  ultimately show ?thesis using assms(1)
    by (simp add: fm_inv_def buf_wf_def map_inv_def flags_ok_def rmap_of_def rmap_key_def)
qed

lemma tp_set_locked_data [simp]: "pg_data (tp_page (tp_set_locked b t)) = pg_data (tp_page t)"
  by (simp add: tp_set_locked_def)

lemma dirty_in_tree:
  assumes "buf_wf K s" and "tp_buffer_id (pm_pages s p) = BI_DIRTY" and "tp_pvd (pm_pages s p) = Some d"
  shows "p \<in> set_tree (pvd_dirty_tree (fm_pvd s d) (cpu_of_index K (p_index s p)))"
    and "p \<in> set (d_buffer (fb_dirty s (dirty_q (p_index s p))))"
proof -
  have "tree_ok K (dirty_pages s) s" "dirty_ok s" using assms(1) by (simp_all add: buf_wf_def buf_inv_def)
  then show "p \<in> set_tree (pvd_dirty_tree (fm_pvd s d) (cpu_of_index K (p_index s p)))"
    "p \<in> set (d_buffer (fb_dirty s (dirty_q (p_index s p))))"
    using assms(2,3) fam_member [of BI_DIRTY d_buffer d_size d_max_size dirty_q EVICTOR_THREADS "pm_total s" "fb_dirty s" "pm_pages s"]
    by (auto simp: tree_ok_def dirty_pages_def p_index_def)
qed

lemma writable_inv:
  assumes L: "rb_lib_ok (k_rb K)" and inv: "fm_inv K s" and d: "tp_pvd (pm_pages s p) = Some d"
    and st: "settled (pm_pages s p)" and s': "s' = dmap_do_tagged_page_writable K d p s"
  shows "fm_inv K s' \<and> pm_pages s' p = (if tp_buffer_id (pm_pages s p) = BI_CLEAN then mk_writable (pm_pages s p) else pm_pages s p) \<and>
    (\<forall>x. x \<noteq> p \<longrightarrow> pm_pages s' x = pm_pages s x) \<and> fm_bug s' = fm_bug s"
proof (cases "tp_buffer_id (pm_pages s p) = BI_CLEAN")
  case True
  then have "tp_is_dirty (pm_pages s p) = 0" using st by (simp add: settled_def)
  note w = writable_clean [OF L _ d True this, folded s']
  have b: "buf_wf K s" "map_inv s" "flags_ok s" using inv by (simp_all add: fm_inv_def)
  have pg: "pm_pages s' = (pm_pages s)(p := mk_writable (pm_pages s p))" using w [OF b(1)] by blast
  have "map_inv s'" by (rule map_inv_page [OF b(2) pg]) (use w [OF b(1)] in simp_all)
  moreover have "flags_ok s'" by (rule flags_ok_page [OF b(3) pg]) (use st in \<open>simp add: settled_def\<close>)
  ultimately show ?thesis using w [OF b(1)] True by (simp add: fm_inv_def)
next
  case False
  then have "tp_is_dirty (pm_pages s p) \<noteq> 0" using st by (auto simp: settled_def)
  from writable_dirty [OF this, of K d] False inv show ?thesis by (simp add: s')
qed

text \<open>
  C4. The first write to a mapped page. The handler waits only while the page is locked, and refuses
  only when the frame was given to another page or freed meanwhile, changing no page. Otherwise it
  returns with the page locked, of the right number, with its content untouched, and the page is
  in the dirty queue and in the dirty tree of its object: no write is ever lost. The invariants hold in
  every case.
\<close>

theorem perma_page_mkwrite_spec:
  assumes "rb_lib_ok (k_rb K)" and "fm_inv K s" and "vmf_pgoff vmf \<noteq> ULONG_MAX"
    and "p = pg_private (tp_page (pm_pages s (vmf_page vmf)))"
    and "tp_in_use (pm_pages s p) = 1 \<Longrightarrow> p_index s p = vmf_pgoff vmf \<Longrightarrow> tp_pvd (pm_pages s p) = Some (vmf_pvd s vmf)"
    and "perma_page_mkwrite K vmf s = (r, s')"
  shows "fm_inv K s' \<and> fm_bug s' = fm_bug s \<and>
    (case r of
       None \<Rightarrow> locked_tp (pm_pages s p) \<and> pm_pages s' = pm_pages s
     | Some v \<Rightarrow>
         if tp_in_use (pm_pages s p) = 1 \<and> p_index s p = vmf_pgoff vmf
         then v = VM_FAULT_LOCKED \<and> locked_tp (pm_pages s' p) \<and> p_index s' p = vmf_pgoff vmf \<and> page_content s' p = page_content s p \<and>
           p \<in> set_tree (pvd_dirty_tree (fm_pvd s' (vmf_pvd s vmf)) (cpu_of_index K (vmf_pgoff vmf))) \<and>
           p \<in> set (d_buffer (fb_dirty s' (dirty_q (vmf_pgoff vmf))))
         else v = VM_FAULT_NOPAGE \<and> pm_pages s' = pm_pages s)"
proof -
  let ?d = "vmf_pvd s vmf"
  obtain s1 where s1: "s1 = upd_pvd ?d (\<lambda>v. v\<lparr>pvd_is_readonly := False\<rparr>) s" by simp
  have i1: "fm_inv K s1" unfolding s1 by (rule fm_inv_pvd_flags [OF assms(2)]) simp_all
  have pg1: "pm_pages s1 = pm_pages s" "fm_bug s1 = fm_bug s" by (simp_all add: s1)
  have mk: "perma_page_mkwrite K vmf s = (let (tl, tp) = trylock_tp (pm_pages s p) (vmf_pgoff vmf)
      in if tl = -2 then (Some VM_FAULT_NOPAGE, s1) else if tl = -3 then (Some VM_FAULT_NOPAGE, s1) else if tl \<noteq> 0 then (None, s1)
         else (Some VM_FAULT_LOCKED, dmap_do_tagged_page_writable K ?d p (upd_page p (\<lambda>_. tp) s1)))"
    by (simp only: perma_page_mkwrite_def Let_def s1 upd_pvd_simps assms(4))
  have tl: "trylock_tp (pm_pages s p) (vmf_pgoff vmf) =
      (if tp_in_use (pm_pages s p) \<noteq> 1 then (-3, pm_pages s p) else if p_index s p \<noteq> vmf_pgoff vmf then (-2, pm_pages s p)
       else if locked_tp (pm_pages s p) then (-1, pm_pages s p) else (0, tp_set_locked True (pm_pages s p)))"
    using assms(3) by (simp add: trylock_tp_def p_index_def locked_tp_def)
  show ?thesis
  proof (cases "tp_in_use (pm_pages s p) = 1 \<and> p_index s p = vmf_pgoff vmf \<and> \<not> locked_tp (pm_pages s p)")
    case False
    then have "s' = s1 \<and> r = (if tp_in_use (pm_pages s p) = 1 \<and> p_index s p = vmf_pgoff vmf then None else Some VM_FAULT_NOPAGE)"
      using assms(6) by (auto simp: mk tl split: if_splits)
    then show ?thesis using i1 pg1 False by auto
  next
    case True
    have d: "tp_pvd (pm_pages s p) = Some ?d" using assms(5) True by simp
    have st: "settled (pm_pages s p)" using assms(2) True by (auto simp: fm_inv_def flags_ok_def)
    obtain s2 where s2: "s2 = upd_page p (tp_set_locked True) s1" by simp
    have i2: "fm_inv K s2" unfolding s2 by (rule fm_inv_lock [OF i1]) (simp add: pg1 True)
    have p2: "pm_pages s2 p = tp_set_locked True (pm_pages s p)" by (simp add: s2 pg1)
    have rs: "r = Some VM_FAULT_LOCKED" "s' = dmap_do_tagged_page_writable K ?d p s2"
      using assms(6) True by (simp_all add: mk tl s2 upd_page_def pg1)
    have st2: "settled (pm_pages s2 p)" "tp_pvd (pm_pages s2 p) = Some ?d" using st d by (simp_all add: p2 settled_def)
    note w = writable_inv [OF assms(1) i2 st2(2,1) rs(2)]
    have t: "tp_buffer_id (pm_pages s' p) = BI_DIRTY" "tp_pvd (pm_pages s' p) = Some ?d" "p_index s' p = vmf_pgoff vmf"
      "locked_tp (pm_pages s' p)" "page_content s' p = page_content s p"
      using w st2 True by (auto simp: p2 p_index_def page_content_def settled_def)
    have "buf_wf K s'" using w by (simp add: fm_inv_def)
    from dirty_in_tree [OF this t(1,2)] w t True show ?thesis by (simp add: rs(1) s2 pg1)
  qed
qed

lemma fm_inv_bug [simp]: "fm_inv K s \<Longrightarrow> fm_inv K (s\<lparr>fm_bug := b\<rparr>)"
  using buf_inv_bug [of K "dirty_pages s" s b]
  by (simp add: fm_inv_def buf_wf_def dirty_pages_def map_inv_def flags_ok_def rmap_of_def rmap_key_def)

text \<open>The page a fault returns, before its mapping is recorded.\<close>

definition ready :: "kernel \<Rightarrow> nat \<Rightarrow> u64 \<Rightarrow> pid \<Rightarrow> fm \<Rightarrow> bool" where
  "ready K d off p s \<longleftrightarrow> tp_in_use (pm_pages s p) = 1 \<and> locked_tp (pm_pages s p) \<and> settled (pm_pages s p) \<and>
     p_index s p = off \<and> tp_pvd (pm_pages s p) = Some d \<and> radix_lookup K s d off = Some p"

lemma perma_getpage_cases:
  assumes inv: "fm_inv K s" and K: "walk_ok K" "topology_ok (k_topo K)"
    and r: "perma_getpage K nodeid cpu rnds vmf s = (res, s')"
  obtains "res = None" "fm_inv K s'"
  | v where "res = Some (v, None)" "fm_inv K s'" "v = - EFAULT \<and> s' = s \<or> fm_bug s'"
  | p s1 where "res = Some (VM_FAULT_LOCKED, Some p)" "fm_inv K s1" "ready K (vmf_pvd s vmf) (vmf_pgoff vmf) p s1" "fm_vma s1 = fm_vma s"
      "s' = dmap_add_or_update_rmap cpu vmf p 0 s1"
      "radix_lookup K s (vmf_pvd s vmf) (vmf_pgoff vmf) = Some p \<and> tp_rmap (pm_pages s1 p) = tp_rmap (pm_pages s p) \<or>
       (\<forall>i<MAX_RMAPS_PER_PAGE. \<not> pvr_is_valid (rmap_of s1 p i))"
proof -
  let ?d = "vmf_pvd s vmf" and ?off = "vmf_pgoff vmf" and ?v = "fm_vma s (vmf_vma vmf)"
  obtain f s1 where f: "getpage_find K nodeid ?d ?off rnds s = (f, s1)" by fastforce
  note x = getpage_find_spec [OF inv K f]
  let ?bad = "vmf_address vmf < vma_start ?v \<or> vmf_address vmf \<ge> vma_end ?v" and ?n = "getpage_dev_pgs K ?d (vma_file ?v) s"
  consider (range) "?bad" | (none) "\<not> ?bad" "?n = None" | (num) n where "\<not> ?bad" "?n = Some n" "getpage_num_pages n ?off \<noteq> 1"
    | (ok) n where "\<not> ?bad" "?n = Some n" "getpage_num_pages n ?off = 1"
    by (cases ?n) blast+
  then show ?thesis
  proof cases
    case range
    then have "res = Some (- EFAULT, None) \<and> s' = s" using r by (simp add: perma_getpage_def Let_def)
    then show ?thesis using that(2) inv by blast
  next
    case none
    then have "res = Some (VM_FAULT_LOCKED, None) \<and> s' = s\<lparr>fm_bug := True\<rparr>" using r by (simp add: perma_getpage_def Let_def)
    then show ?thesis using fm_inv_bug [OF inv] by (intro that(2) [of VM_FAULT_LOCKED]) simp_all
  next
    case num
    then have "res = Some (VM_FAULT_LOCKED, None) \<and> s' = s\<lparr>fm_bug := True\<rparr>" using r by (simp add: perma_getpage_def Let_def)
    then show ?thesis using fm_inv_bug [OF inv] by (intro that(2) [of VM_FAULT_LOCKED]) simp_all
  next
    case ok
    have res: "perma_getpage K nodeid cpu rnds vmf s = (case f of
        Hit p \<Rightarrow> (Some (VM_FAULT_LOCKED, Some p), dmap_add_or_update_rmap cpu vmf p 0 s1)
      | Fresh p \<Rightarrow> (Some (VM_FAULT_LOCKED, Some p), dmap_add_or_update_rmap cpu vmf p 0 (getpage_fill K (vmf_vma vmf) ?d ?off p s1))
      | _ \<Rightarrow> (None, s1))"
      using ok f by (simp add: perma_getpage_def Let_def split: find_result.splits)
    show ?thesis
    proof (cases f)
      case (Hit p)
      have "buf_inv K (dirty_pages s1) s1" using x by (simp add: fm_inv_def buf_wf_def)
      from found_in_use [OF this, of ?d "cpu_of_index K ?off" ?off p] x Hit
      have "ready K ?d ?off p s1" by (auto simp: ready_def radix_lookup_def settled_def)
      with x Hit r res show ?thesis by (intro that(3) [of p s1]) (auto simp: kept_def dest: env_ofD)
    next
      case (Fresh p)
      obtain s2 where s2: "s2 = getpage_fill K (vmf_vma vmf) ?d ?off p s1" by simp
      have y: "fm_inv K s1" "held K s1 p" "page_reset (pm_pages s1 p)" "locked_tp (pm_pages s1 p)" "radix_lookup K s1 ?d ?off = Some p"
        "p_index s1 p = ?off" "tp_pvd (pm_pages s1 p) = Some ?d" "fm_vma s1 = fm_vma s"
        using x Fresh by (auto simp: kept_def dest: env_ofD)
      note z = getpage_fill_spec [OF y(1-4) s2]
      have "ready K ?d ?off p s2" using z y by (simp add: ready_def radix_lookup_def)
      moreover have "\<not> pvr_is_valid (rmap_of s2 p i)" if "i < MAX_RMAPS_PER_PAGE" for i
        using z y(3) that by (simp add: rmap_of_def page_reset_def fm_simps)
      ultimately show ?thesis using Fresh r res z y(8) s2 by (intro that(3) [of p s2]) simp_all
    qed (use x r res that(1) in simp_all)
  qed
qed


section \<open>The content of a page that is read\<close>

lemma page_number_round_trip:
  assumes "(w :: u64) < 2 ^ 52"
  shows "drop_bit 12 (push_bit 12 w) = w" "push_bit 12 w div 4096 = w" "drop_bit 3 (drop_bit 9 (push_bit 12 w)) = w"
proof -
  have "w AND mask 52 = w" using assms by (rule less_mask_eq)
  then have "n < 52" if "bit w n" for n
    using that bit_and_iff [of w "mask 52" n] by (simp add: bit_simps)
  then show 1: "drop_bit 12 (push_bit 12 w) = w" by (auto simp: bit_simps intro!: bit_word_eqI)
  have "push_bit 12 w div 4096 = drop_bit 12 (push_bit 12 w)" by (simp add: drop_bit_eq_div)
  then show "push_bit 12 w div 4096 = w" using 1 by simp
  show "drop_bit 3 (drop_bit 9 (push_bit 12 w)) = w" using 1 by simp
qed

text \<open>The three ways to fill a page: a read of the device, no read at all, a read of the file.\<close>

lemma do_page_io_content:
  assumes "tp_page_valid (pm_pages s p) = 0" and "off < 2 ^ 52"
  shows "pvd_type (fm_pvd s d) = D_BLKD \<Longrightarrow> pvd_bk (fm_pvd s d) = Some b \<Longrightarrow> pvd_rdd (fm_pvd s d) = Some r \<Longrightarrow>
      in_bitmap (fm_rdd s r) off \<Longrightarrow> rdd_bitmap (fm_rdd s r) off \<Longrightarrow> k_bio_ok K b off \<Longrightarrow>
      page_content (dmap_do_page_io K vma d p (push_bit 12 off) s) p = fm_disk s b off"
    and "pvd_type (fm_pvd s d) = D_BLKD \<Longrightarrow> pvd_bk (fm_pvd s d) = Some b \<Longrightarrow> pvd_rdd (fm_pvd s d) = Some r \<Longrightarrow>
      in_bitmap (fm_rdd s r) off \<Longrightarrow> \<not> rdd_bitmap (fm_rdd s r) off \<Longrightarrow>
      page_content (dmap_do_page_io K vma d p (push_bit 12 off) s) p = page_content s p \<and>
      rdd_bitmap (fm_rdd (dmap_do_page_io K vma d p (push_bit 12 off) s) r) off"
    and "pvd_type (fm_pvd s d) = D_FILE \<Longrightarrow> b = fm_lower s (vma_file (fm_vma s vma)) \<Longrightarrow>
      k_read_iter K b (push_bit 12 off) = 4096 \<Longrightarrow> length (fm_disk s b off) = 4096 \<Longrightarrow> length (page_content s p) = 4096 \<Longrightarrow>
      page_content (dmap_do_page_io K vma d p (push_bit 12 off) s) p = fm_disk s b off"
  using assms
  by (simp_all add: dmap_do_page_io_def read_or_fake_page_bio_def read_pages_bio_def read_pages_file_def Let_def
      page_number_round_trip page_content_def upd_rdd_def set_bit_rdd_def)

lemma insert_page_content:
  "page_content (insert_page_fifo_buffer_t p b s) p = page_content s p"
  "tp_page_valid (pm_pages (insert_page_fifo_buffer_t p b s) p) = tp_page_valid (pm_pages s p)"
  by (auto simp: insert_page_fifo_buffer_t_def enq_clean_def lp_enqueue_def Let_def page_content_def set_buffer_id_def
      split: prod.splits)

lemma set_priority_content:
  "page_content (dmap_set_page_priority d p off s) p = page_content s p"
  "tp_page_valid (pm_pages (dmap_set_page_priority d p off s) p) = tp_page_valid (pm_pages s p)"
  "fm_rdd (dmap_set_page_priority d p off s) = fm_rdd s"
  by (auto simp: dmap_set_page_priority_def page_content_def split: option.splits)

lemma set_priority_frame:
  "fm_pvd (dmap_set_page_priority d p off s) = fm_pvd s" "fm_disk (dmap_set_page_priority d p off s) = fm_disk s"
  "fm_lower (dmap_set_page_priority d p off s) = fm_lower s" "fm_vma (dmap_set_page_priority d p off s) = fm_vma s"
  using set_priority_effect [of d p off s] by (simp_all add: io_frame_def)

lemmas fill_frame = insert_page_content set_priority_content set_priority_frame

lemma add_rmap_content: "page_content (dmap_add_or_update_rmap cpu vmf p off s) x = page_content s x"
  "fm_rdd (dmap_add_or_update_rmap cpu vmf p off s) = fm_rdd s"
  by (auto simp: dmap_add_or_update_rmap_def Let_def page_content_def link_mapped_def upd_pve_def split: prod.splits option.splits)

lemma getpage_fresh_result:
  assumes "fm_inv K s" and "walk_ok K" "topology_ok (k_topo K)" and none: "radix_lookup K s (vmf_pvd s vmf) (vmf_pgoff vmf) = None"
    and r: "perma_getpage K nodeid cpu rnds vmf s = (Some (v, Some p), s')"
  obtains s1 where "kept s s1" "page_reset (pm_pages s1 p)"
    "s' = dmap_add_or_update_rmap cpu vmf p 0 (getpage_fill K (vmf_vma vmf) (vmf_pvd s vmf) (vmf_pgoff vmf) p s1)"
proof -
  obtain f s1 where f: "getpage_find K nodeid (vmf_pvd s vmf) (vmf_pgoff vmf) rnds s = (f, s1)" by fastforce
  note x = getpage_find_spec [OF assms(1-3) f]
  have "f = Fresh p \<and> s' = dmap_add_or_update_rmap cpu vmf p 0 (getpage_fill K (vmf_vma vmf) (vmf_pvd s vmf) (vmf_pgoff vmf) p s1)"
    using r f x none by (cases f) (auto simp: perma_getpage_def Let_def split: if_splits option.splits)
  with x show ?thesis using that [of s1] by simp
qed


end
