(* ===== verification/Fault_Progress.thy ===== *)
theory Fault_Progress
  imports Fault_Handler
begin

text \<open>
  Threads that fault at the same time, the progress of a fault when the buffer is full, and the error
  behaviour of the fault handler, with the examples for its properties.
\<close>

section \<open>Two threads and one page number\<close>

lemma fresh_after_insert:
  assumes "fresh K d off q s" and "p \<noteq> q" and "radix_lookup K s d off = None"
  shows "fresh K d off q (snd (radix_insert K d off p s))"
  using assms by (auto simp: fresh_def detached_def radix_insert_def p_index_def)

text \<open>
  C26. Two threads that fault on the same missing page both allocate a page for it. The one that inserts
  first wins; the other gets its page back on the free lists and starts again, whereupon it finds
  the page of the first: a number never has two pages.
\<close>

theorem racing_faults_share_page:
  assumes "fm_inv K s" and "fresh K d off p s" and "fresh K d off q s" and "p \<noteq> q"
    and "radix_lookup K s d off = None"
  shows "\<exists>s1 s2. getpage_insert K d off p s = (Fresh p, s1) \<and> getpage_insert K d off q s1 = (Again, s2) \<and>
    radix_lookup K s2 d off = Some p \<and> pm_pages s2 p = pm_pages s p \<and> fm_inv K s2 \<and>
    free_set (k_topo K) s2 = insert q (free_set (k_topo K) s)"
proof -
  obtain r1 s1 where g1: "getpage_insert K d off p s = (r1, s1)" by fastforce
  note x = getpage_insert_spec [OF assms(1,2) g1]
  then have r1: "r1 = Fresh p" using assms(5) by (cases r1) simp_all
  have s1: "s1 = snd (radix_insert K d off p s)"
    using g1 assms(5) by (simp add: getpage_insert_def fmap_radix_insert_def radix_insert_def)
  have f1: "fresh K d off q s1" unfolding s1 by (rule fresh_after_insert [OF assms(3,4,5)])
  have i1: "fm_inv K s1" "radix_lookup K s1 d off = Some p" "pm_pages s1 = pm_pages s" using x r1 by simp_all
  obtain r2 s2 where g2: "getpage_insert K d off q s1 = (r2, s2)" by fastforce
  note y = getpage_insert_spec [OF i1(1) f1 g2]
  then have r2: "r2 = Again" using i1(2) by (cases r2) simp_all
  have "free_set (k_topo K) s1 = free_set (k_topo K) s" using assms(5) by (simp add: s1 radix_insert_def free_set_def)
  moreover have "radix_lookup K s2 d off = Some p" using y r2 i1(2) by (simp add: radix_lookup_def)
  ultimately show ?thesis using g1 g2 r1 r2 y i1 assms(4) by (intro exI [of _ s1] exI [of _ s2]) simp
qed

section \<open>A fault makes progress\<close>

lemma purge_one_grows: "\<exists>l. fst (snd (purge_one K q (et, pgs, s))) = pgs @ l"
  by (auto simp: purge_one_def Let_def split: prod.splits option.splits)

lemma purge_loop_grows: "\<exists>l. fst (snd ((purge_one K q ^^ n) st)) = fst (snd st) @ l"
proof (induction n)
  case (Suc n)
  obtain et pgs s where e: "(purge_one K q ^^ n) st = (et, pgs, s)" by (metis prod_cases3)
  then show ?case using Suc purge_one_grows [of K q et pgs s] by auto
qed simp

lemma purge_one_takes:
  assumes inv: "buf_inv K D s" and q: "q < NUM_QUEUES" and hd: "lp_buffer (fb_primary s q) = p # rest" and c: "can_purge s p"
  shows "fst (snd (purge_one K q (et, pgs, s))) = pgs @ [p]"
proof -
  have "clean_ok s" using inv by (simp add: buf_inv_def)
  then have "lpq.wf (fb_primary s q) (pm_pages s)" using q by (simp add: fam_ok_def)
  from lpq.wf_sz [OF this] hd have sz: "0 < lp_size (fb_primary s q)" "lp_size (fb_primary s q) < 2 ^ 64" by auto
  have "deq (fm_pvd s) p (pm_pages s) = (True, (pm_pages s)(p := tp_set_locked True (pm_pages s p)))" using c by (simp add: deq_eq)
  from lpq.deq_if_yes [OF sz hd, of "deq (fm_pvd s)", OF this] obtain f where
    "lp_dequeue_if (fb_primary s q) (deq (fm_pvd s)) (pm_pages s) =
       (Some p, f, set_buffer_id BI_NONE p ((pm_pages s)(p := tp_set_locked True (pm_pages s p))))" by blast
  moreover obtain d where "tp_pvd (pm_pages s p) = Some d" using buf_inv_page(2) [OF inv] c by (auto simp: can_purge_def)
  ultimately show ?thesis
    by (auto simp: purge_one_def deq_if_clean_def Let_def set_buffer_id_def split: prod.splits)
qed

lemma purge_frees_head:
  assumes "fm_inv K s" and K: "walk_ok K" and q: "q < NUM_QUEUES" and hd: "lp_buffer (fb_primary s q) = p # rest" and c: "can_purge s p"
  shows "p \<in> free_set (k_topo K) (snd (try_purge_pages_fast K N q s))"
proof -
  have b: "buf_wf K s" "map_inv s" using assms(1) by (simp_all add: fm_inv_def)
  obtain n s' where r: "try_purge_pages_fast K N q s = (n, s')" by fastforce
  obtain et pgs s1 where l: "(purge_one K q ^^ PURGE_N) (etlb_init, [], s) = (et, pgs, s1)" by (metis prod_cases3)
  have "(purge_one K q ^^ PURGE_N) (etlb_init, [], s) = (purge_one K q ^^ 191) (purge_one K q (etlb_init, [], s))"
    using funpow_Suc_right [of 191 "purge_one K q"] by (simp add: PURGE_N_def del: funpow.simps)
  with purge_loop_grows [of 191 K q "purge_one K q (etlb_init, [], s)"] purge_one_takes [OF b(1) [unfolded buf_wf_def] q hd c, of etlb_init "[]"] l
  obtain l where pgs: "pgs = p # l" by auto
  have L: "purged q (set pgs) s s1" "distinct pgs" "buf_inv K (dirty_pages s) s1" "map_inv s1"
    using purge_loop_spec [OF _ b(2) K q l] b(1) by (auto simp: buf_wf_def)
  obtain x where fl: "flush_etlb (\<lambda>s mm. mm) et s1 = s1\<lparr>fm_flush := x\<rparr>" using flush_etlb_frame by blast
  have s': "s' = fold free_page_lock pgs (s1\<lparr>fm_flush := x\<rparr>)"
    using r l pgs fl by (simp add: try_purge_pages_fast_def)
  have *: "p \<in> free_set T (fold free_page_lock ps t)" if "p \<in> free_set T t" for T ps and t :: fm
    using that
  proof (induction ps arbitrary: t)
    case (Cons a ps)
    from Cons.prems obtain c where "c < num_online_cpus T" "p \<in> set (pm_fl t c)" by (auto simp: free_set_def)
    then have "p \<in> free_set T (free_page_lock a t)" by (intro free_setI [of c]) auto
    from Cons.IH [OF this] show ?case by simp
  qed simp
  have use: "tp_in_use (pm_pages s1 p) = 1"
    using L(1) pgs c page_idsD(1) [of "pm_pages s1 p" "pm_pages s p"] by (auto simp: purged_def can_purge_def)
  have "tp_cpuid (pm_pages s1 p) < ncpus K" by (rule buf_inv_page(3) [OF L(3) use])
  then have "p \<in> free_set (k_topo K) (free_page_lock p (s1\<lparr>fm_flush := x\<rparr>))" by (auto simp: free_set_def)
  then show ?thesis using * r by (simp add: s' pgs)
qed

lemma find_with_free_page:
  assumes inv: "fm_inv K s" and K: "walk_ok K" "topology_ok (k_topo K)"
    and T: "num_online_nodes (k_topo K) = 1" "pm_numa_dv s = Some [0]" "set (cpumask_of_node (k_topo K) 0) = {..<ncpus K}"
    and none: "radix_lookup K s d off = None" and free: "free_set (k_topo K) s \<noteq> {}"
  shows "\<exists>p s'. getpage_find K 0 d off (rnd # rnds) s = (Fresh p, s')"
proof -
  have pw: "pm_wf (k_topo K) s" using inv by (simp add: fm_inv_def buf_wf_def buf_inv_def)
  obtain a s1 where al: "alloc_page_lock (k_topo K) 0 off d s = (a, s1)" by fastforce
  have "a \<noteq> None"
    using alloc_page_lock_one_node [OF K(2) pw T(1,2), of off d] al free T(3) by (cases a) (auto simp: free_set_def)
  then obtain p where a: "a = Some p" by blast
  note x = getpage_alloc_spec [OF inv K(2) al [unfolded a]]
  obtain s2 where s2: "s2 = upd_page p (tp_set_locked True) s1" by simp
  have l: "getpage_lookup K 0 d off rnd s = (Alloc p, s2)"
    using al a none x by (simp add: getpage_lookup_def fmap_radix_lookup_def s2 upd_page_def)
  have "radix_lookup K s2 d off = None" using none x by (simp add: s2 radix_lookup_def)
  then have "getpage_insert K d off p s2 = (Fresh p, snd (radix_insert K d off p s2))"
    by (simp add: getpage_insert_def fmap_radix_insert_def radix_insert_def)
  then show ?thesis using l by simp
qed


section \<open>Errors of a fault\<close>

lemma sint_word_of_int_32:
  assumes "- (2 ^ 31) \<le> k" and "k < 2 ^ 31"
  shows "sint (word_of_int k :: 32 word) = k"
proof -
  have "(k + 2147483648) mod 4294967296 = k + 2147483648" using assms by (intro mod_pos_pos_trivial) simp_all
  then show ?thesis by (simp add: int_word_sint)
qed

lemma num_pages_eq:
  assumes "unat dev_pgs < 2 ^ 31" and "unat pgoff < 2 ^ 31"
  shows "getpage_num_pages dev_pgs pgoff = (if unat pgoff \<le> unat dev_pgs then 1 else int (unat dev_pgs) - int (unat pgoff))"
proof -
  let ?N = "int (unat dev_pgs)" and ?O = "int (unat pgoff)"
  have sc: "sint dev_pgs = ?N"
  proof -
    have "?N < 2 ^ 31" using assms(1) by (simp only: of_nat_less_numeral_power_cancel_iff)
    moreover have "- (2 ^ 31) \<le> ?N" by (rule order_trans [of _ 0]) simp_all
    ultimately have "sint (word_of_int ?N :: 32 word) = ?N" by (intro sint_word_of_int_32)
    then show ?thesis by simp
  qed
  have s64: "(scast dev_pgs :: 64 word) = word_of_int ?N" by (simp only: scast_eq sc)
  have u: "unat (scast dev_pgs :: 64 word) = unat dev_pgs"
    using assms(1) unfolding s64 by (simp only: of_int_of_nat_eq unat_of_nat) simp
  have u1: "unat (pgoff + 1) = unat pgoff + 1"
    using assms(2) by (simp add: unat_word_ariths)
  have le: "pgoff + 1 \<le> scast dev_pgs \<longleftrightarrow> unat pgoff < unat dev_pgs" by (simp add: word_le_nat_alt u u1 Suc_le_eq)
  have "pgoff = word_of_int ?O" by simp
  then have "scast dev_pgs - pgoff = word_of_int (?N - ?O)" by (metis s64 wi_hom_sub)
  moreover have "(ucast (word_of_int k :: 64 word) :: 32 word) = word_of_int k" for k
    by (rule ucast_down_wi) (simp add: is_down)
  ultimately have d: "(ucast (scast dev_pgs - pgoff) :: 32 word) = word_of_int (?N - ?O)" by (simp only:)
  have s: "sint (word_of_int (?N - ?O) :: 32 word) = ?N - ?O"
  proof (rule sint_word_of_int_32)
    have "?N < 2 ^ 31" "?O < 2 ^ 31" using assms by (simp_all only: of_nat_less_numeral_power_cancel_iff)
    moreover have "0 \<le> ?N" "0 \<le> ?O" by (rule of_nat_0_le_iff)+
    ultimately show "- (2 ^ 31) \<le> ?N - ?O" "?N - ?O < 2 ^ 31" by linarith+
  qed
  have z: "(word_of_int (?N - ?O) :: 32 word) = 0 \<longleftrightarrow> ?N = ?O" using s by (metis eq_iff_diff_eq_0 of_int_0 sint_0)
  show ?thesis
  proof (cases "unat pgoff < unat dev_pgs")
    case True
    then show ?thesis using le by (simp add: getpage_num_pages_def)
  next
    case False
    then have "\<not> pgoff + 1 \<le> scast dev_pgs" by (simp only: le not_False_eq_True)
    then have "getpage_num_pages dev_pgs pgoff = (if ?N = ?O then 1 else ?N - ?O)"
      by (simp only: getpage_num_pages_def Let_def if_False d s z)
    moreover have "?N = ?O \<longleftrightarrow> unat pgoff \<le> unat dev_pgs"
      using False unfolding of_nat_eq_iff by linarith
    ultimately show ?thesis by (simp only:)
  qed
qed

text \<open>
  C38. Errors of a fault. An address outside the region is refused with \<^verbatim>\<open>-EFAULT\<close> and nothing changes.
  For objects and numbers below \<open>2 ^ 31\<close> pages, a number up to and including the size of the object is
  served; beyond it the handler works on a page it never looked up.
\<close>

theorem getpage_errors:
  assumes "getpage_dev_pgs K (vmf_pvd s vmf) (vma_file (fm_vma s (vmf_vma vmf))) s = Some n"
    and "unat n < 2 ^ 31" and "unat (vmf_pgoff vmf) < 2 ^ 31"
  shows "(vmf_address vmf \<notin> {vma_start (fm_vma s (vmf_vma vmf))..<vma_end (fm_vma s (vmf_vma vmf))} \<longrightarrow>
      perma_vma_fault K nodeid cpu rnds vmf s = (Some (- EFAULT, vmf), s)) \<and>
    (vmf_address vmf \<in> {vma_start (fm_vma s (vmf_vma vmf))..<vma_end (fm_vma s (vmf_vma vmf))} \<longrightarrow>
      unat (vmf_pgoff vmf) > unat n \<longrightarrow>
      perma_vma_fault K nodeid cpu rnds vmf s = (Some (VM_FAULT_LOCKED, vmf), s\<lparr>fm_bug := True\<rparr>)) \<and>
    (unat (vmf_pgoff vmf) \<le> unat n \<longleftrightarrow> getpage_num_pages n (vmf_pgoff vmf) = 1)"
proof -
  let ?v = "fm_vma s (vmf_vma vmf)"
  note num = num_pages_eq [OF assms(2,3)]
  have beyond: "getpage_num_pages n (vmf_pgoff vmf) \<noteq> 1" if "unat (vmf_pgoff vmf) > unat n"
  proof -
    have "\<not> unat (vmf_pgoff vmf) \<le> unat n" using that by simp
    then have "getpage_num_pages n (vmf_pgoff vmf) = int (unat n) - int (unat (vmf_pgoff vmf))" unfolding num by (rule if_not_P)
    then show ?thesis using that by linarith
  qed
  have "perma_vma_fault K nodeid cpu rnds vmf s = (Some (- EFAULT, vmf), s)" if "vmf_address vmf \<notin> {vma_start ?v..<vma_end ?v}"
    using that by (auto simp: perma_vma_fault_def perma_getpage_def Let_def)
  moreover have "perma_vma_fault K nodeid cpu rnds vmf s = (Some (VM_FAULT_LOCKED, vmf), s\<lparr>fm_bug := True\<rparr>)"
    if "vmf_address vmf \<in> {vma_start ?v..<vma_end ?v}" "unat (vmf_pgoff vmf) > unat n"
  proof -
    have "\<not> (vmf_address vmf < vma_start ?v \<or> vmf_address vmf \<ge> vma_end ?v)" using that(1) by auto
    moreover have "getpage_num_pages n (vmf_pgoff vmf) \<noteq> 1" by (rule beyond [OF that(2)])
    ultimately have "perma_getpage K nodeid cpu rnds vmf s = (Some (VM_FAULT_LOCKED, None), s\<lparr>fm_bug := True\<rparr>)"
      unfolding perma_getpage_def Let_def assms(1) by simp
    then show ?thesis by (simp add: perma_vma_fault_def)
  qed
  moreover have "getpage_num_pages n (vmf_pgoff vmf) = 1" if "unat (vmf_pgoff vmf) \<le> unat n" using num that by simp
  ultimately show ?thesis using beyond by (metis not_le)
qed

section \<open>Examples\<close>

lemma buf_example_inv: "fm_inv kernel_example buf_example"
proof -
  have "settled (pm_pages buf_example 3)"
    by (simp add: settled_def buf_example_simps fm_mapped_def fm_example_def tp_example_def tp_set_defs Let_def upd_rmap_def)
  moreover have "tp_in_use (pm_pages buf_example p) = 1 \<Longrightarrow> p = 3" for p by (simp add: buf_example_simps split: if_splits)
  ultimately have "flags_ok buf_example" unfolding flags_ok_def by metis
  then show ?thesis using buf_example_wf buf_example_map by (simp add: fm_inv_def)
qed

lemma kernel_example_topo:
  "topology_ok (k_topo kernel_example)" "num_online_nodes (k_topo kernel_example) = 1" "ncpus kernel_example = 4"
  "set (cpumask_of_node (k_topo kernel_example) 0) = {..<ncpus kernel_example}"
proof -
  show "topology_ok (k_topo kernel_example)" using one_node_ok(1) by (simp add: kernel_example_def)
  show n: "num_online_nodes (k_topo kernel_example) = 1" "ncpus kernel_example = 4"
    by (simp_all add: kernel_example_def one_node_topology_def)
  show "set (cpumask_of_node (k_topo kernel_example) 0) = {..<ncpus kernel_example}"
    by (auto simp: kernel_example_def one_node_topology_def)
qed

text \<open>A fault at the mapped address of page 3, and one on page 5, which is not in the buffer.\<close>

definition vmf_hit :: vm_fault where
  "vmf_hit = \<lparr>vmf_vma = 0x40, vmf_address = 0x15000, vmf_pgoff = 3, vmf_page = 3\<rparr>"

definition vmf_miss :: vm_fault where
  "vmf_miss = \<lparr>vmf_vma = 0x40, vmf_address = 0x17000, vmf_pgoff = 5, vmf_page = 0\<rparr>"

lemma buf_example_rest:
  "fm_info buf_example i = \<lparr>fi_is_fastmap = True, fi_pvd = 0, fi_pve = 0\<rparr>"
  "fm_vma buf_example v = \<lparr>vma_mm = 0x80, vma_start = 0x10000, vma_end = 0x20000, vma_pgoff = 0, vma_flags = 0,
                  vma_info = 0, vma_file = 0\<rparr>"
  "pm_numa_dv buf_example = Some [0]" "fm_disk buf_example b j = [ucast j]"
  "fm_rdd buf_example r = \<lparr>rdd_inuse = 1, rdd_dev_id = 0, rdd_binding = Some 0, rdd_meta = Some (replicate 16 0),
                  rdd_size_in_pages = 16, rdd_bitmap_size = 16, rdd_bitmap = (\<lambda>i. True), rdd_path = []\<rparr>"
  "vmf_pvd buf_example vmf = 0" "pg_private (tp_page (pm_pages buf_example 3)) = 3" "\<not> locked_tp (pm_pages buf_example 3)"
  by (simp_all add: buf_example_def fm_mapped_def fm_example_def Let_def radix_insert_def radix_lookup_def upd_pvd_def vmf_pvd_def
      pvd_example_def cpu_of_index_def kernel_example_def one_node_topology_def upd_rmap_def upd_page_def locked_tp_def
      tp_set_defs page_NULL_def)

lemma buf_example_lookup:
  "radix_lookup kernel_example buf_example 0 5 = None" "radix_lookup kernel_example buf_example 0 3 = Some 3"
  by (simp_all add: radix_lookup_def buf_example_simps pvd_example_def cpu_of_index_def kernel_example_topo(3))

theorem perma_page_mkwrite_spec_witness:
  "\<exists>s'. perma_page_mkwrite kernel_example vmf_hit buf_example = (Some VM_FAULT_LOCKED, s') \<and>
     3 \<in> set (d_buffer (fb_dirty s' 0)) \<and> page_content s' 3 = page_content buf_example 3"
proof -
  obtain r s' where r: "perma_page_mkwrite kernel_example vmf_hit buf_example = (r, s')" by fastforce
  have p: "(3 :: nat) = pg_private (tp_page (pm_pages buf_example (vmf_page vmf_hit)))" "vmf_pgoff vmf_hit \<noteq> ULONG_MAX" "vmf_pgoff vmf_hit = 3"
    by (simp_all add: vmf_hit_def buf_example_rest)
  have u: "tp_in_use (pm_pages buf_example 3) = 1" "p_index buf_example 3 = 3" "tp_pvd (pm_pages buf_example 3) = Some (vmf_pvd buf_example vmf_hit)"
    using buf_example_p3(1) by (simp_all add: buf_example_rest(6)) (simp_all add: buf_example_simps tp_set_defs)
  from perma_page_mkwrite_spec [OF kernel_example_ok(2) buf_example_inv p(2,1) u(3) r] u(1,2) p(3) buf_example_p3(4) buf_example_rest(8)
  show ?thesis by (cases r) (auto simp: r)
qed


lemma free_example: "free_set (k_topo kernel_example) buf_example \<noteq> {}"
proof -
  have "2 \<in> free_set (k_topo kernel_example) buf_example"
    by (rule free_setI [of 1]) (simp_all add: kernel_example_topo(3) buf_example_simps)
  then show ?thesis by blast
qed


text \<open>Two threads allocate a page for number 5 of the example.\<close>

lemma alloc_example:
  assumes "fm_inv kernel_example s" and "pm_numa_dv s = Some [0]" and "free_set (k_topo kernel_example) s \<noteq> {}"
  obtains p s1 where "alloc_page_lock (k_topo kernel_example) 0 5 0 s = (Some p, s1)"
    "free_set (k_topo kernel_example) s1 = free_set (k_topo kernel_example) s - {p}"
proof -
  have pw: "pm_wf (k_topo kernel_example) s" using assms(1) by (simp add: fm_inv_def buf_wf_def buf_inv_def)
  obtain a s1 where al: "alloc_page_lock (k_topo kernel_example) 0 5 0 s = (a, s1)" by fastforce
  note x = alloc_page_lock_one_node [OF kernel_example_topo(1) pw kernel_example_topo(2) assms(2), of 5 0, unfolded al]
  have "a \<noteq> None" using x assms(3) kernel_example_topo(4) by (cases a) (auto simp: free_set_def)
  then show ?thesis using x al by (intro that [of "the a" s1]) auto
qed

lemma fresh_kept:
  assumes "fresh K d off p s" and "\<And>x. tp_in_use (pm_pages s x) = 1 \<Longrightarrow> pm_pages s' x = pm_pages s x"
    and "fm_pvd s' = fm_pvd s" and "fm_pte s' = fm_pte s"
  shows "fresh K d off p s'"
proof -
  have "tp_in_use (pm_pages s p) = 1" using assms(1) by (simp add: fresh_def detached_def)
  then have "pm_pages s' p = pm_pages s p" by (rule assms(2))
  then show ?thesis using assms(1,3,4) by (simp add: fresh_def detached_def p_index_def)
qed

lemma two_fresh_pages:
  obtains p q s where "fm_inv kernel_example s" "fresh kernel_example 0 5 p s" "fresh kernel_example 0 5 q s" "p \<noteq> q"
    "radix_lookup kernel_example s 0 5 = None"
proof -
  let ?T = "k_topo kernel_example"
  obtain p s1 where a1: "alloc_page_lock ?T 0 5 0 buf_example = (Some p, s1)" "free_set ?T s1 = free_set ?T buf_example - {p}"
    using alloc_example [OF buf_example_inv buf_example_rest(3) free_example] .
  note x = getpage_alloc_spec [OF buf_example_inv kernel_example_topo(1) a1(1)]
  obtain s2 where s2: "s2 = upd_page p (tp_set_locked True) s1" by simp
  have dv: "pm_numa_dv s2 = Some [0]" using x buf_example_rest(3) by (simp add: s2 kept_def env_of_def)
  have "{2, 6} \<subseteq> free_set ?T buf_example"
    using free_setI [of 1 ?T 2 buf_example] free_setI [of 3 ?T 6 buf_example]
    by (simp add: kernel_example_topo(3) buf_example_simps)
  then have "(if p = 2 then 6 else 2) \<in> free_set ?T s2" using a1(2) by (simp add: s2)
  then have ne: "free_set ?T s2 \<noteq> {}" by blast
  have i2: "fm_inv kernel_example s2" "fresh kernel_example 0 5 p s2" using x by (simp_all add: s2)
  obtain q s3 where a3: "alloc_page_lock ?T 0 5 0 s2 = (Some q, s3)" using alloc_example [OF i2(1) dv ne] .
  note y = getpage_alloc_spec [OF i2(1) kernel_example_topo(1) a3]
    alloc_page_lock_inv [OF kernel_example_topo(1) _ _ a3, unfolded option.case]
  have b: "buf_wf kernel_example s2" "map_inv s2" using i2(1) by (simp_all add: fm_inv_def)
  let ?s = "upd_page q (tp_set_locked True) s3"
  have q: "tp_in_use (pm_pages s2 q) \<noteq> 1" and p: "tp_in_use (pm_pages s2 p) = 1"
    using y(2) [OF b] i2(2) by (simp_all add: fresh_def detached_def)
  then have "p \<noteq> q" by blast
  moreover have "fresh kernel_example 0 5 p ?s"
    by (rule fresh_kept [OF i2(2)]) (use y(2) [OF b] q in auto)
  moreover have "radix_lookup kernel_example ?s 0 5 = None"
    using x y(1) buf_example_lookup(1) by (simp add: radix_lookup_def s2)
  ultimately show ?thesis using y(1) by (intro that [of ?s p q]) simp_all
qed

theorem racing_faults_share_page_witness:
  "\<exists>s p q s1 s2. getpage_insert kernel_example 0 5 p s = (Fresh p, s1) \<and> getpage_insert kernel_example 0 5 q s1 = (Again, s2) \<and>
     radix_lookup kernel_example s2 0 5 = Some p"
proof -
  obtain p q s where "fm_inv kernel_example s" "fresh kernel_example 0 5 p s" "fresh kernel_example 0 5 q s" "p \<noteq> q"
    "radix_lookup kernel_example s 0 5 = None" using two_fresh_pages .
  from racing_faults_share_page [OF this] show ?thesis by blast
qed


theorem getpage_errors_witness:
  "perma_vma_fault kernel_example 0 2 [7] (vmf_miss\<lparr>vmf_pgoff := 17\<rparr>) buf_example =
     (Some (VM_FAULT_LOCKED, vmf_miss\<lparr>vmf_pgoff := 17\<rparr>), buf_example\<lparr>fm_bug := True\<rparr>)"
proof -
  let ?v = "vmf_miss\<lparr>vmf_pgoff := 17\<rparr>"
  have "getpage_dev_pgs kernel_example (vmf_pvd buf_example ?v) (vma_file (fm_vma buf_example (vmf_vma ?v))) buf_example = Some 16"
    by (simp add: getpage_dev_pgs_def buf_example_rest buf_example_simps(8) pvd_example_def kernel_example_def)
  from getpage_errors [OF this, of 0 2 "[7]"] show ?thesis by (simp add: vmf_miss_def buf_example_rest(2))
qed

end
