(* ===== verification/Evict_Round.thy ===== *)
theory Evict_Round
  imports Evictor Fault_Progress "HOL-Library.Sublist"
begin

text \<open>
  What a round of an evictor thread does: which pages it takes, and that afterwards they are clean,
  write-protected and stored.
\<close>

section \<open>Taking pages out of the dirty queues\<close>

definition lockable :: "fm \<Rightarrow> pid \<Rightarrow> bool" where
  "lockable s p \<longleftrightarrow> tp_in_use (pm_pages s p) = 1 \<and> \<not> locked_tp (pm_pages s p)"

definition take_page :: "tagged_page \<Rightarrow> tagged_page" where
  "take_page t = (tp_set_locked True t)\<lparr>tp_buffer_id := BI_NONE\<rparr>"

lemma take_page_simps [simp]:
  "page_ids (take_page t) = page_ids t" "locked_tp (take_page t)" "tp_buffer_id (take_page t) = BI_NONE"
  "tp_rmap (take_page t) = tp_rmap t" "tp_in_use (take_page t) = tp_in_use t" "tp_pvd (take_page t) = tp_pvd t"
  "tp_index (take_page t) = tp_index t" "tp_page_valid (take_page t) = tp_page_valid t"
  "pg_data (tp_page (take_page t)) = pg_data (tp_page t)"
  by (simp_all add: take_page_def tp_set_defs locked_tp_def page_ids_def)

lemma ev_deq_eq:
  "ev_deq p (pm_pages s) = (if lockable s p then (True, (pm_pages s)(p := tp_set_locked True (pm_pages s p))) else (False, pm_pages s))"
  by (auto simp: ev_deq_def trylock_any_cases lockable_def)

text \<open>A page that can be locked leaves the queue in the same way from the front and from the middle.\<close>

lemma rem_if_dirty_eq:
  "rem_if_dirty q p ev_deq s =
     (if lockable s p then (True, rem_dirty q p (upd_page p (tp_set_locked True) s)) else (False, s))"
  by (simp add: rem_if_dirty_def d_remove_if_def rem_dirty_def d_remove_def ev_deq_eq upd_page_def)

lemma deq_if_dirty_eq:
  assumes "buf_inv K D s" and "q < EVICTOR_THREADS" and "deq_if_dirty q ev_deq s = (r, s')"
  shows "case r of None \<Rightarrow> buf_inv K D s' \<and> (\<exists>f. s' = s\<lparr>fb_dirty := (fb_dirty s)(q := f)\<rparr>)
    | Some p \<Rightarrow> tp_buffer_id (pm_pages s p) = BI_DIRTY \<and> dirty_q (p_index s p) = q \<and> lockable s p \<and>
        s' = rem_dirty q p (upd_page p (tp_set_locked True) s)"
proof -
  have ok: "clean_ok s" "dirty_ok s" using assms(1) by (simp_all add: buf_inv_def)
  obtain f ps where f: "d_dequeue_if (fb_dirty s q) ev_deq (pm_pages s) = (r, f, ps)"
    using assms(3) by (auto simp: deq_if_dirty_def split: prod.splits)
  then have s': "s' = s\<lparr>fb_dirty := (fb_dirty s)(q := f), pm_pages := ps\<rparr>" using assms(3) by (simp add: deq_if_dirty_def)
  have "tp_buffer_id (snd (ev_deq p (pm_pages s)) x) = tp_buffer_id (pm_pages s x)"
    "tp_index (snd (ev_deq p (pm_pages s)) x) = tp_index (pm_pages s x)" for p x by (simp_all add: ev_deq_eq)
  note w = dq.fam_deq_if [OF ok(2) assms(2) f this]
  show ?thesis
  proof (cases r)
    case None
    then have ps: "ps = pm_pages s" using w by (auto simp: ev_deq_eq split: if_splits)
    then have e: "s' = s\<lparr>fb_dirty := (fb_dirty s)(q := f)\<rparr>" using s' by simp
    then have "buf_inv K D s'"
      by (intro buf_inv_frame [OF assms(1)]) (use w ok ps in \<open>auto simp: same_frame_def\<close>)
    then show ?thesis unfolding None option.case using e by blast
  next
    case (Some p)
    have p: "tp_buffer_id (pm_pages s p) = BI_DIRTY" "dirty_q (p_index s p) = q" "lockable s p"
      using w Some by (auto simp: ev_deq_eq p_index_def split: if_splits)
    have "s' = rem_dirty q p (upd_page p (tp_set_locked True) s)"
    proof (cases "d_size (fb_dirty s q) = 0 \<or> d_buffer (fb_dirty s q) = []")
      case True
      then show ?thesis using f Some by (auto simp: d_dequeue_if_def split: list.splits)
    next
      case False
      then obtain x rest where b: "d_buffer (fb_dirty s q) = x # rest" by (cases "d_buffer (fb_dirty s q)") auto
      have "x = p" using f Some False b by (auto simp: d_dequeue_if_def ev_deq_eq split: if_splits)
      then show ?thesis using f False b p(3)
        by (auto simp: s' d_dequeue_if_def ev_deq_eq rem_dirty_def d_remove_def upd_page_def)
    qed
    with p Some show ?thesis by simp
  qed
qed

text \<open>
  The pages \<open>ps\<close> have been taken: they are locked and in no queue; dirty queues and dirty trees have
  changed, and nothing else.
\<close>

definition taken :: "pid set \<Rightarrow> fm \<Rightarrow> fm \<Rightarrow> bool" where
  "taken P s s' \<longleftrightarrow> (\<exists>F V. s' = s\<lparr>pm_pages := (\<lambda>x. if x \<in> P then take_page (pm_pages s x) else pm_pages s x),
     fb_dirty := F, fm_pvd := (\<lambda>d. (fm_pvd s d)\<lparr>pvd_dirty_tree := V d\<rparr>)\<rparr>)"

lemma takenD:
  assumes "taken P s s'"
  shows "pm_pages s' p = (if p \<in> P then take_page (pm_pages s p) else pm_pages s p)"
    "fm_pte s' = fm_pte s" "fm_vma s' = fm_vma s" "fm_bug s' = fm_bug s" "fm_disk s' = fm_disk s" "env_of s' = env_of s"
    "pvd_rdx (fm_pvd s' d) = pvd_rdx (fm_pvd s d)" "pvd_fixed (fm_pvd s' d) = pvd_fixed (fm_pvd s d)"
    "fb_primary s' = fb_primary s" "p_index s' p = p_index s p" "radix_lookup K s' d i = radix_lookup K s d i"
  using assms by (auto simp: taken_def env_of_def pvd_fixed_def p_index_def radix_lookup_def)

lemma taken_empty: "taken {} s (s\<lparr>fb_dirty := F\<rparr>)"
  unfolding taken_def by (intro exI [of _ F] exI [of _ "\<lambda>d. pvd_dirty_tree (fm_pvd s d)"]) simp

lemma taken_tree: "taken {} s (upd_pvd d (\<lambda>v. v\<lparr>pvd_dirty_tree := T v\<rparr>) s)"
  unfolding taken_def
  by (intro exI [of _ "fb_dirty s"] exI [of _ "\<lambda>e. if e = d then T (fm_pvd s d) else pvd_dirty_tree (fm_pvd s e)"])
    (simp add: upd_pvd_def fun_eq_iff)

lemma taken_trans:
  assumes "taken P s s1" and "taken Q s1 s2" and "P \<inter> Q = {}"
  shows "taken (P \<union> Q) s s2"
proof -
  from assms(1) obtain F V where 1: "s1 = s\<lparr>pm_pages := (\<lambda>x. if x \<in> P then take_page (pm_pages s x) else pm_pages s x),
     fb_dirty := F, fm_pvd := (\<lambda>d. (fm_pvd s d)\<lparr>pvd_dirty_tree := V d\<rparr>)\<rparr>" unfolding taken_def by blast
  from assms(2) obtain G W where 2: "s2 = s1\<lparr>pm_pages := (\<lambda>x. if x \<in> Q then take_page (pm_pages s1 x) else pm_pages s1 x),
     fb_dirty := G, fm_pvd := (\<lambda>d. (fm_pvd s1 d)\<lparr>pvd_dirty_tree := W d\<rparr>)\<rparr>" unfolding taken_def by blast
  have pg: "(\<lambda>x. if x \<in> Q then take_page (pm_pages s1 x) else pm_pages s1 x) =
      (\<lambda>x. if x \<in> P \<union> Q then take_page (pm_pages s x) else pm_pages s x)"
    using assms(3) by (auto simp: 1 fun_eq_iff)
  show ?thesis unfolding taken_def by (intro exI [of _ G] exI [of _ W]) (simp add: 2 [unfolded pg] 1)
qed

section \<open>One page of a batch\<close>

text \<open>
  A dirty page is removed from its tree and, if it can be locked, from its queue: the invariant holds
  again with the dirty pages that are left.
\<close>

lemma take_dirty:
  assumes inv: "buf_inv K D s" and p: "tp_buffer_id (pm_pages s p) = BI_DIRTY" "lockable s p" and q: "q = dirty_q (p_index s p)"
    and s': "s' = rem_dirty q p (upd_page p (tp_set_locked True) s)"
  shows "buf_inv K D s'" and "taken {p} s s'" and "dirty_pages s' = dirty_pages s - {p}"
proof -
  let ?s = "upd_page p (tp_set_locked True) s"
  have i1: "buf_inv K D ?s"
    by (rule buf_inv_flags [OF inv]) (use p(2) in \<open>simp_all add: lockable_def\<close>)
  have p1: "tp_buffer_id (pm_pages ?s p) = BI_DIRTY" "dirty_q (p_index ?s p) = q" using p(1) by (simp_all add: p_index_def q)
  show "buf_inv K D s'" using rem_dirty_inv(1) [OF i1 p1(1)] by (simp add: p1(2) s')
  from rem_dirty_eq [OF i1 p1(1)] obtain f where f: "s' = ?s\<lparr>fb_dirty := (fb_dirty ?s)(q := f),
      pm_pages := set_buffer_id BI_NONE p (pm_pages ?s)\<rparr>" unfolding p1(2) s' by blast
  have "set_buffer_id BI_NONE p (pm_pages ?s) = (\<lambda>x. if x \<in> {p} then take_page (pm_pages s x) else pm_pages s x)"
    by (auto simp: set_buffer_id_def take_page_def fun_eq_iff)
  then show "taken {p} s s'" unfolding taken_def f
    by (intro exI [of _ "(fb_dirty s)(q := f)"] exI [of _ "\<lambda>d. pvd_dirty_tree (fm_pvd s d)"]) (simp add: upd_page_def)
  then show "dirty_pages s' = dirty_pages s - {p}" by (auto simp: dirty_pages_def takenD(1))
qed

definition dirty_of :: "nat \<Rightarrow> fm \<Rightarrow> pid \<Rightarrow> bool" where
  "dirty_of d s p \<longleftrightarrow> tp_buffer_id (pm_pages s p) = BI_DIRTY \<and> tp_pvd (pm_pages s p) = Some d \<and> lockable s p"

lemma evictor_take_spec:
  assumes L: "rb_lib_ok (k_rb K)" and wf: "buf_wf K s" and ID: "dirty_q off = ID" and t: "evictor_take K ID d off s = (r, s')"
  shows "buf_wf K s' \<and> (case r of None \<Rightarrow> taken {} s s' \<and> (\<forall>p. dirty_of d s p \<longrightarrow> p_index s p \<noteq> off)
    | Some p \<Rightarrow> taken {p} s s' \<and> (\<forall>q. dirty_of d s q \<and> p_index s q = off \<longleftrightarrow> q = p))"
proof -
  let ?c = "cpu_of_index K off"
  let ?t = "pvd_dirty_tree (fm_pvd s d) ?c"
  have inv: "buf_inv K (dirty_pages s) s" using wf by (simp add: buf_wf_def)
  then have tr: "dt_wf (pm_pages s) ?t"
    "set_tree ?t = {p\<in>dirty_pages s. tp_pvd (pm_pages s p) = Some d \<and> cpu_of_index K (p_index s p) = ?c}"
    by (auto simp: buf_inv_def tree_ok_def)
  show ?thesis
  proof (cases "tagged_rb_search (pm_pages s) ?t off")
    case None
    then have "r = None" "s' = s" using t by (simp_all add: evictor_take_def Let_def)
    moreover have "p_index s p \<noteq> off" if "dirty_of d s p" for p
      using that None tagged_rb_search_None [OF tr(1), of off] tr(2) by (auto simp: dirty_of_def dirty_pages_def p_index_def)
    ultimately show ?thesis using wf taken_empty [of s "fb_dirty s"] by simp
  next
    case (Some p)
    then have p: "p \<in> set_tree ?t" "p_index s p = off" using tagged_rb_search_Some [OF tr(1)] by (auto simp: p_index_def)
    then have pd: "p \<in> dirty_pages s" "tp_pvd (pm_pages s p) = Some d" using tr(2) by auto
    then have b: "tp_buffer_id (pm_pages s p) = BI_DIRTY" by (simp add: dirty_pages_def)
    have uniq: "q = p" if "dirty_of d s q" "p_index s q = off" for q
      using that found_inj [OF inv, of q d p] buf_inv_found [OF inv, of p d] b pd(2) p(2) by (auto simp: dirty_of_def)
    obtain s1 where s1: "s1 = upd_pvd d (\<lambda>v. v\<lparr>pvd_dirty_tree := (pvd_dirty_tree v)(?c := rb_erase (k_rb K) p ?t)\<rparr>) s" by simp
    have i1: "buf_inv K (dirty_pages s - {p}) s1" unfolding s1
      by (rule buf_inv_tree_erase [OF inv pd(2) _ rb_erase_wf [OF L tr(1) p(1)]]) (simp_all add: p(2) set_dirty_tree_def)
    have t1: "taken {} s s1" unfolding s1 by (rule taken_tree)
    have same: "pm_pages s1 = pm_pages s" by (simp add: s1)
    then have l: "lockable s1 p = lockable s p" "tp_buffer_id (pm_pages s1 p) = BI_DIRTY" "ID = dirty_q (p_index s1 p)"
      using b ID p(2) by (simp_all add: lockable_def p_index_def)
    show ?thesis
    proof (cases "lockable s p")
      case True
      then have r: "r = Some p" "s' = rem_dirty ID p (upd_page p (tp_set_locked True) s1)"
        using t Some l(1) by (simp_all add: evictor_take_def Let_def rem_if_dirty_eq s1)
      note x = take_dirty [OF i1 l(2) _ l(3) r(2)]
      have "dirty_pages s' = dirty_pages s - {p}" using x(3) l(1) True dirty_pages_cong [OF same] by simp
      moreover have "taken ({} \<union> {p}) s s'" by (rule taken_trans [OF t1 x(2)]) (use l True in simp_all)
      moreover have "dirty_of d s p" using b pd(2) True by (simp add: dirty_of_def)
      moreover have "buf_inv K (dirty_pages s - {p}) s'" using x(1) l(1) True by simp
      moreover have "dirty_of d s q \<and> p_index s q = off \<longleftrightarrow> q = p" for q using uniq calculation(3) p(2) by metis
      ultimately show ?thesis by (simp add: r(1) buf_wf_def)
    next
      case False
      then have r: "r = None" "s' = upd_pvd d (\<lambda>v. v\<lparr>pvd_dirty_tree := (pvd_dirty_tree v)(?c :=
                         snd (tagged_rb_insert (k_rb K) (pm_pages s1) (pvd_dirty_tree v ?c) p))\<rparr>) s1"
        using t Some l(1) by (simp_all add: evictor_take_def Let_def rem_if_dirty_eq s1)
      have "radix_lookup K s1 d (p_index s1 p) = Some p"
        by (rule buf_inv_found [OF i1]) (simp_all add: same b pd(2))
      then have "buf_inv K (insert p (dirty_pages s - {p})) s'" unfolding r(2)
        by (intro buf_inv_tree_insert [OF L i1, where c = ?c])
          (simp_all add: same pd(2) p(2) p_index_def [of s1] p_index_def [of s, symmetric] dirty_pages_def set_dirty_tree_def)
      moreover have "insert p (dirty_pages s - {p}) = dirty_pages s" using pd(1) by blast
      moreover have "dirty_pages s' = dirty_pages s" by (rule dirty_pages_cong) (simp add: r(2) same)
      moreover have "taken ({} \<union> {}) s s'" unfolding r(2) by (rule taken_trans [OF t1 taken_tree]) simp
      moreover have "p_index s q \<noteq> off" if "dirty_of d s q" for q
        using uniq [OF that] that False by (auto simp: dirty_of_def)
      ultimately show ?thesis by (simp add: r(1) buf_wf_def)
    qed
  qed
qed

section \<open>The pages of a batch\<close>

lemma unat_block: "unat (drop_bit 9 (o' :: u64)) = unat o' div 512"
  by (subst unat_drop_bit_eq) (simp add: drop_bit_eq_div)

lemma block_eq: "drop_bit 9 a = drop_bit 9 (b :: u64) \<longleftrightarrow> unat a div 512 = unat b div 512"
  by (metis unat_block word_unat_eq_iff)

lemma next_number:
  fixes o' :: u64
  assumes "unat o' mod 512 \<noteq> 511 \<or> dirty_q (o' + 1) = dirty_q o'"
  shows "unat (o' + 1) = Suc (unat o') \<and> unat (o' + 1) div 512 = unat o' div 512 \<and> unat o' mod 512 \<noteq> 511"
proof -
  have nz: "o' + 1 \<noteq> 0"
  proof
    assume z: "o' + 1 = 0"
    then have "(unat o' + 1) mod 2 ^ 64 = 0" using unat_word_ariths(1) [of o' 1] by simp
    moreover have "unat o' < 2 ^ 64" using unsigned_less [of o', where 'a = nat] by simp
    ultimately have "unat o' = 0xFFFFFFFFFFFFFFFF" by (cases "unat o' + 1 < 2 ^ 64") simp_all
    with z assms show False by (simp add: dirty_q_def unat_block fm_const_defs)
  qed
  then have s: "unat (o' + 1) = Suc (unat o')" by (metis unatSuc add.commute)
  show ?thesis
  proof (cases "unat o' mod 512 = 511")
    case False
    then have "Suc (unat o') div 512 = unat o' div 512" by (simp add: div_Suc mod_Suc)
    with s False show ?thesis by simp
  next
    case True
    then have "Suc (unat o') div 512 = Suc (unat o' div 512)" by (simp add: div_Suc mod_Suc)
    moreover have "Suc m mod 8 \<noteq> m mod 8" for m :: nat by (simp add: mod_Suc)
    ultimately show ?thesis using assms True s by (simp add: dirty_q_def unat_block fm_const_defs)
  qed
qed

text \<open>
  The pages collected up to number \<open>o'\<close>, in the block of \<open>first\<close>: exactly the dirty pages of the object with
  these numbers that nobody had locked, in the order of their numbers.
\<close>

definition collected :: "kernel \<Rightarrow> nat \<Rightarrow> u64 \<Rightarrow> u64 \<Rightarrow> fm \<Rightarrow> pid list \<Rightarrow> fm \<Rightarrow> bool" where
  "collected K d first o' s0 pgs s \<longleftrightarrow> first \<le> o' \<and> unat o' div 512 = unat first div 512 \<and> taken (set pgs) s0 s \<and> buf_wf K s \<and>
     sorted_wrt (<) (map (p_index s0) pgs) \<and> length pgs \<le> Suc (unat o' - unat first) \<and>
     (\<forall>p. p \<in> set pgs \<longleftrightarrow> dirty_of d s0 p \<and> first \<le> p_index s0 p \<and> p_index s0 p \<le> o')"

lemma dirty_of_taken:
  "taken P s0 s \<Longrightarrow> dirty_of d s p \<longleftrightarrow> dirty_of d s0 p \<and> p \<notin> P"
  by (auto simp: dirty_of_def lockable_def takenD(1))

lemma collected_step:
  assumes L: "rb_lib_ok (k_rb K)" and c: "collected K d first o' s0 pgs s" and q: "dirty_q (o' + 1) = dirty_q o'"
    and t: "evictor_take K (dirty_q (o' + 1)) d (o' + 1) s = (r, s1)"
    and pgs1: "pgs1 = (case r of None \<Rightarrow> pgs | Some p \<Rightarrow> pgs @ [p])"
  shows "collected K d first (o' + 1) s0 pgs1 s1"
proof -
  have n: "unat (o' + 1) = Suc (unat o')" "unat (o' + 1) div 512 = unat o' div 512" using next_number [of o'] q by auto
  have c1: "unat first \<le> unat o'" "unat o' div 512 = unat first div 512" "taken (set pgs) s0 s" "buf_wf K s"
    "sorted_wrt (<) (map (p_index s0) pgs)" "length pgs \<le> Suc (unat o' - unat first)"
    and mem: "\<And>p. p \<in> set pgs \<longleftrightarrow> dirty_of d s0 p \<and> first \<le> p_index s0 p \<and> p_index s0 p \<le> o'"
    using c unfolding collected_def word_le_nat_alt by blast+
  note tk = evictor_take_spec [OF L c1(4) refl t]
  have le: "first \<le> o' + 1" "x \<le> o' + 1 \<longleftrightarrow> x \<le> o' \<or> x = o' + 1" for x
    using n(1) c1(1) by (auto simp: word_le_nat_alt word_unat_eq_iff)
  have fresh: "p \<notin> set pgs" if "p_index s0 p = o' + 1" for p
    using that mem n(1) by (auto simp: word_le_nat_alt)
  have new: "dirty_of d s0 p \<and> p_index s0 p = o' + 1 \<longleftrightarrow> dirty_of d s p \<and> p_index s p = o' + 1" for p
    using dirty_of_taken [OF c1(3), of d p] takenD(10) [OF c1(3)] fresh by metis
  show ?thesis
  proof (cases r)
    case None
    then have "taken (set pgs \<union> {}) s0 s1" "buf_wf K s1" using tk taken_trans [OF c1(3), of "{}" s1] by auto
    moreover have "\<not> (dirty_of d s0 p \<and> p_index s0 p = o' + 1)" for p using tk None unfolding new by auto
    then have "p \<in> set pgs \<longleftrightarrow> dirty_of d s0 p \<and> first \<le> p_index s0 p \<and> p_index s0 p \<le> o' + 1" for p
      unfolding le(2) mem by blast
    ultimately show ?thesis unfolding collected_def pgs1 None option.case using c1 n le(1) by simp
  next
    case (Some p)
    then have p: "dirty_of d s0 q \<and> p_index s0 q = o' + 1 \<longleftrightarrow> q = p" for q using tk unfolding new by auto
    then have "p \<notin> set pgs" "p_index s0 p = o' + 1" using fresh by blast+
    moreover from this have "taken (set pgs \<union> {p}) s0 s1" "buf_wf K s1" using tk Some taken_trans [OF c1(3), of "{p}" s1] by auto
    moreover have "q \<in> set pgs \<union> {p} \<longleftrightarrow> dirty_of d s0 q \<and> first \<le> p_index s0 q \<and> p_index s0 q \<le> o' + 1" for q
      using p [of q] le(1) le(2) [of "p_index s0 q"] mem [of q] by auto
    moreover have "p_index s0 q < o' + 1" if "q \<in> set pgs" for q
      using that mem n(1) by (auto simp: word_le_nat_alt word_less_nat_alt)
    ultimately show ?thesis unfolding collected_def pgs1 Some option.case using c1 n le(1)
      by (simp add: sorted_wrt_append)
  qed
qed

lemma evictor_collect_spec:
  assumes L: "rb_lib_ok (k_rb K)" and ID: "ID = dirty_q first"
  shows "collected K d first o' s0 pgs s \<Longrightarrow> 511 - unat o' mod 512 \<le> n \<Longrightarrow>
    evictor_collect K ID d n (o' + 1) pgs s = (pgs', s') \<Longrightarrow>
    \<exists>e. collected K d first e s0 pgs' s' \<and> unat e mod 512 = 511 \<and> prefix pgs pgs'"
proof (induction n arbitrary: o' pgs s)
  case 0
  moreover have "unat o' mod 512 < 512" by simp
  ultimately have "unat o' mod 512 = 511" by linarith
  with 0 show ?case by auto
next
  case (Suc n)
  have b: "unat first \<le> unat o'" "unat o' div 512 = unat first div 512" "length pgs \<le> Suc (unat o' - unat first)"
    using Suc.prems(1) unfolding collected_def word_le_nat_alt by blast+
  have q: "dirty_q o' = ID" using b(2) by (simp add: dirty_q_def unat_block ID)
  have cond: "unat (drop_bit 9 (o' + 1)) mod EVICTOR_THREADS = dirty_q (o' + 1)" by (simp add: dirty_q_def)
  show ?case
  proof (cases "EVICT_BATCH \<le> length pgs \<or> dirty_q (o' + 1) \<noteq> ID")
    case True
    then have "evictor_collect K ID d (Suc n) (o' + 1) pgs s = (pgs, s)" unfolding evictor_collect.simps cond by auto
    with Suc.prems(3) have "pgs' = pgs" "s' = s" by simp_all
    moreover have "unat o' mod 512 = 511"
    proof (cases "dirty_q (o' + 1) = ID")
      case True
      with \<open>EVICT_BATCH \<le> length pgs \<or> dirty_q (o' + 1) \<noteq> ID\<close> b(3) have "511 \<le> unat o' - unat first" by (simp add: EVICT_BATCH_def)
      moreover have "unat o' = 512 * (unat o' div 512) + unat o' mod 512" "unat first = 512 * (unat first div 512) + unat first mod 512"
        "unat o' mod 512 < 512" by simp_all
      ultimately show ?thesis using b(1,2) by linarith
    next
      case False
      show ?thesis
      proof (rule ccontr)
        assume "unat o' mod 512 \<noteq> 511"
        with next_number [of o'] have "unat (o' + 1) div 512 = unat o' div 512" by blast
        then have "dirty_q (o' + 1) = dirty_q o'" by (simp only: dirty_q_def unat_block)
        with False q show False by simp
      qed
    qed
    ultimately show ?thesis using Suc.prems(1) by auto
  next
    case False
    then have q1: "dirty_q (o' + 1) = dirty_q o'" "dirty_q (o' + 1) = ID" using q by auto
    obtain r s1 where t: "evictor_take K ID d (o' + 1) s = (r, s1)" by fastforce
    let ?p = "case r of None \<Rightarrow> pgs | Some p \<Rightarrow> pgs @ [p]"
    have "collected K d first (o' + 1) s0 ?p s1" by (rule collected_step [OF L Suc.prems(1) q1(1) _ refl]) (simp add: t q1(2))
    moreover have "511 - unat (o' + 1) mod 512 \<le> n"
      using next_number [of o'] q1(1) Suc.prems(2) by (auto simp: mod_Suc)
    moreover have "evictor_collect K ID d n (o' + 1 + 1) ?p s1 = (pgs', s')"
      using Suc.prems(3) False t unfolding evictor_collect.simps cond by auto
    ultimately obtain e where "collected K d first e s0 pgs' s'" "unat e mod 512 = 511" "prefix ?p pgs'"
      using Suc.IH by blast
    moreover have "prefix pgs ?p" by (simp split: option.splits)
    ultimately show ?thesis using prefix_order.trans by blast
  qed
qed

section \<open>The batch of a round\<close>

lemma taken_fm_inv:
  assumes "fm_inv K s" and "taken P s s'" and "buf_wf K s'"
  shows "fm_inv K s'"
proof -
  note t = takenD [OF assms(2)]
  have "rmap_of s' p i = rmap_of s p i" "tp_in_use (pm_pages s' p) = tp_in_use (pm_pages s p)" for p i by (simp_all add: rmap_of_def t(1))
  then have "map_inv s'" using assms(1) unfolding fm_inv_def map_inv_def rmap_key_def t(2,3) by simp
  moreover have "flags_ok s'" using assms(1) by (auto simp: fm_inv_def flags_ok_def t(1))
  ultimately show ?thesis using assms(3) by (simp add: fm_inv_def)
qed

lemma remove_first:
  assumes L: "rb_lib_ok (k_rb K)" and wf: "buf_wf K s" and p: "tp_buffer_id (pm_pages s p) = BI_DIRTY" "lockable s p" "q = dirty_q (p_index s p)"
    and s1: "s1 = rem_dirty q p (upd_page p (tp_set_locked True) s)" and d: "tp_pvd (pm_pages s p) = Some d"
  shows "collected K d (p_index s p) (p_index s p) s [p] (remove_from_dirty_tree K p s1)"
proof -
  have inv: "buf_inv K (dirty_pages s) s" using wf by (simp add: buf_wf_def)
  note x = take_dirty [OF inv p s1]
  let ?c = "cpu_of_index K (p_index s p)"
  let ?t = "pvd_dirty_tree (fm_pvd s1 d) ?c"
  have ix: "p_index s1 p = p_index s p" "tp_pvd (pm_pages s1 p) = Some d" "tp_index (pm_pages s1 p) = p_index s p"
    using takenD(1,10) [OF x(2)] d by (simp_all add: p_index_def)
  have tr: "dt_wf (pm_pages s1) ?t" "p \<in> set_tree ?t"
    using x(1) p(1) ix by (auto simp: buf_inv_def tree_ok_def dirty_pages_def)
  obtain ret t' where e: "tagged_rb_erase (k_rb K) (pm_pages s1) ?t (p_index s1 p) = (ret, t')" by fastforce
  note er = tagged_rb_erase_spec [OF L tr(1) e]
  have "{q \<in> set_tree ?t. tp_index (pm_pages s1 q) \<noteq> p_index s1 p} = set_tree ?t - {p}"
    using dt_wf_inj [OF tr(1)] tr(2) by (auto simp: p_index_def dest: inj_onD)
  then have t': "dt_wf (pm_pages s1) t'" "set_tree t' = set_tree ?t - {p}" using er by simp_all
  obtain s2 where s2: "s2 = remove_from_dirty_tree K p s1" by simp
  then have eq: "s2 = upd_pvd d (\<lambda>v. v\<lparr>pvd_dirty_tree := (pvd_dirty_tree v)(?c :=
                snd (tagged_rb_erase (k_rb K) (pm_pages s1) (pvd_dirty_tree v ?c) (p_index s1 p)))\<rparr>) s1"
    by (simp add: remove_from_dirty_tree_def ix Let_def)
  have "buf_inv K (dirty_pages s - {p}) s2" unfolding eq
    by (rule buf_inv_tree_erase [OF x(1) ix(2) _ t']) (simp_all add: ix(1) e [unfolded ix(1)] set_dirty_tree_def)
  moreover have "dirty_pages s2 = dirty_pages s - {p}" using x(3) dirty_pages_cong [of s2 s1] by (simp add: eq)
  ultimately have "buf_wf K s2" by (simp add: buf_wf_def)
  moreover have "taken ({p} \<union> {}) s s2" by (rule taken_trans [OF x(2)]) (simp_all add: eq taken_tree)
  moreover have "q = p" if "dirty_of d s q" "p_index s q = p_index s p" for q
    using that found_inj [OF inv, of q d p] buf_inv_found [OF inv, of p d] p(1) d by (auto simp: dirty_of_def)
  moreover have "dirty_of d s p" using p d by (simp add: dirty_of_def)
  ultimately show ?thesis unfolding collected_def s2 [symmetric] by auto
qed

lemma block_end:
  assumes "unat (e :: u64) mod 512 = 511" and "unat e div 512 = unat first div 512"
  shows "x \<le> e \<and> first \<le> x \<longleftrightarrow> first \<le> x \<and> unat x div 512 = unat first div 512"
proof -
  have m: "unat y = 512 * (unat y div 512) + unat y mod 512" "unat y mod 512 < 512" for y :: u64 by simp_all
  have "unat x div 512 = unat first div 512" if "unat x \<le> unat e" "unat first \<le> unat x"
    using div_le_mono [OF that(1), of 512] div_le_mono [OF that(2), of 512] assms(2) by simp
  moreover have "unat x \<le> unat e" if "unat x div 512 = unat e div 512" using m [of x] m [of e] that assms(1) by linarith
  ultimately show ?thesis using assms(2) by (auto simp: word_le_nat_alt)
qed

text \<open>What the selection of a round returns.\<close>

definition batch_of :: "nat \<Rightarrow> nat \<Rightarrow> fm \<Rightarrow> pid list \<Rightarrow> bool" where
  "batch_of ID d s pgs \<longleftrightarrow> pgs \<noteq> [] \<and> length pgs \<le> 512 \<and> dirty_q (p_index s (hd pgs)) = ID \<and> sorted_wrt (<) (map (p_index s) pgs) \<and>
     (\<forall>p. p \<in> set pgs \<longleftrightarrow> dirty_of d s p \<and> p_index s (hd pgs) \<le> p_index s p \<and>
        unat (p_index s p) div 512 = unat (p_index s (hd pgs)) div 512)"

lemma evictor_select_cases:
  assumes L: "rb_lib_ok (k_rb K)" and inv: "fm_inv K s" and ID: "ID < EVICTOR_THREADS" and sel: "evictor_select K ID s = (r, s')"
  shows "fm_inv K s' \<and> (case r of None \<Rightarrow> taken {} s s' | Some (pgs, d) \<Rightarrow> taken (set pgs) s s' \<and> batch_of ID d s pgs)"
proof -
  have wf: "buf_wf K s" "buf_inv K (dirty_pages s) s" using inv by (simp_all add: fm_inv_def buf_wf_def)
  have t0: "taken {} s s" using taken_empty [of s "fb_dirty s"] by simp
  obtain a s1 where dq: "deq_if_dirty ID ev_deq s = (a, s1)" by fastforce
  note d = deq_if_dirty_eq [OF wf(2) ID dq]
  consider "r = None" "s' = s" | "r = None" "a = None" "s' = s1" | p where "a = Some p" "\<not> dirty_total s < int (fb_size s div 5 * 3)"
    using sel dq by (cases a) (auto simp: evictor_select_def split: if_splits)
  then show ?thesis
  proof cases
    case 1
    then show ?thesis using inv t0 by simp
  next
    case 2
    then obtain f where s1: "s1 = s\<lparr>fb_dirty := (fb_dirty s)(ID := f)\<rparr>" "buf_inv K (dirty_pages s) s1" using d by auto
    then have "buf_wf K s1" using dirty_pages_cong [of s1 s] by (simp add: buf_wf_def)
    moreover have "taken {} s s1" unfolding s1(1) by (rule taken_empty)
    ultimately show ?thesis using 2 taken_fm_inv [OF inv, of "{}" s1] by simp
  next
    case (3 p)
    have p: "tp_buffer_id (pm_pages s p) = BI_DIRTY" "lockable s p" "ID = dirty_q (p_index s p)"
      "s1 = rem_dirty ID p (upd_page p (tp_set_locked True) s)" using d 3(1) by auto
    obtain v where v: "tp_pvd (pm_pages s p) = Some v" using buf_inv_page(2) [OF wf(2)] p(2) by (auto simp: lockable_def)
    obtain s2 where s2: "s2 = remove_from_dirty_tree K p s1" by simp
    note c = remove_first [OF L wf(1) p v, folded s2]
    have t2: "taken {p} s s2" using c by (simp add: collected_def)
    have v1: "tp_pvd (pm_pages s1 p) = Some v" using takenD(1) [OF take_dirty(2) [OF wf(2) p]] v by simp
    obtain pgs s3 where col: "evictor_collect K ID v EVICT_ITER (p_index s2 p + 1) [p] s2 = (pgs, s3)" by fastforce
    then have res: "r = Some (pgs, v)" "s' = s3"
      using sel dq 3 v1 by (simp_all add: evictor_select_def Let_def flip: s2)
    have "511 - unat (p_index s p) mod 512 \<le> EVICT_ITER" by (simp add: EVICT_ITER_def)
    from evictor_collect_spec [OF L p(3) c this] col takenD(10) [OF t2]
    obtain e where e: "collected K v (p_index s p) e s pgs s3" "unat e mod 512 = 511" "prefix [p] pgs" by auto
    then have b: "unat e div 512 = unat (p_index s p) div 512" "taken (set pgs) s s3" "buf_wf K s3" "sorted_wrt (<) (map (p_index s) pgs)"
      "length pgs \<le> Suc (unat e - unat (p_index s p))"
      and mem: "\<And>x. x \<in> set pgs \<longleftrightarrow> dirty_of v s x \<and> p_index s p \<le> p_index s x \<and> p_index s x \<le> e" unfolding collected_def by blast+
    have h: "pgs \<noteq> []" "hd pgs = p" using e(3) by (auto simp: prefix_def)
    have "unat y = 512 * (unat y div 512) + unat y mod 512" "unat y mod 512 < 512" for y :: u64 by simp_all
    from this(1) [of e] this(1) [of "p_index s p"] b(1) e(2) have "unat e - unat (p_index s p) < 512" by linarith
    then have "length pgs \<le> 512" using b(5) by linarith
    then have "batch_of ID v s pgs" unfolding batch_of_def h(2) using h(1) p(3) b(4) mem block_end [OF e(2) b(1)] by blast
    then show ?thesis using res b(2) taken_fm_inv [OF inv b(2,3)] by simp
  qed
qed

section \<open>Protecting the pages of a batch\<close>

definition protect_of :: "pid set \<Rightarrow> ptes \<Rightarrow> ptes" where
  "protect_of P m = (\<lambda>k. case m k of None \<Rightarrow> None | Some e \<Rightarrow> Some (if pte_frame e \<in> P then protect_pte e else e))"

lemma protect_pte_frame [simp]: "pte_frame (protect_pte e) = pte_frame e"
  by (simp add: protect_pte_def)

lemma maps_page_protect [simp]: "maps_page (protect_of P m) p k = maps_page m p k"
  by (auto simp: maps_page_def protect_of_def split: option.splits)

lemma protect_of_trans: "protect_of Q (protect_of P m) = protect_of (P \<union> Q) m"
  by (auto simp: protect_of_def protect_pte_def fun_eq_iff split: option.splits)

lemma map_inv_protect:
  assumes "map_inv s" and "s' = s\<lparr>fm_pte := protect_of P (fm_pte s), fm_flush := fl, fm_bug := b\<rparr>"
  shows "map_inv s'"
  using assms(1) by (simp add: assms(2) map_inv_def rmap_of_def rmap_key_def)

lemma clear_list_effect:
  assumes "walk_ok K" and "map_inv s" and "\<forall>p\<in>set pgs. length (tp_rmap (pm_pages s p)) = MAX_RMAPS_PER_PAGE"
    and "fold (\<lambda>p st. clear_mappings K p st) pgs (et, s) = (et', s')"
  shows "\<exists>fl b. s' = s\<lparr>fm_pte := protect_of (set pgs) (fm_pte s), fm_flush := fl, fm_bug := b\<rparr>"
  using assms(2-4)
proof (induction pgs arbitrary: et s)
  case Nil
  have "protect_of {} (fm_pte s) = fm_pte s" by (auto simp: protect_of_def fun_eq_iff split: option.splits)
  with Nil show ?case by (intro exI [of _ "fm_flush s"] exI [of _ "fm_bug s"]) simp
next
  case (Cons p pgs)
  obtain et1 s1 where c: "clear_mappings K p (et, s) = (et1, s1)" by fastforce
  have "rmap_complete s p" by (rule map_inv_complete) (use Cons.prems in simp_all)
  note e = clear_mappings_effect [OF assms(1) this c]
  have "fm_pte s1 = protect_of {p} (fm_pte s)"
    using e by (auto simp: fun_eq_iff protect_of_def maps_page_def split: option.splits)
  then obtain fl b where s1: "s1 = s\<lparr>fm_pte := protect_of {p} (fm_pte s), fm_flush := fl, fm_bug := b\<rparr>" using e by metis
  have "fold (\<lambda>p st. clear_mappings K p st) pgs (et1, s1) = (et', s')" using Cons.prems(3) c by simp
  from Cons.IH [OF map_inv_protect [OF Cons.prems(1) s1] _ this] Cons.prems(2)
  obtain fl' b' where "s' = s1\<lparr>fm_pte := protect_of (set pgs) (fm_pte s1), fm_flush := fl', fm_bug := b'\<rparr>" by (auto simp: s1)
  then show ?case by (simp add: s1 protect_of_trans) metis
qed

lemma evictor_clear_effect:
  assumes "walk_ok K" and "map_inv s" and "\<forall>p\<in>set pgs. length (tp_rmap (pm_pages s p)) = MAX_RMAPS_PER_PAGE"
  shows "\<exists>fl b. evictor_clear K pgs s = s\<lparr>fm_pte := protect_of (set pgs) (fm_pte s), fm_flush := fl, fm_bug := b\<rparr>"
proof -
  obtain et s1 where f: "fold (\<lambda>p st. clear_mappings K p st) pgs (Some etlb_init, s) = (et, s1)" by fastforce
  from clear_list_effect [OF assms f] obtain fl b where s1: "s1 = s\<lparr>fm_pte := protect_of (set pgs) (fm_pte s), fm_flush := fl, fm_bug := b\<rparr>"
    by blast
  obtain et1 where e: "evictor_clear K pgs s = flush_etlb (\<lambda>s vma. vma_mm (fm_vma s vma)) et1 s1"
    using f by (simp add: evictor_clear_def)
  from flush_etlb_frame [of "\<lambda>s vma. vma_mm (fm_vma s vma)" et1 s1] obtain fl' where "evictor_clear K pgs s = s1\<lparr>fm_flush := fl'\<rparr>"
    unfolding e by metis
  then have "evictor_clear K pgs s = s\<lparr>fm_pte := protect_of (set pgs) (fm_pte s), fm_flush := fl', fm_bug := b\<rparr>" using s1 by simp
  then show ?thesis by blast
qed

section \<open>Putting the pages into the clean queues\<close>

definition clean_page :: "tagged_page \<Rightarrow> tagged_page" where
  "clean_page t = clear_dirty (t\<lparr>tp_buffer_id := BI_CLEAN\<rparr>)"

lemma clean_page_simps [simp]:
  "page_ids (clean_page t) = page_ids t" "tp_buffer_id (clean_page t) = BI_CLEAN" "tp_is_dirty (clean_page t) = 0"
  "tp_rmap (clean_page t) = tp_rmap t" "tp_in_use (clean_page t) = tp_in_use t" "tp_page_valid (clean_page t) = tp_page_valid t"
  "pg_data (tp_page (clean_page t)) = pg_data (tp_page t)" "\<not> TaggedPageDirty (clean_page t)" "tp_index (clean_page t) = tp_index t"
  "tp_pvd (clean_page t) = tp_pvd t" "locked_tp (clean_page t) = locked_tp t"
  by (simp_all add: clean_page_def) (simp_all add: clear_dirty_def ClearTaggedPageDirty_def tp_set_defs locked_tp_def)

lemma unlock_tp_simps [simp]:
  "page_ids (unlock_tp t) = page_ids t" "tp_buffer_id (unlock_tp t) = tp_buffer_id t" "tp_is_dirty (unlock_tp t) = tp_is_dirty t"
  "tp_rmap (unlock_tp t) = tp_rmap t" "tp_in_use (unlock_tp t) = tp_in_use t" "tp_page_valid (unlock_tp t) = tp_page_valid t"
  "pg_data (tp_page (unlock_tp t)) = pg_data (tp_page t)" "\<not> locked_tp (unlock_tp t)" "tp_index (unlock_tp t) = tp_index t"
  "tp_pvd (unlock_tp t) = tp_pvd t" "TaggedPageDirty (unlock_tp t) = TaggedPageDirty t"
  by (simp_all add: unlock_tp_def) (simp_all add: tp_set_defs TaggedPageDirty_def)

lemma insert_page_pages:
  assumes "buf_inv K D s" and "held K s p"
  shows "pm_pages (insert_page_fifo_buffer_t p True s) = (pm_pages s)(p := clean_page (pm_pages s p))"
proof -
  have p: "tp_in_use (pm_pages s p) = 1" "tp_buffer_id (pm_pages s p) = BI_NONE" using assms(2) by (auto simp: held_def)
  from enq_clean_eq [OF assms(1) p] obtain f where "enq_clean (clean_q (p_index s p)) p s =
      (0, s\<lparr>fb_primary := (fb_primary s)(clean_q (p_index s p) := f), pm_pages := set_buffer_id BI_CLEAN p (pm_pages s)\<rparr>)" by blast
  then show ?thesis by (simp add: insert_page_fifo_buffer_t_def set_buffer_id_def clean_page_def)
qed

text \<open>What a step that works on the pages \<open>P\<close> alone leaves alone.\<close>

definition page_step :: "pid set \<Rightarrow> (tagged_page \<Rightarrow> tagged_page) \<Rightarrow> fm \<Rightarrow> fm \<Rightarrow> bool" where
  "page_step P f s s' \<longleftrightarrow> pm_pages s' = (\<lambda>x. if x \<in> P then f (pm_pages s x) else pm_pages s x) \<and> fm_pvd s' = fm_pvd s \<and>
     fm_pte s' = fm_pte s \<and> fm_vma s' = fm_vma s \<and> fm_disk s' = fm_disk s \<and> fm_bug s' = fm_bug s \<and> env_of s' = env_of s"

lemma page_step_Cons:
  assumes "page_step {p} f s s1" and "page_step P f s1 s2" and "p \<notin> P"
  shows "page_step (insert p P) f s s2"
  using assms by (auto simp: page_step_def fun_eq_iff)

lemma insert_list:
  assumes "buf_inv K D s" and "\<forall>p\<in>set pgs. held K s p" and "distinct pgs"
  shows "buf_inv K D (fold (\<lambda>p. insert_page_fifo_buffer_t p True) pgs s) \<and>
    page_step (set pgs) clean_page s (fold (\<lambda>p. insert_page_fifo_buffer_t p True) pgs s)"
  using assms
proof (induction pgs arbitrary: s)
  case (Cons p pgs)
  let ?s = "insert_page_fifo_buffer_t p True s"
  have h: "held K s p" using Cons.prems(2) by simp
  have pg: "pm_pages ?s = (pm_pages s)(p := clean_page (pm_pages s p))" by (rule insert_page_pages [OF Cons.prems(1) h])
  then have st: "page_step {p} clean_page s ?s" by (auto simp: page_step_def env_of_def fun_eq_iff)
  have "held K ?s q" if "q \<in> set pgs" for q
    using that Cons.prems(2,3) by (auto simp: held_def pg p_index_def radix_lookup_def)
  moreover have "buf_inv K D ?s" using insert_page_spec [OF Cons.prems(1) h] by blast
  ultimately show ?case using Cons.IH [of ?s] Cons.prems(3) page_step_Cons [OF st] by simp
qed (simp add: page_step_def)

lemma unlock_list:
  assumes "buf_inv K D s" and "\<forall>p\<in>set pgs. tp_in_use (pm_pages s p) = 1" and "distinct pgs"
  shows "buf_inv K D (fold (\<lambda>p. upd_page p unlock_tp) pgs s) \<and> page_step (set pgs) unlock_tp s (fold (\<lambda>p. upd_page p unlock_tp) pgs s)"
  using assms
proof (induction pgs arbitrary: s)
  case (Cons p pgs)
  let ?s = "upd_page p unlock_tp s"
  have st: "page_step {p} unlock_tp s ?s" by (auto simp: page_step_def env_of_def fun_eq_iff)
  have "buf_inv K D ?s" by (rule buf_inv_flags [OF Cons.prems(1)]) (use Cons.prems(2) in simp_all)
  moreover have "\<forall>q\<in>set pgs. tp_in_use (pm_pages ?s q) = 1" using Cons.prems(2) by auto
  ultimately show ?case using Cons.IH [of ?s] Cons.prems(3) page_step_Cons [OF st] by simp
qed (simp add: page_step_def)

lemma page_step_map_inv:
  assumes "map_inv s" and "page_step P f s s'" and "\<And>t. tp_rmap (f t) = tp_rmap t" and "\<And>t. tp_in_use (f t) = tp_in_use t"
  shows "map_inv s'"
proof -
  have e: "fm_pte s' = fm_pte s" "fm_vma s' = fm_vma s" and pg: "pm_pages s' = (\<lambda>x. if x \<in> P then f (pm_pages s x) else pm_pages s x)"
    using assms(2) by (simp_all add: page_step_def)
  have "rmap_of s' p i = rmap_of s p i" "tp_in_use (pm_pages s' p) = tp_in_use (pm_pages s p)" for p i
    by (simp_all add: rmap_of_def pg assms(3,4))
  then show ?thesis using assms(1) unfolding map_inv_def rmap_key_def e by simp
qed

lemma evictor_finish_spec:
  assumes inv: "fm_inv K s" and h: "\<forall>p\<in>set pgs. held K s p \<and> tp_page_valid (pm_pages s p) = 1" and d: "distinct pgs"
  shows "fm_inv K (evictor_finish pgs s) \<and> page_step (set pgs) (\<lambda>t. unlock_tp (clean_page t)) s (evictor_finish pgs s)"
proof -
  have b: "buf_inv K (dirty_pages s) s" "map_inv s" "flags_ok s" using inv by (simp_all add: fm_inv_def buf_wf_def)
  obtain s1 where s1: "s1 = fold (\<lambda>p. insert_page_fifo_buffer_t p True) pgs s" by simp
  have i1: "buf_inv K (dirty_pages s) s1" "page_step (set pgs) clean_page s s1" using insert_list [OF b(1) _ d] h s1 by simp_all
  then have "\<forall>p\<in>set pgs. tp_in_use (pm_pages s1 p) = 1" using h by (auto simp: page_step_def held_def)
  note i2 = unlock_list [OF i1(1) this d]
  let ?s = "evictor_finish pgs s"
  have e: "?s = fold (\<lambda>p. upd_page p unlock_tp) pgs s1" by (simp add: evictor_finish_def s1)
  have st: "page_step (set pgs) (\<lambda>t. unlock_tp (clean_page t)) s ?s" using i1(2) i2 unfolding e by (auto simp: page_step_def fun_eq_iff)
  then have pg: "pm_pages ?s = (\<lambda>x. if x \<in> set pgs then unlock_tp (clean_page (pm_pages s x)) else pm_pages s x)" by (simp add: page_step_def)
  have "tp_buffer_id (pm_pages s p) = BI_NONE" if "p \<in> set pgs" for p using h that by (simp add: held_def)
  then have "dirty_pages ?s = dirty_pages s" by (auto simp: dirty_pages_def pg)
  then have "buf_wf K ?s" using i2 by (simp add: buf_wf_def e)
  moreover have "map_inv ?s" by (rule page_step_map_inv [OF b(2) st]) simp_all
  moreover have "flags_ok ?s" using b(3) h by (auto simp: flags_ok_def pg settled_def)
  ultimately show ?thesis using st by (simp add: fm_inv_def)
qed

section \<open>Properties of a round\<close>

lemma not_in_dirty_tree:
  assumes "fm_inv K s" and "tp_buffer_id (pm_pages s p) \<noteq> BI_DIRTY"
  shows "p \<notin> set_tree (pvd_dirty_tree (fm_pvd s v) c)"
  using assms by (auto simp: fm_inv_def buf_wf_def buf_inv_def tree_ok_def dirty_pages_def)

text \<open>
  C16. The pages an evictor thread takes in a round. They are exactly the unlocked dirty pages of one
  backing object that lie between the first page of the thread's queue and the end of that page's block of
  512 numbers, in increasing order and at most 512; the bound of 2048 iterations never cuts a batch
  short. Afterwards they are locked, with unchanged content, and in no queue and no dirty tree; no
  other page has changed and the invariants hold.
\<close>

theorem evictor_select_spec:
  assumes "rb_lib_ok (k_rb K)" and "fm_inv K s" and "ID < EVICTOR_THREADS" and "evictor_select K ID s = (Some (pgs, d), s')"
  shows "fm_inv K s' \<and> pgs \<noteq> [] \<and> length pgs \<le> 512 \<and> sorted_wrt (<) (map (p_index s) pgs) \<and> dirty_q (p_index s (hd pgs)) = ID \<and>
    (\<forall>p. p \<in> set pgs \<longleftrightarrow> dirty_of d s p \<and> p_index s (hd pgs) \<le> p_index s p \<and>
       unat (p_index s p) div 512 = unat (p_index s (hd pgs)) div 512) \<and>
    (\<forall>p. if p \<in> set pgs
       then locked_tp (pm_pages s' p) \<and> tp_buffer_id (pm_pages s' p) = BI_NONE \<and> page_content s' p = page_content s p \<and>
         (\<forall>v c. p \<notin> set_tree (pvd_dirty_tree (fm_pvd s' v) c))
       else pm_pages s' p = pm_pages s p)"
proof -
  have c: "fm_inv K s'" "taken (set pgs) s s'" "batch_of ID d s pgs" using evictor_select_cases [OF assms] by simp_all
  note pg = takenD(1) [OF c(2)]
  have "p \<notin> set_tree (pvd_dirty_tree (fm_pvd s' v) cpu)" if "p \<in> set pgs" for p v cpu
    by (rule not_in_dirty_tree [OF c(1)]) (simp add: pg that)
  then show ?thesis using c unfolding batch_of_def by (simp add: pg page_content_def)
qed

text \<open>
  What writing a batch leaves in the store: only pages of the batch have changed, under their own numbers, and all of
  them are there when no request overflows and none fails.
\<close>

definition stored :: "kernel \<Rightarrow> nat \<Rightarrow> pid list \<Rightarrow> fm \<Rightarrow> (nat \<Rightarrow> u64 \<Rightarrow> pdata) \<Rightarrow> bool" where
  "stored K dev pgs s x \<longleftrightarrow>
     (\<forall>d' j. x d' j = fm_disk s d' j \<or> d' = dev \<and> (\<exists>q\<in>set pgs. p_index s q = j \<and> x d' j = page_content s q)) \<and>
     (no_long_run s pgs \<longrightarrow> (\<forall>r. k_written K r = length (io_data r)) \<longrightarrow> (\<forall>q\<in>set pgs. x dev (p_index s q) = page_content s q))"

lemma page_index_p_index: "page_index s = p_index s"
  by (simp add: fun_eq_iff page_index_def p_index_def)

lemma evictor_write_spec:
  assumes "batch_ok s d dev pgs"
  shows "\<exists>x. evictor_write K v pgs s = s\<lparr>fm_disk := x\<rparr> \<and> stored K dev pgs s x"
proof -
  let ?w = "evictor_write K v pgs s"
  have w: "?w \<in> {write_bio_async K pgs s, write_file_async K pgs s}" by (simp add: evictor_write_def)
  then have "?w = s\<lparr>fm_disk := fm_disk ?w\<rparr> \<and> (\<forall>d' j. fm_disk ?w d' j = fm_disk s d' j \<or>
      d' = dev \<and> (\<exists>q\<in>set pgs. page_index s q = j \<and> fm_disk ?w d' j = pg_data (tp_page (pm_pages s q))))"
    using write_async_effect [OF assms, of K] by blast
  moreover have "fm_disk ?w dev (page_index s q) = pg_data (tp_page (pm_pages s q))"
    if "no_long_run s pgs" "\<And>r. k_written K r = length (io_data r)" "q \<in> set pgs" for q
    using write_async_stores [OF assms that] by (simp add: evictor_write_def)
  ultimately show ?thesis unfolding stored_def page_content_def page_index_p_index by (intro exI [of _ "fm_disk ?w"]) blast
qed

lemma stored_cong:
  assumes "\<And>p. p_index s' p = p_index s p" and "\<And>p. page_content s' p = page_content s p" and "fm_disk s' = fm_disk s"
  shows "stored K dev pgs s' x = stored K dev pgs s x"
proof -
  have "no_long_run s' pgs = no_long_run s pgs" by (simp add: no_long_run_def consec_def page_index_p_index assms(1))
  then show ?thesis by (simp only: stored_def assms)
qed

text \<open>Protecting and writing the pages of a batch: their content does not change while they are written.\<close>

lemma evictor_io_spec:
  assumes "walk_ok K" and inv: "fm_inv K s" and "\<forall>p\<in>set pgs. tp_in_use (pm_pages s p) = 1" and bo: "batch_ok s d dev pgs"
    and s': "s' = evictor_write K v pgs (evictor_clear K pgs s)"
  shows "fm_inv K s' \<and> pm_pages s' = pm_pages s \<and> fm_pvd s' = fm_pvd s \<and> fm_pte s' = protect_of (set pgs) (fm_pte s) \<and>
    stored K dev pgs s (fm_disk s')"
proof -
  have i: "buf_inv K (dirty_pages s) s" "map_inv s" "flags_ok s" using inv by (simp_all add: fm_inv_def buf_wf_def)
  have "\<forall>p\<in>set pgs. length (tp_rmap (pm_pages s p)) = MAX_RMAPS_PER_PAGE" using buf_inv_page(4) [OF i(1)] assms(3) by blast
  from evictor_clear_effect [OF assms(1) i(2) this] obtain fl b
    where s1: "evictor_clear K pgs s = s\<lparr>fm_pte := protect_of (set pgs) (fm_pte s), fm_flush := fl, fm_bug := b\<rparr>" by blast
  obtain s1 where s1': "s1 = evictor_clear K pgs s" by simp
  have "batch_ok s1 d dev pgs" using bo by (simp add: batch_ok_def s1' s1 page_index_def cong: map_cong)
  from evictor_write_spec [OF this, of K v] obtain x where x: "s' = s1\<lparr>fm_disk := x\<rparr>" "stored K dev pgs s1 x"
    unfolding s' s1' by blast
  have "buf_inv K (dirty_pages s) s'" by (rule buf_inv_rest [OF i(1)]) (simp_all add: x(1) s1' s1)
  moreover have "map_inv s1" by (rule map_inv_protect [OF i(2)]) (simp add: s1' s1)
  then have "map_inv s'" by (simp add: x(1) map_inv_def rmap_of_def rmap_key_def)
  moreover have pg: "pm_pages s' = pm_pages s" by (simp add: x(1) s1' s1)
  then have "dirty_pages s' = dirty_pages s" "flags_ok s'" using i(3) by (simp_all add: dirty_pages_def flags_ok_def)
  moreover have "stored K dev pgs s x" using x(2) stored_cong [of s1 s K dev pgs x]
    by (simp add: s1' s1 p_index_def page_content_def)
  ultimately show ?thesis using pg by (simp add: fm_inv_def buf_wf_def x(1)) (simp add: s1' s1)
qed

lemma batch_of_ok:
  assumes "batch_of ID d s pgs" and "pvd_bk (fm_pvd s d) = Some dev" and "\<forall>p\<in>set pgs. p_index s p < 2 ^ 52"
  shows "batch_ok s d dev pgs" and "distinct pgs"
proof -
  have so: "sorted_wrt (<) (map (p_index s) pgs)" and len: "length pgs \<le> 512"
    and pv: "\<forall>p\<in>set pgs. tp_pvd (pm_pages s p) = Some d" using assms(1) unfolding batch_of_def dirty_of_def by blast+
  have dm: "distinct (map (page_index s) pgs)"
    using strict_sorted_iff [of "map (p_index s) pgs"] so by (simp add: p_index_def page_index_def cong: map_cong)
  then show "distinct pgs" by (simp add: distinct_map)
  have "length pgs < 2 ^ 31" by (rule le_less_trans [OF len]) simp
  then show "batch_ok s d dev pgs" using assms(2,3) pv dm by (simp add: batch_ok_def p_index_def page_index_def)
qed


section \<open>A round on a buffer with one dirty page\<close>

definition evict_example :: fm where
  "evict_example = (dmap_do_tagged_page_writable kernel_example 0 3 buf_example)\<lparr>fb_size := 4\<rparr>"

lemma buf_example_clean:
  "settled (pm_pages buf_example 3)" "tp_pvd (pm_pages buf_example 3) = Some 0" "lockable buf_example 3"
proof -
  have u: "tp_in_use (pm_pages buf_example 3) = 1" by (simp add: buf_example_simps tp_set_defs)
  then have "settled (pm_pages buf_example 3) \<or> locked_tp (pm_pages buf_example 3)"
    using buf_example_inv by (simp add: fm_inv_def flags_ok_def)
  then show "settled (pm_pages buf_example 3)" using buf_example_rest(8) by simp
  show "tp_pvd (pm_pages buf_example 3) = Some 0" by (simp add: buf_example_simps tp_set_defs)
  show "lockable buf_example 3" using u buf_example_rest(8) by (simp add: lockable_def)
qed

lemma evict_example_rest:
  "fm_inv kernel_example evict_example" "pm_pages evict_example 3 = mk_writable (pm_pages buf_example 3)"
  "lockable evict_example 3" "p_index evict_example 3 = 3" "fb_evictor_run evict_example"
  "pvd_bk (fm_pvd evict_example 0) = Some 0" "fb_dirty evict_example 0 = \<lparr>d_buffer = [3], d_size = 1, d_max_size = 12\<rparr>"
proof -
  let ?s = "dmap_do_tagged_page_writable kernel_example 0 3 buf_example"
  note w = writable_inv [OF kernel_example_ok(2) buf_example_inv buf_example_clean(2,1) refl]
  have "fm_inv kernel_example ?s" using w by blast
  moreover have "fm_inv kernel_example evict_example" if "fm_inv kernel_example ?s"
  proof -
    have b: "buf_inv kernel_example (dirty_pages ?s) ?s" "map_inv ?s" "flags_ok ?s" using that by (simp_all add: fm_inv_def buf_wf_def)
    have "buf_inv kernel_example (dirty_pages ?s) evict_example" by (rule buf_inv_rest [OF b(1)]) (simp_all add: evict_example_def)
    then show ?thesis using b(2,3)
      by (simp add: fm_inv_def buf_wf_def evict_example_def dirty_pages_def flags_ok_def map_inv_def rmap_of_def rmap_key_def)
  qed
  ultimately show "fm_inv kernel_example evict_example" by blast
  show pg: "pm_pages evict_example 3 = mk_writable (pm_pages buf_example 3)"
    using w buf_example_p3(2) by (simp add: evict_example_def)
  show "lockable evict_example 3" using buf_example_clean(3) by (simp add: lockable_def pg)
  show "p_index evict_example 3 = 3" using buf_example_p3(1) by (simp add: p_index_def pg)
  have "tp_is_dirty (pm_pages buf_example 3) = 0" using buf_example_clean(1) buf_example_p3(2) by (simp add: settled_def)
  then have e: "evict_example = (upd_page 3 (tp_set_pg_dirty True) (move_page_c2d_fifo_buffer_t 3 (dirty_tree_insert kernel_example 0 3
      (upd_pvd 0 (\<lambda>v. v\<lparr>pvd_is_readonly := False\<rparr>) (upd_page 3 (\<lambda>t. t\<lparr>tp_is_dirty := 1\<rparr>) buf_example)))))\<lparr>fb_size := 4\<rparr>"
    using buf_example_p3(2) by (simp add: evict_example_def dmap_do_tagged_page_writable_def Let_def)
  show "fb_evictor_run evict_example" "pvd_bk (fm_pvd evict_example 0) = Some 0" "fb_dirty evict_example 0 = \<lparr>d_buffer = [3], d_size = 1, d_max_size = 12\<rparr>"
    using buf_example_p3(1)
    by (simp_all add: e dirty_tree_insert_def Let_def move_page_c2d_fifo_buffer_t_def enq_dirty_def d_enqueue_def rem_clean_def lp_remove_def
        upd_pvd_def upd_page_def p_index_def dirty_q_def fm_const_defs buf_example_simps(5,8) d_init_def pvd_example_def set_buffer_id_def)
      (simp add: buf_example_def fm_mapped_def fm_example_def Let_def radix_insert_def radix_lookup_def upd_pvd_def upd_rmap_def upd_page_def
        pvd_example_def)
qed

lemma evict_example_select:
  obtains pgs s' where "evictor_select kernel_example 0 evict_example = (Some (pgs, 0), s')"
proof -
  note r = evict_example_rest
  have "\<not> dirty_total evict_example < int (fb_size evict_example div 5 * 3)" by (simp add: dirty_total_def evict_example_def)
  moreover have "tp_pvd (pm_pages evict_example 3) = Some 0" by (simp add: r(2) buf_example_clean(2))
  ultimately show ?thesis
    using that by (simp add: evictor_select_def deq_if_dirty_def d_dequeue_if_def r(7) ev_deq_eq r(3) set_buffer_id_def Let_def split_beta)
qed

lemma evict_example_batch:
  "dirty_of 0 evict_example p \<Longrightarrow> p = 3" "dirty_of 0 evict_example 3"
proof -
  show "dirty_of 0 evict_example 3" using evict_example_rest(2,3) by (simp add: dirty_of_def buf_example_clean(2))
  assume d: "dirty_of 0 evict_example p"
  have "pm_pages evict_example p = pm_pages buf_example p" if "p \<noteq> 3"
    using writable_inv [OF kernel_example_ok(2) buf_example_inv buf_example_clean(2,1) refl] that by (simp add: evict_example_def)
  moreover have "tp_in_use (pm_pages buf_example p) \<noteq> 1" if "p \<noteq> 3" using that by (simp add: buf_example_simps)
  moreover have "tp_in_use (pm_pages evict_example p) = 1" using d by (simp add: dirty_of_def lockable_def)
  ultimately show "p = 3" by metis
qed

theorem evictor_select_spec_witness:
  "\<exists>s'. evictor_select kernel_example 0 evict_example = (Some ([3], 0), s') \<and> locked_tp (pm_pages s' 3)"
proof -
  obtain pgs s' where sel: "evictor_select kernel_example 0 evict_example = (Some (pgs, 0), s')" by (rule evict_example_select)
  have "(0 :: nat) < EVICTOR_THREADS" by (simp add: fm_const_defs)
  note x = evictor_select_spec [OF kernel_example_ok(2) evict_example_rest(1) this sel]
  have "set pgs \<subseteq> {3}" "pgs \<noteq> []" "distinct (map (p_index evict_example) pgs)"
    using x evict_example_batch(1) strict_sorted_iff [of "map (p_index evict_example) pgs"] by auto
  then have "pgs = [3]" by (cases pgs; cases "tl pgs") auto
  then show ?thesis using sel x by auto
qed


end
