(* ===== verification/Min_Heap.thy ===== *)
theory Min_Heap
  imports Tagged_Page
begin

text \<open>
  The bounded binary min-heap of \<^verbatim>\<open>write_dirty_pages.c\<close>, which merges the per-CPU dirty trees. The locale
  \<open>bounded_pq\<close> states its contract as a priority queue of limited capacity; the heap interprets it.
\<close>

section \<open>The heap\<close>

definition MAX_CPUS :: nat where "MAX_CPUS = 64"

record heap_node =
  hn_cpu :: nat
  hn_offset :: u64
  hn_p :: pid

record min_heap =
  heap_array :: "heap_node list"
  heap_size :: nat

definition LCHILD :: "nat \<Rightarrow> nat" where "LCHILD x = 2 * x + 1"
definition RCHILD :: "nat \<Rightarrow> nat" where "RCHILD x = 2 * x + 2"
definition PARENT :: "nat \<Rightarrow> nat" where "PARENT x = (x - 1) div 2"

definition min_heap_create :: min_heap where
  "min_heap_create =
     \<lparr>heap_array = replicate MAX_CPUS \<lparr>hn_cpu = 0, hn_offset = 0, hn_p = 0\<rparr>, heap_size = 0\<rparr>"

definition min_heap_is_empty :: "min_heap \<Rightarrow> bool" where
  "min_heap_is_empty mh = (heap_size mh = 0)"

text \<open>The loop of \<^verbatim>\<open>min_heap_insert\<close>: it moves parents down and returns the free position.\<close>

function heap_sift_up :: "heap_node list \<Rightarrow> nat \<Rightarrow> u64 \<Rightarrow> heap_node list \<times> nat" where
  "heap_sift_up a i offset =
     (if i \<noteq> 0 \<and> offset < hn_offset (a ! PARENT i)
      then heap_sift_up (a[i := a ! PARENT i]) (PARENT i) offset
      else (a, i))"
  by pat_completeness auto
termination
  by (relation "measure (\<lambda>(a, i, offset). i)") (auto simp: PARENT_def)

text \<open>
  \<^verbatim>\<open>min_heap_insert\<close>. The driver's check of the capacity is compiled out; a write behind the array is
  outside the model and gives \<open>None\<close>.
\<close>

definition min_heap_insert :: "min_heap \<Rightarrow> nat \<Rightarrow> u64 \<Rightarrow> pid \<Rightarrow> min_heap option" where
  "min_heap_insert mh cpu offset p =
     (let i = heap_size mh in
      if i \<ge> MAX_CPUS then None
      else let (a, j) = heap_sift_up (heap_array mh) i offset
           in Some \<lparr>heap_array = a[j := \<lparr>hn_cpu = cpu, hn_offset = offset, hn_p = p\<rparr>],
                    heap_size = i + 1\<rparr>)"

text \<open>\<^verbatim>\<open>min_heap_heapify\<close> on the array, with the heap size as argument.\<close>

definition heap_smallest :: "heap_node list \<Rightarrow> nat \<Rightarrow> nat \<Rightarrow> nat" where
  "heap_smallest a n i =
     (let smallest = (if LCHILD i < n \<and> hn_offset (a ! LCHILD i) < hn_offset (a ! i)
                      then LCHILD i else i)
      in if RCHILD i < n \<and> hn_offset (a ! RCHILD i) < hn_offset (a ! smallest)
         then RCHILD i else smallest)"

function min_heap_heapify :: "heap_node list \<Rightarrow> nat \<Rightarrow> nat \<Rightarrow> heap_node list" where
  "min_heap_heapify a n i =
     (let smallest = heap_smallest a n i
      in if smallest \<noteq> i
         then min_heap_heapify (a[i := a ! smallest, smallest := a ! i]) n smallest
         else a)"
  by pat_completeness auto
termination
  by (relation "measure (\<lambda>(a, n, i). n - i)")
    (auto simp: heap_smallest_def LCHILD_def RCHILD_def Let_def split: if_splits)

text \<open>
  \<^verbatim>\<open>min_heap_delete_min\<close> returns the root and the heap; on an empty heap it would read before the
  array, which is \<open>None\<close>.
\<close>

definition min_heap_delete_min :: "min_heap \<Rightarrow> (heap_node \<times> min_heap) option" where
  "min_heap_delete_min mh =
     (if heap_size mh = 0 then None
      else let r = heap_array mh ! 0;
               n = heap_size mh - 1;
               a = (heap_array mh)[0 := heap_array mh ! n]
           in Some (r, \<lparr>heap_array = min_heap_heapify a n 0, heap_size = n\<rparr>))"

declare heap_sift_up.simps [simp del] min_heap_heapify.simps [simp del]

section \<open>The heap order\<close>

definition hkey :: "heap_node list \<Rightarrow> nat \<Rightarrow> u64" where
  "hkey a = (\<lambda>i. hn_offset (a ! i))"

definition heap_above :: "(nat \<Rightarrow> u64) \<Rightarrow> nat \<Rightarrow> bool" where
  "heap_above k n \<longleftrightarrow> (\<forall>j. 0 < j \<and> j < n \<longrightarrow> k (PARENT j) \<le> k j)"

definition mh_wf :: "min_heap \<Rightarrow> bool" where
  "mh_wf mh \<longleftrightarrow> length (heap_array mh) = MAX_CPUS \<and> heap_size mh \<le> MAX_CPUS \<and>
     heap_above (hkey (heap_array mh)) (heap_size mh)"

definition mh_mset :: "min_heap \<Rightarrow> heap_node multiset" where
  "mh_mset mh = mset (take (heap_size mh) (heap_array mh))"

text \<open>Heap order except between position \<open>i\<close> and its parent, respectively its children.\<close>

definition heap_except_up :: "(nat \<Rightarrow> u64) \<Rightarrow> nat \<Rightarrow> nat \<Rightarrow> bool" where
  "heap_except_up k n i \<longleftrightarrow>
     (\<forall>j. 0 < j \<and> j < n \<and> j \<noteq> i \<longrightarrow> k (PARENT j) \<le> k j) \<and>
     (\<forall>j. 0 < j \<and> j < n \<and> PARENT j = i \<and> 0 < i \<longrightarrow> k (PARENT i) \<le> k j)"

definition heap_except_down :: "(nat \<Rightarrow> u64) \<Rightarrow> nat \<Rightarrow> nat \<Rightarrow> bool" where
  "heap_except_down k n i \<longleftrightarrow>
     (\<forall>j. 0 < j \<and> j < n \<and> PARENT j \<noteq> i \<longrightarrow> k (PARENT j) \<le> k j) \<and>
     (\<forall>j. 0 < j \<and> j < n \<and> PARENT j = i \<and> 0 < i \<longrightarrow> k (PARENT i) \<le> k j)"

lemma PARENT_less: "0 < i \<Longrightarrow> PARENT i < i"
  by (auto simp: PARENT_def)

lemma PARENT_iff: "0 < j \<Longrightarrow> PARENT j = i \<longleftrightarrow> j = LCHILD i \<or> j = RCHILD i"
  by (auto simp: PARENT_def LCHILD_def RCHILD_def)

lemma PARENT_child [simp]: "PARENT (LCHILD i) = i" "PARENT (RCHILD i) = i"
  by (auto simp: PARENT_def LCHILD_def RCHILD_def)

lemma child_less [simp]: "i < LCHILD i" "i < RCHILD i" "0 < LCHILD i" "0 < RCHILD i"
  by (auto simp: LCHILD_def RCHILD_def)

lemma hkey_update: "i < length a \<Longrightarrow> hkey (a[i := x]) = (hkey a)(i := hn_offset x)"
  by (auto simp: hkey_def nth_list_update)

lemma hkey_nth: "hkey a i = hn_offset (a ! i)"
  by (simp add: hkey_def)

lemma mset_take_swap:
  assumes "i < n" "j < n" "n \<le> length a"
  shows "mset (take n (a[i := a ! j, j := a ! i])) = mset (take n a)"
  using mset_swap [of j "take n a" i] assms by (simp add: take_update_swap)

lemma heap_except_up_move:
  assumes "0 < i" and "i < n" and "x < k (PARENT i)" and "heap_except_up (k(i := x)) n i"
  shows "heap_except_up (k(i := k (PARENT i), PARENT i := x)) n (PARENT i)"
proof -
  let ?p = "PARENT i"
  have p: "?p < i" using assms(1) by (rule PARENT_less)
  have up: "k (PARENT j) \<le> k j" if "0 < j" "j < n" "j \<noteq> i" "PARENT j \<noteq> i" for j
    using assms(4) that by (auto simp: heap_except_up_def split: if_splits)
  have low: "k ?p \<le> k j" if "0 < j" "j < n" "PARENT j = i" for j
    using assms(1,4) that p PARENT_less [of j] by (auto simp: heap_except_up_def split: if_splits)
  have grand: "k (PARENT ?p) \<le> k ?p" if "0 < ?p"
    using up [of ?p] that p assms(2) PARENT_less [of ?p] by auto
  have sib: "k ?p \<le> k j" if "0 < j" "j < n" "PARENT j = ?p" "j \<noteq> i" for j
    using up [of j] that p by auto
  show ?thesis
    unfolding heap_except_up_def
  proof (intro conjI allI impI; elim conjE)
    fix j assume j: "0 < j" "j < n" "j \<noteq> ?p"
    show "(k(i := k ?p, ?p := x)) (PARENT j) \<le> (k(i := k ?p, ?p := x)) j"
    proof -
      consider "j = i" | "j \<noteq> i" "PARENT j = i" | "j \<noteq> i" "PARENT j = ?p" | "j \<noteq> i" "PARENT j \<noteq> i" "PARENT j \<noteq> ?p" by blast
      then show ?thesis
      proof cases
        case 1
        then show ?thesis using assms(3) p by simp
      next
        case 2
        then show ?thesis using low [OF j(1,2)] j(3) p by simp
      next
        case 3
        then show ?thesis using order_trans [OF less_imp_le [OF assms(3)] sib [OF j(1,2)]] j(3) by simp
      next
        case 4
        then show ?thesis using up [OF j(1,2)] j(3) by simp
      qed
    qed
  next
    fix j assume j: "0 < j" "j < n" "PARENT j = ?p" "0 < ?p"
    then show "(k(i := k ?p, ?p := x)) (PARENT ?p) \<le> (k(i := k ?p, ?p := x)) j"
      using grand sib [of j] p PARENT_less [of ?p] PARENT_less [of j]
      by (cases "j = i") (auto intro: order_trans)
  qed
qed

lemma heap_except_up_done:
  assumes "heap_except_up (k(i := x)) n i" and "i < n" and "i = 0 \<or> k (PARENT i) \<le> x"
  shows "heap_above (k(i := x)) n"
  using assms PARENT_less [of i] by (auto simp: heap_except_up_def heap_above_def)

lemma heap_sift_up_spec:
  assumes "i < n" "n \<le> length a" "heap_except_up (hkey (a[i := x])) n i"
    "heap_sift_up a i (hn_offset x) = (a', j)"
  shows "heap_above (hkey (a'[j := x])) n \<and> mset (take n (a'[j := x])) = mset (take n (a[i := x])) \<and>
    length a' = length a"
  using assms
proof (induction a i "hn_offset x" rule: heap_sift_up.induct)
  case (1 a i)
  let ?p = "PARENT i"
  let ?b = "a[i := a ! ?p]"
  show ?case
  proof (cases "i \<noteq> 0 \<and> hn_offset x < hn_offset (a ! ?p)")
    case True
    then have p: "?p < i" by (simp add: PARENT_less)
    have swap: "?b[?p := x] = (a[i := x])[?p := (a[i := x]) ! i, i := (a[i := x]) ! ?p]"
      using p "1.prems"(1,2) by (simp add: list_update_swap [of i ?p])
    have "heap_except_up ((hkey a)(i := hkey a ?p, ?p := hn_offset x)) n ?p"
      using True "1.prems"(1,2,3) by (intro heap_except_up_move) (auto simp: hkey_update hkey_nth)
    then have ex: "heap_except_up (hkey (?b[?p := x])) n ?p"
      using p "1.prems"(1,2) by (simp add: hkey_update hkey_nth)
    have "heap_sift_up ?b ?p (hn_offset x) = (a', j)"
      using "1.prems"(4) True by (simp add: heap_sift_up.simps [of a i])
    moreover have "mset (take n (?b[?p := x])) = mset (take n (a[i := x]))"
      unfolding swap using p "1.prems"(1,2) by (intro mset_take_swap) auto
    ultimately show ?thesis
      using "1.hyps" [OF True] ex p "1.prems"(1,2) by simp
  next
    case False
    then have "heap_sift_up a i (hn_offset x) = (a, i)" by (subst heap_sift_up.simps) auto
    with "1.prems"(4) have "a' = a" "j = i" by simp_all
    moreover have "heap_above ((hkey a)(i := hn_offset x)) n"
      using False "1.prems" by (intro heap_except_up_done) (auto simp: hkey_update hkey_nth)
    ultimately show ?thesis using "1.prems"(1,2) by (simp add: hkey_update)
  qed
qed

lemma heap_smallest_cases:
  "heap_smallest a n i = i \<and> (LCHILD i < n \<longrightarrow> hkey a i \<le> hkey a (LCHILD i))
      \<and> (RCHILD i < n \<longrightarrow> hkey a i \<le> hkey a (RCHILD i)) \<or>
   (\<exists>s. heap_smallest a n i = s \<and> (s = LCHILD i \<or> s = RCHILD i) \<and> s < n \<and> hkey a s < hkey a i
      \<and> (LCHILD i < n \<longrightarrow> hkey a s \<le> hkey a (LCHILD i))
      \<and> (RCHILD i < n \<longrightarrow> hkey a s \<le> hkey a (RCHILD i)))"
  by (auto simp: heap_smallest_def Let_def hkey_def)

lemma heap_except_down_move:
  assumes "heap_except_down k n i" and "s = LCHILD i \<or> s = RCHILD i" and "s < n" and "k s < k i"
    and "LCHILD i < n \<Longrightarrow> k s \<le> k (LCHILD i)" and "RCHILD i < n \<Longrightarrow> k s \<le> k (RCHILD i)"
  shows "heap_except_down (k(i := k s, s := k i)) n s"
proof -
  have s: "PARENT s = i" "i < s" "0 < s" using assms(2) by auto
  have far: "k (PARENT j) \<le> k j" if "0 < j" "j < n" "PARENT j \<noteq> i" for j
    using assms(1) that by (auto simp: heap_except_down_def)
  have near: "k s \<le> k j" if "0 < j" "j < n" "PARENT j = i" for j
    using that assms(5,6) PARENT_iff [of j i] by auto
  have top: "k (PARENT i) \<le> k s" if "0 < i"
    using assms(1,3) s that by (auto simp: heap_except_down_def)
  show ?thesis
    unfolding heap_except_down_def
  proof (intro conjI allI impI; elim conjE)
    fix j assume j: "0 < j" "j < n" "PARENT j \<noteq> s"
    show "(k(i := k s, s := k i)) (PARENT j) \<le> (k(i := k s, s := k i)) j"
      using j far [of j] near [of j] top assms(4) s PARENT_less [of j]
      by (cases "j = i"; cases "j = s"; cases "PARENT j = i") (auto simp: less_imp_le)
  next
    fix j assume j: "0 < j" "j < n" "PARENT j = s" "0 < s"
    then show "(k(i := k s, s := k i)) (PARENT s) \<le> (k(i := k s, s := k i)) j"
      using far [of j] s PARENT_less [of j] by auto
  qed
qed

lemma heap_except_down_done:
  assumes "heap_except_down k n i" and "LCHILD i < n \<Longrightarrow> k i \<le> k (LCHILD i)"
    and "RCHILD i < n \<Longrightarrow> k i \<le> k (RCHILD i)"
  shows "heap_above k n"
  unfolding heap_above_def
proof (intro allI impI; elim conjE)
  fix j assume "0 < j" "j < n"
  with assms PARENT_iff [of j i] show "k (PARENT j) \<le> k j"
    by (cases "PARENT j = i") (auto simp: heap_except_down_def)
qed

lemma min_heap_heapify_spec:
  assumes "i < n \<or> n = 0" "n \<le> length a" "heap_except_down (hkey a) n i"
  shows "heap_above (hkey (min_heap_heapify a n i)) n \<and>
    mset (take n (min_heap_heapify a n i)) = mset (take n a) \<and>
    length (min_heap_heapify a n i) = length a"
  using assms
proof (induction a n i rule: min_heap_heapify.induct)
  case (1 a n i)
  let ?s = "heap_smallest a n i"
  show ?case
  proof (cases "?s = i")
    case True
    then have "heap_above (hkey a) n"
      using heap_smallest_cases [of a n i] "1.prems"(3)
      by (intro heap_except_down_done [of _ _ i]) auto
    with True show ?thesis by (simp add: min_heap_heapify.simps [of a n i])
  next
    case False
    then have s: "?s = LCHILD i \<or> ?s = RCHILD i" "?s < n" "hkey a ?s < hkey a i"
      "LCHILD i < n \<longrightarrow> hkey a ?s \<le> hkey a (LCHILD i)"
      "RCHILD i < n \<longrightarrow> hkey a ?s \<le> hkey a (RCHILD i)"
      using heap_smallest_cases [of a n i] by auto
    then have i: "i < ?s" by auto
    let ?b = "a[i := a ! ?s, ?s := a ! i]"
    have "heap_except_down ((hkey a)(i := hkey a ?s, ?s := hkey a i)) n ?s"
      using s "1.prems"(3) by (intro heap_except_down_move) auto
    then have "heap_except_down (hkey ?b) n ?s"
      using s(2) i "1.prems"(2) by (simp add: hkey_update hkey_nth)
    moreover have "mset (take n ?b) = mset (take n a)"
      using s(2) i "1.prems"(2) by (intro mset_take_swap) auto
    ultimately show ?thesis
      using "1.IH" [OF refl False] s(2) "1.prems"(2) False
      by (simp add: min_heap_heapify.simps [of a n i] Let_def)
  qed
qed

lemma heap_above_root: "heap_above k n \<Longrightarrow> j < n \<Longrightarrow> k 0 \<le> k j"
proof (induction j rule: less_induct)
  case (less j)
  show ?case
  proof (cases "j = 0")
    case False
    then have "k 0 \<le> k (PARENT j)" using less PARENT_less [of j] by simp
    also have "\<dots> \<le> k j" using less.prems False by (simp add: heap_above_def)
    finally show ?thesis .
  qed simp
qed

section \<open>A priority queue of bounded capacity\<close>

text \<open>
  What the k-way merge relies on: inserting below the capacity succeeds and adds one node; deleting
  from a non-empty queue returns a node of least key and removes it.
\<close>

locale bounded_pq =
  fixes cap :: nat
    and pq_invar :: "'q \<Rightarrow> bool"
    and pq_mset :: "'q \<Rightarrow> heap_node multiset"
    and pq_insert :: "'q \<Rightarrow> nat \<Rightarrow> u64 \<Rightarrow> pid \<Rightarrow> 'q option"
    and pq_delete_min :: "'q \<Rightarrow> (heap_node \<times> 'q) option"
  assumes pq_insert_room: "pq_invar q \<Longrightarrow> size (pq_mset q) < cap \<Longrightarrow>
      \<exists>q'. pq_insert q c off p = Some q' \<and> pq_invar q' \<and>
        pq_mset q' = pq_mset q + {#\<lparr>hn_cpu = c, hn_offset = off, hn_p = p\<rparr>#}"
    and pq_delete_min_empty: "pq_invar q \<Longrightarrow> pq_mset q = {#} \<Longrightarrow> pq_delete_min q = None"
    and pq_delete_min_some: "pq_invar q \<Longrightarrow> pq_mset q \<noteq> {#} \<Longrightarrow>
      \<exists>r q'. pq_delete_min q = Some (r, q') \<and> pq_invar q' \<and> r \<in># pq_mset q \<and>
        pq_mset q' = pq_mset q - {#r#} \<and> (\<forall>x\<in>#pq_mset q. hn_offset r \<le> hn_offset x)"
begin

lemma pq_delete_minD:
  assumes "pq_invar q" and "pq_delete_min q = Some (r, q')"
  shows "pq_invar q' \<and> pq_mset q = add_mset r (pq_mset q') \<and>
    (\<forall>x\<in>#pq_mset q'. hn_offset r \<le> hn_offset x)"
proof -
  have "pq_mset q \<noteq> {#}" using assms pq_delete_min_empty by fastforce
  with pq_delete_min_some [OF assms(1)] assms(2) show ?thesis
    by (auto dest: in_diffD)
qed

lemma pq_replace_min:
  assumes "pq_invar q" and "pq_delete_min q = Some (r, q1)" and "size (pq_mset q) \<le> cap"
  shows "\<exists>q2. pq_insert q1 c off p = Some q2 \<and> pq_invar q2 \<and> size (pq_mset q2) = size (pq_mset q) \<and>
    add_mset r (pq_mset q2) = add_mset \<lparr>hn_cpu = c, hn_offset = off, hn_p = p\<rparr> (pq_mset q)"
proof -
  have d: "pq_invar q1" "pq_mset q = add_mset r (pq_mset q1)"
    using pq_delete_minD [OF assms(1,2)] by auto
  then have "size (pq_mset q1) < cap" using assms(3) by simp
  from pq_insert_room [OF d(1) this, of c off p] d(2) show ?thesis
    by (auto simp: add_mset_commute)
qed

end

lemma mh_mset_size: "mh_wf mh \<Longrightarrow> size (mh_mset mh) = heap_size mh"
  by (simp add: mh_mset_def mh_wf_def)

lemma min_heap_insert_spec:
  assumes "mh_wf mh" and "heap_size mh < MAX_CPUS"
  shows "\<exists>mh'. min_heap_insert mh c off p = Some mh' \<and> mh_wf mh' \<and>
    mh_mset mh' = mh_mset mh + {#\<lparr>hn_cpu = c, hn_offset = off, hn_p = p\<rparr>#}"
proof -
  let ?a = "heap_array mh" and ?n = "heap_size mh"
  let ?x = "\<lparr>hn_cpu = c, hn_offset = off, hn_p = p\<rparr>"
  have len: "length ?a = MAX_CPUS" and up: "heap_above (hkey ?a) ?n"
    using assms(1) by (simp_all add: mh_wf_def)
  obtain a' j where s: "heap_sift_up ?a ?n off = (a', j)" by fastforce
  have par: "PARENT i < ?n" if "0 < i" "i \<le> ?n" for i
    using PARENT_less [of i] that by linarith
  have "heap_except_up ((hkey ?a)(?n := off)) (Suc ?n) ?n"
    unfolding heap_except_up_def
  proof (intro conjI allI impI; elim conjE)
    fix j assume "0 < j" "j < Suc ?n" "j \<noteq> ?n"
    with par [of j] up show "((hkey ?a)(?n := off)) (PARENT j) \<le> ((hkey ?a)(?n := off)) j"
      by (auto simp: heap_above_def)
  next
    fix j assume "0 < j" "j < Suc ?n" "PARENT j = ?n"
    with par [of j] show "((hkey ?a)(?n := off)) (PARENT ?n) \<le> ((hkey ?a)(?n := off)) j" by simp
  qed
  then have "heap_except_up (hkey (?a[?n := ?x])) (Suc ?n) ?n"
    using assms(2) len by (simp add: hkey_update)
  with heap_sift_up_spec [of ?n "Suc ?n" ?a ?x a' j] s assms(2) len
  have "heap_above (hkey (a'[j := ?x])) (Suc ?n)" "length a' = MAX_CPUS"
    "mset (take (Suc ?n) (a'[j := ?x])) = mset (take (Suc ?n) (?a[?n := ?x]))"
    by auto
  moreover have "take (Suc ?n) (?a[?n := ?x]) = take ?n ?a @ [?x]"
    using assms(2) len by (simp add: take_Suc_conv_app_nth)
  ultimately show ?thesis
    using s assms(2) by (auto simp: min_heap_insert_def mh_wf_def mh_mset_def)
qed

lemma min_heap_delete_min_spec:
  assumes "mh_wf mh" and "heap_size mh \<noteq> 0"
  shows "\<exists>r mh'. min_heap_delete_min mh = Some (r, mh') \<and> mh_wf mh' \<and> r \<in># mh_mset mh \<and>
    mh_mset mh' = mh_mset mh - {#r#} \<and> (\<forall>x\<in>#mh_mset mh. hn_offset r \<le> hn_offset x)"
proof -
  let ?a = "heap_array mh"
  obtain n where n: "heap_size mh = Suc n" using assms(2) by (cases "heap_size mh") auto
  let ?b = "?a[0 := ?a ! n]" and ?r = "?a ! 0"
  have len: "length ?a = MAX_CPUS" "n < MAX_CPUS" and up: "heap_above (hkey ?a) (Suc n)"
    using assms(1) n by (simp_all add: mh_wf_def)
  have "heap_except_down ((hkey ?a)(0 := hkey ?a n)) n 0"
    using up PARENT_less by (auto simp: heap_above_def heap_except_down_def)
  then have down: "heap_except_down (hkey ?b) n 0"
    using len by (simp add: hkey_update hkey_nth)
  have "heap_above (hkey (min_heap_heapify ?b n 0)) n" "length (min_heap_heapify ?b n 0) = MAX_CPUS"
    and m: "mset (take n (min_heap_heapify ?b n 0)) = mset (take n ?b)"
    using min_heap_heapify_spec [OF _ _ down] len by auto
  moreover have "mset (take n ?b) = mset (take (Suc n) ?a) - {#?r#}"
  proof -
    have "mset (take (Suc n) ?a) = add_mset ?r (mset (take n ?b))"
    proof (cases n)
      case 0
      then show ?thesis using len by (simp add: take_Suc_conv_app_nth)
    next
      case (Suc m)
      obtain x xs where xs: "?a = x # xs" using len by (cases ?a) auto
      have "m < length xs" using Suc len xs by simp
      then show ?thesis using Suc xs by (simp add: take_Suc_conv_app_nth)
    qed
    then show ?thesis by simp
  qed
  moreover have "?r \<in># mh_mset mh"
    using n len by (simp add: mh_mset_def in_set_conv_nth) (metis nth_take zero_less_Suc length_take min_less_iff_conj)
  moreover have "hn_offset ?r \<le> hn_offset x" if "x \<in># mh_mset mh" for x
    using that n heap_above_root [OF up] by (auto simp: mh_mset_def hkey_nth in_set_conv_nth)
  ultimately show ?thesis
    using n len by (auto simp: min_heap_delete_min_def mh_wf_def mh_mset_def Let_def)
qed

interpretation mh: bounded_pq MAX_CPUS mh_wf mh_mset min_heap_insert min_heap_delete_min
proof
  fix q c off p
  assume "mh_wf q" "size (mh_mset q) < MAX_CPUS"
  then show "\<exists>q'. min_heap_insert q c off p = Some q' \<and> mh_wf q' \<and>
      mh_mset q' = mh_mset q + {#\<lparr>hn_cpu = c, hn_offset = off, hn_p = p\<rparr>#}"
    using min_heap_insert_spec [of q c off p] by (simp add: mh_mset_size)
next
  fix q assume "mh_wf q" "mh_mset q = {#}"
  then show "min_heap_delete_min q = None"
    by (simp add: min_heap_delete_min_def flip: mh_mset_size)
next
  fix q assume "mh_wf q" "mh_mset q \<noteq> {#}"
  then show "\<exists>r q'. min_heap_delete_min q = Some (r, q') \<and> mh_wf q' \<and> r \<in># mh_mset q \<and>
      mh_mset q' = mh_mset q - {#r#} \<and> (\<forall>x\<in>#mh_mset q. hn_offset r \<le> hn_offset x)"
    by (intro min_heap_delete_min_spec) (auto simp flip: mh_mset_size)
qed

lemma mh_wf_create [simp]: "mh_wf min_heap_create" "mh_mset min_heap_create = {#}"
  by (simp_all add: mh_wf_def min_heap_create_def heap_above_def mh_mset_def)

lemma min_heap_is_empty_iff: "mh_wf mh \<Longrightarrow> min_heap_is_empty mh \<longleftrightarrow> mh_mset mh = {#}"
  using mh_mset_size [of mh] by (auto simp: min_heap_is_empty_def)

end
