(* ===== verification/Write_Dirty.thy ===== *)
theory Write_Dirty
  imports Evict_Round Min_Heap
begin

text \<open>
  \<^verbatim>\<open>write_dirty_pages\<close> of \<^verbatim>\<open>write_dirty_pages.c\<close>, the core of \<^verbatim>\<open>fsync\<close>, \<^verbatim>\<open>msync\<close> and of closing a device: it
  merges the per-CPU dirty trees of a backing object with the min-heap, hands each page to a callback
  and writes the pages in batches of 512.
\<close>

section \<open>The code\<close>

text \<open>
  Taking the first page of a dirty tree into the heap. \<open>None\<close>: the page is locked by someone else and the
  code spins. The check of the heap's capacity is compiled out; beyond it the code writes behind the array.
\<close>

definition heap_refill :: "kernel \<Rightarrow> nat \<Rightarrow> nat \<Rightarrow> min_heap \<times> fm \<Rightarrow> (min_heap \<times> fm) option" where
  "heap_refill K pvd cpu = (\<lambda>(mh, s).
     let tree = pvd_dirty_tree (fm_pvd s pvd) cpu
     in if tree = Leaf then Some (mh, s)
        else case rb_first (k_rb K) tree of
               None \<Rightarrow> Some (mh, s\<lparr>fm_bug := True\<rparr>)
             | Some p \<Rightarrow>
                 (let (r, tp) = trylock_tp (pm_pages s p) ULONG_MAX
                  in if r \<noteq> 0 then None
                     else let s = upd_page p (\<lambda>_. tp) s
                          in case min_heap_insert mh cpu (p_index s p) p of
                               None \<Rightarrow> Some (mh, s\<lparr>fm_bug := True\<rparr>)
                             | Some mh \<Rightarrow> Some (mh, upd_pvd pvd (\<lambda>v. v\<lparr>pvd_dirty_tree := (pvd_dirty_tree v)(cpu :=
                                 rb_erase (k_rb K) p tree)\<rparr>) s)))"

definition heap_fill :: "kernel \<Rightarrow> nat \<Rightarrow> fm \<Rightarrow> (min_heap \<times> fm) option" where
  "heap_fill K pvd s =
     fold (\<lambda>cpu r. case r of None \<Rightarrow> None | Some ms \<Rightarrow> heap_refill K pvd cpu ms) [0..<ncpus K] (Some (min_heap_create, s))"

definition WRITE_BATCH :: nat where "WRITE_BATCH = 512"

definition write_and_unlock :: "kernel \<Rightarrow> nat \<Rightarrow> pid list \<Rightarrow> fm \<Rightarrow> fm" where
  "write_and_unlock K pvd pages s = fold (\<lambda>p. upd_page p unlock_tp) pages (evictor_write K pvd pages s)"

text \<open>
  The main loop. Each round takes one page out of the heap or the trees; \<open>n\<close> counts them down. The first component of
  the result logs the pages in the order in which they were added to batches, the second is the last, incomplete batch.
\<close>

fun write_dirty_loop ::
  "kernel \<Rightarrow> nat \<Rightarrow> (pid \<Rightarrow> fm \<Rightarrow> fm) option \<Rightarrow> nat \<Rightarrow> pid list \<times> pid list \<Rightarrow> min_heap \<Rightarrow> fm \<Rightarrow> ((pid list \<times> pid list) \<times> fm) option" where
  "write_dirty_loop K pvd page_cleanup 0 lp mh s = None"
| "write_dirty_loop K pvd page_cleanup (Suc n) (log, pages) mh s =
     (if min_heap_is_empty mh then Some ((log, pages), s)
      else case min_heap_delete_min mh of
             None \<Rightarrow> None
           | Some (hn, mh) \<Rightarrow>
               (case heap_refill K pvd (hn_cpu hn) (mh, s) of
                  None \<Rightarrow> None
                | Some (mh, s) \<Rightarrow>
                    (let s = (case page_cleanup of None \<Rightarrow> s | Some cb \<Rightarrow> cb (hn_p hn) s);
                         log = log @ [hn_p hn];
                         pages = pages @ [hn_p hn]
                     in if length pages = WRITE_BATCH
                        then write_dirty_loop K pvd page_cleanup n (log, []) mh (write_and_unlock K pvd pages s)
                        else write_dirty_loop K pvd page_cleanup n (log, pages) mh s)))"

definition tree_nodes :: "kernel \<Rightarrow> nat \<Rightarrow> fm \<Rightarrow> nat" where
  "tree_nodes K pvd s = sum_list (map (\<lambda>cpu. size (pvd_dirty_tree (fm_pvd s pvd) cpu)) [0..<ncpus K])"

definition write_dirty_pages :: "kernel \<Rightarrow> nat \<Rightarrow> (pid \<Rightarrow> fm \<Rightarrow> fm) option \<Rightarrow> fm \<Rightarrow> (pid list \<times> fm) option" where
  "write_dirty_pages K pvd page_cleanup s =
     (case heap_fill K pvd s of
        None \<Rightarrow> None
      | Some (mh, s) \<Rightarrow>
          (case write_dirty_loop K pvd page_cleanup (Suc (heap_size mh + tree_nodes K pvd s)) ([], []) mh s of
             None \<Rightarrow> None
           | Some ((log, pages), s) \<Rightarrow> Some (log, if length pages > 0 then write_and_unlock K pvd pages s else s)))"

text \<open>The callbacks of \<^verbatim>\<open>main.c\<close>, and \<^verbatim>\<open>dmap_fsync\<close>, which \<^verbatim>\<open>msync\<close> and \<^verbatim>\<open>fsync\<close> call.\<close>

definition blkdev_release_cb :: "pid \<Rightarrow> fm \<Rightarrow> fm" where
  "blkdev_release_cb p s = move_page_d2c_fifo_buffer_t p s"

definition blkdev_fsync_cb :: "kernel \<Rightarrow> pid \<Rightarrow> fm \<Rightarrow> fm" where
  "blkdev_fsync_cb K p s = (let (et, s) = clear_mappings K p (None, s) in move_page_d2c_fifo_buffer_t p s)"

definition dmap_fsync :: "kernel \<Rightarrow> nat \<Rightarrow> fm \<Rightarrow> (int \<times> fm) option" where
  "dmap_fsync K info s =
     (case write_dirty_pages K (fi_pvd (fm_info s info)) (Some (blkdev_fsync_cb K)) s of
        None \<Rightarrow> None
      | Some (log, s) \<Rightarrow> Some (0, s))"

section \<open>Merging sorted queues with the heap\<close>

text \<open>
  \<open>fr c\<close> is the page of CPU \<open>c\<close> in the heap, \<open>tl c\<close> what is left in its tree in order. The heap holds exactly the
  fronts.
\<close>

definition heap_of :: "(pid \<Rightarrow> u64) \<Rightarrow> nat \<Rightarrow> (nat \<Rightarrow> pid option) \<Rightarrow> heap_node multiset" where
  "heap_of idx N fr = image_mset (\<lambda>c. \<lparr>hn_cpu = c, hn_offset = idx (the (fr c)), hn_p = the (fr c)\<rparr>) (mset_set {c. c < N \<and> fr c \<noteq> None})"

definition queue :: "(nat \<Rightarrow> pid option) \<Rightarrow> (nat \<Rightarrow> pid list) \<Rightarrow> nat \<Rightarrow> pid list" where
  "queue fr rest c = (case fr c of None \<Rightarrow> [] | Some p \<Rightarrow> [p]) @ rest c"

text \<open>
  The pages in \<open>log\<close> have been merged: they and the queues are sorted, and every page that is left has a
  greater number. \<open>cpu\<close> maps a number to its queue.
\<close>

definition merging :: "(pid \<Rightarrow> u64) \<Rightarrow> (u64 \<Rightarrow> nat) \<Rightarrow> nat \<Rightarrow> (nat \<Rightarrow> pid option) \<Rightarrow> (nat \<Rightarrow> pid list) \<Rightarrow> pid list \<Rightarrow> bool" where
  "merging idx cpu N fr rest log \<longleftrightarrow> sorted_wrt (<) (map idx log) \<and>
     (\<forall>c<N. sorted_wrt (<) (map idx (queue fr rest c)) \<and> (fr c = None \<longrightarrow> rest c = []) \<and>
        (\<forall>y\<in>set (queue fr rest c). cpu (idx y) = c \<and> (\<forall>x\<in>set log. idx x < idx y)))"

lemma heap_of_member:
  "n \<in># heap_of idx N fr \<longleftrightarrow> (\<exists>c<N. \<exists>p. fr c = Some p \<and> n = \<lparr>hn_cpu = c, hn_offset = idx p, hn_p = p\<rparr>)"
  by (auto simp: heap_of_def)

lemma heap_of_empty: "heap_of idx N fr = {#} \<longleftrightarrow> (\<forall>c<N. fr c = None)"
  by (auto simp: heap_of_def mset_set_empty_iff)

lemma heap_of_remove:
  assumes "c < N" and "fr c = Some p"
  shows "heap_of idx N fr = add_mset \<lparr>hn_cpu = c, hn_offset = idx p, hn_p = p\<rparr> (heap_of idx N (fr(c := None)))"
proof -
  let ?A = "{a. a < N \<and> (fr(c := None)) a \<noteq> None}"
  have A: "{a. a < N \<and> fr a \<noteq> None} = insert c ?A" "c \<notin> ?A" "finite ?A" using assms by auto
  have "image_mset (\<lambda>a. \<lparr>hn_cpu = a, hn_offset = idx (the (fr a)), hn_p = the (fr a)\<rparr>) (mset_set ?A) = heap_of idx N (fr(c := None))"
    unfolding heap_of_def by (rule image_mset_cong) auto
  then show ?thesis unfolding heap_of_def [of idx N fr] A(1) using A(2,3) assms(2) by simp
qed

lemma size_heap_of: "size (heap_of idx N fr) = card {c. c < N \<and> fr c \<noteq> None}"
  by (simp add: heap_of_def)

context bounded_pq
begin

lemma pq_add_front:
  assumes "pq_invar q" and "pq_mset q = heap_of idx N fr" and "fr c = None" and "c < N" and "N \<le> cap"
  shows "\<exists>q'. pq_insert q c (idx p) p = Some q' \<and> pq_invar q' \<and> pq_mset q' = heap_of idx N (fr(c := Some p))"
proof -
  have "{a. a < N \<and> fr a \<noteq> None} \<subset> {..<N}" using assms(3,4) by blast
  then have "card {a. a < N \<and> fr a \<noteq> None} < card {..<N}" by (rule psubset_card_mono [rotated]) simp
  then have "size (pq_mset q) < cap" using assms(5) unfolding assms(2) size_heap_of by simp
  moreover have "(fr(c := Some p))(c := None) = fr" using assms(3) by auto
  then have "heap_of idx N (fr(c := Some p)) = add_mset \<lparr>hn_cpu = c, hn_offset = idx p, hn_p = p\<rparr> (heap_of idx N fr)"
    using heap_of_remove [of c N "fr(c := Some p)" p idx] assms(4) by simp
  ultimately show ?thesis using pq_insert_room [OF assms(1), of c "idx p" p] assms(2) by auto
qed

lemma pq_take_front:
  assumes "pq_invar q" and "pq_mset q = heap_of idx N fr" and "pq_delete_min q = Some (r, q1)"
  shows "hn_cpu r < N \<and> fr (hn_cpu r) = Some (hn_p r) \<and> pq_invar q1 \<and> pq_mset q1 = heap_of idx N (fr(hn_cpu r := None)) \<and>
    (\<forall>c<N. \<forall>y. fr c = Some y \<longrightarrow> idx (hn_p r) \<le> idx y)"
proof -
  note d = pq_delete_minD [OF assms(1,3)]
  then have "r \<in># heap_of idx N fr" using assms(2) by (metis union_single_eq_member)
  then obtain c p where c: "c < N" "fr c = Some p" "r = \<lparr>hn_cpu = c, hn_offset = idx p, hn_p = p\<rparr>" by (auto simp: heap_of_member)
  have q1: "pq_mset q1 = heap_of idx N (fr(c := None))" using d assms(2) heap_of_remove [of c N fr p idx] c by simp
  have "idx p \<le> idx y" if "a < N" "fr a = Some y" for a y
  proof (cases "a = c")
    case False
    then have "\<lparr>hn_cpu = a, hn_offset = idx y, hn_p = y\<rparr> \<in># pq_mset q1" unfolding q1 heap_of_member using that by auto
    then show ?thesis using d c(3) by force
  qed (use that c(2) in simp)
  then show ?thesis using c d q1 by simp
qed

end

lemma merging_take:
  assumes m: "merging idx cpu N fr rest log" and c: "c < N" "fr c = Some p"
    and le: "\<And>a y. a < N \<Longrightarrow> fr a = Some y \<Longrightarrow> idx p \<le> idx y"
    and fr': "fr' = fr(c := (case rest c of [] \<Rightarrow> None | x # xs \<Rightarrow> Some x))" and rest': "rest' = rest(c := tl (rest c))"
  shows "merging idx cpu N fr' rest' (log @ [p])"
proof -
  have q: "queue fr' rest' a = (if a = c then rest c else queue fr rest a)" for a
    by (cases "rest c") (auto simp: queue_def fr' rest')
  have qc: "queue fr rest c = p # rest c" using c(2) by (simp add: queue_def)
  have mm: "sorted_wrt (<) (map idx (queue fr rest a))" "fr a = None \<longrightarrow> rest a = []"
    "\<And>y. y \<in> set (queue fr rest a) \<Longrightarrow> cpu (idx y) = a \<and> (\<forall>x\<in>set log. idx x < idx y)" if "a < N" for a
    using m that unfolding merging_def by blast+
  have cp: "cpu (idx p) = c" using mm(3) [OF c(1), of p] qc by simp
  have "idx p < idx y" if "a < N" "y \<in> set (queue fr' rest' a)" for a y
  proof (cases "a = c")
    case True
    then show ?thesis using mm(1) [OF c(1)] qc q that(2) by simp
  next
    case False
    then have y: "y \<in> set (queue fr rest a)" using that(2) q by simp
    have "fr a \<noteq> None" using y mm(2) [OF that(1)] by (cases "fr a") (auto simp: queue_def)
    then obtain z where z: "fr a = Some z" by blast
    then have "idx z \<le> idx y" using mm(1) [OF that(1)] y by (auto simp: queue_def)
    moreover have "idx p \<le> idx z" using le [OF that(1) z] .
    moreover have "idx p \<noteq> idx y" using mm(3) [OF that(1) y] cp False by auto
    ultimately show ?thesis by simp
  qed
  moreover have "sorted_wrt (<) (map idx (log @ [p]))" using m mm(3) [OF c(1), of p] qc by (auto simp: merging_def sorted_wrt_append)
  moreover have "sorted_wrt (<) (map idx (queue fr' rest' a)) \<and> (fr' a = None \<longrightarrow> rest' a = [])" if "a < N" for a
    using mm(1,2) [OF that] qc q by (cases "rest c") (auto simp: fr' rest')
  moreover have "cpu (idx y) = a \<and> (\<forall>x\<in>set log. idx x < idx y)" if "a < N" "y \<in> set (queue fr' rest' a)" for a y
    using mm(3) [OF that(1), of y] that(2) qc q by (auto split: if_splits)
  ultimately show ?thesis unfolding merging_def by auto
qed

section \<open>The state during the merge\<close>

text \<open>
  What a callback promises: it moves a dirty page, which has left its dirty tree, to the clean queue
  and marks it clean; \<open>prot\<close> is what it does to the page tables.
\<close>

locale page_cleanup =
  fixes cb :: "kernel \<Rightarrow> pid \<Rightarrow> fm \<Rightarrow> fm"
    and prot :: "pid \<Rightarrow> ptes \<Rightarrow> ptes"
  assumes cb_clean: "walk_ok K \<Longrightarrow> buf_inv K D s \<Longrightarrow> map_inv s \<Longrightarrow> tp_buffer_id (pm_pages s p) = BI_DIRTY \<Longrightarrow>
      buf_inv K D (cb K p s) \<and> map_inv (cb K p s) \<and> pm_pages (cb K p s) = (pm_pages s)(p := clean_page (pm_pages s p)) \<and>
      fm_pvd (cb K p s) = fm_pvd s \<and> fm_disk (cb K p s) = fm_disk s \<and> fm_pte (cb K p s) = prot p (fm_pte s)"

text \<open>
  \<open>X\<close> are the locked pages that wait in the heap, \<open>B\<close> the batch and \<open>W\<close> the pages that have been written.
\<close>

definition wd_pages :: "fm \<Rightarrow> pid set \<Rightarrow> pid set \<Rightarrow> pid set \<Rightarrow> pages" where
  "wd_pages s0 X B W = (\<lambda>x. let t = pm_pages s0 x in
     if x \<in> B then clean_page (tp_set_locked True t)
     else if x \<in> W then unlock_tp (clean_page (tp_set_locked True t))
     else if x \<in> X then tp_set_locked True t else t)"

definition wd_state :: "kernel \<Rightarrow> nat \<Rightarrow> fm \<Rightarrow> (nat \<Rightarrow> pid list) \<Rightarrow> pid set \<Rightarrow> pid list \<Rightarrow> pid list \<Rightarrow> fm \<Rightarrow> bool" where
  "wd_state K d s0 rest X B W s \<longleftrightarrow> pm_pages s = wd_pages s0 X (set B) (set W) \<and> buf_inv K (dirty_pages s - X) s \<and> map_inv s \<and>
     (\<forall>v. pvd_rdx (fm_pvd s v) = pvd_rdx (fm_pvd s0 v) \<and> pvd_fixed (fm_pvd s v) = pvd_fixed (fm_pvd s0 v)) \<and>
     (\<forall>c<ncpus K. inorder (pvd_dirty_tree (fm_pvd s d) c) = rest c)"

lemma wd_stateD:
  assumes "wd_state K d s0 rest X B W s"
  shows "pm_pages s = wd_pages s0 X (set B) (set W)" "buf_inv K (dirty_pages s - X) s" "map_inv s"
    "pvd_rdx (fm_pvd s v) = pvd_rdx (fm_pvd s0 v)" "pvd_fixed (fm_pvd s v) = pvd_fixed (fm_pvd s0 v)"
    "c < ncpus K \<Longrightarrow> inorder (pvd_dirty_tree (fm_pvd s d) c) = rest c"
  using assms unfolding wd_state_def by blast+

lemma wd_pages_ids [simp]:
  "tp_in_use (wd_pages s0 X B W x) = tp_in_use (pm_pages s0 x)" "tp_index (wd_pages s0 X B W x) = tp_index (pm_pages s0 x)"
  "tp_pvd (wd_pages s0 X B W x) = tp_pvd (pm_pages s0 x)" "tp_rmap (wd_pages s0 X B W x) = tp_rmap (pm_pages s0 x)"
  "pg_data (tp_page (wd_pages s0 X B W x)) = pg_data (tp_page (pm_pages s0 x))"
  by (simp_all add: wd_pages_def Let_def tp_set_locked_data)

text \<open>Filling the heap from the tree of a CPU that has no front.\<close>

lemma refill_empty: "pvd_dirty_tree (fm_pvd s d) c = Leaf \<Longrightarrow> heap_refill K d c (mh, s) = Some (mh, s)"
  by (simp add: heap_refill_def)

lemma refill_step:
  assumes L: "rb_lib_ok (k_rb K)" and w: "wd_state K d s0 rest X B W s" and c: "c < ncpus K" and r: "rest c = p # ps"
    and p: "dirty_of d s0 p" "cpu_of_index K (p_index s0 p) = c" "p \<notin> X \<union> set B \<union> set W"
    and ins: "min_heap_insert mh c (p_index s0 p) p = Some mh'"
  shows "\<exists>s'. heap_refill K d c (mh, s) = Some (mh', s') \<and> wd_state K d s0 (rest(c := ps)) (insert p X) B W s' \<and> fm_disk s' = fm_disk s \<and>
    fm_pte s' = fm_pte s"
proof -
  note D = wd_stateD [OF w]
  let ?t = "pvd_dirty_tree (fm_pvd s d) c"
  have io: "inorder ?t = p # ps" using D(6) [OF c] r by simp
  then have tr: "?t \<noteq> Leaf" "rb_first (k_rb K) ?t = Some p" "p \<in> set_tree ?t" "inorder (rb_erase (k_rb K) p ?t) = ps"
    using L by (auto simp: rb_lib_ok_def simp flip: set_inorder)
  have pp: "pm_pages s p = pm_pages s0 p" using p(3) by (simp add: D(1) wd_pages_def)
  have lk: "trylock_tp (pm_pages s p) ULONG_MAX = (0, tp_set_locked True (pm_pages s p))"
    using p(1) by (simp add: pp trylock_any_cases dirty_of_def lockable_def)
  obtain s1 where s1: "s1 = upd_page p (\<lambda>_. tp_set_locked True (pm_pages s p)) s" by simp
  have pg1: "pm_pages s1 = (pm_pages s)(p := tp_set_locked True (pm_pages s p))" by (simp add: s1)
  have pvd1: "fm_pvd s1 = fm_pvd s" by (simp add: s1)
  have i1: "buf_inv K (dirty_pages s - X) s1" unfolding s1
    by (rule buf_inv_flags [OF D(2)]) (use p(1) in \<open>simp_all add: pp dirty_of_def lockable_def\<close>)
  have ix: "p_index s1 p = p_index s0 p" "tp_pvd (pm_pages s1 p) = Some d" using p(1) by (simp_all add: p_index_def pg1 pp dirty_of_def)
  have wf1: "dt_wf (pm_pages s1) ?t" using i1 by (auto simp: buf_inv_def tree_ok_def s1)
  note er = rb_erase_wf [OF L wf1 tr(3)]
  obtain s2 where s2: "s2 = upd_pvd d (\<lambda>v. v\<lparr>pvd_dirty_tree := (pvd_dirty_tree v)(c := rb_erase (k_rb K) p ?t)\<rparr>) s1" by simp
  have res: "heap_refill K d c (mh, s) = Some (mh', s2)"
    using tr(1,2) lk ins ix(1) by (simp add: heap_refill_def Let_def s2 flip: s1)
  have i2: "buf_inv K (dirty_pages s - X - {p}) s2" unfolding s2
    by (rule buf_inv_tree_erase [OF i1 ix(2) _ er(1)]) (use er(2) p(2) in \<open>simp_all add: ix(1) pvd1 set_dirty_tree_def\<close>)
  have pg2: "pm_pages s2 = wd_pages s0 (insert p X) (set B) (set W)"
    using p(3) by (auto simp: s2 pg1 D(1) wd_pages_def fun_eq_iff Let_def)
  have "dirty_pages s2 = dirty_pages s" using p(3) by (auto simp: dirty_pages_def pg2 D(1) wd_pages_def Let_def split: if_splits)
  then have "dirty_pages s2 - insert p X = dirty_pages s - X - {p}" by blast
  then have "buf_inv K (dirty_pages s2 - insert p X) s2" using i2 by simp
  moreover have "map_inv s1"
    by (rule map_inv_page [OF D(3) pg1]) (simp_all add: s1)
  then have "map_inv s2" by (simp add: s2 map_inv_def rmap_of_def rmap_key_def)
  moreover have "inorder (pvd_dirty_tree (fm_pvd s2 d) a) = (rest(c := ps)) a" if "a < ncpus K" for a
    using D(6) [OF that] tr(4) by (simp add: s2 s1)
  ultimately have "wd_state K d s0 (rest(c := ps)) (insert p X) B W s2" using pg2 D(4,5)
    by (simp add: wd_state_def s2 s1 pvd_fixed_def)
  then show ?thesis using res by (simp add: s2 s1)
qed

section \<open>The steps of the main loop\<close>

text \<open>A batch that has been written: its pages are unlocked and count as written.\<close>

lemma write_step:
  assumes w: "wd_state K d s0 rest X B W s" and dis: "distinct B" "set B \<inter> set W = {}"
    and B: "\<And>p. p \<in> set B \<Longrightarrow> tp_in_use (pm_pages s0 p) = 1" and bo: "batch_ok s0 d dev B"
    and s': "s' = write_and_unlock K d B s"
  shows "wd_state K d s0 rest X [] (W @ B) s' \<and> stored K dev B s (fm_disk s') \<and> fm_pte s' = fm_pte s"
proof -
  note D = wd_stateD [OF w]
  have ix: "page_index s = page_index s0" by (simp add: fun_eq_iff page_index_def D(1))
  have "batch_ok s d dev B" using bo D(5) [of d] by (simp add: batch_ok_def ix D(1) pvd_fixed_def)
  from evictor_write_spec [OF this, of K d] obtain x where x: "evictor_write K d B s = s\<lparr>fm_disk := x\<rparr>" "stored K dev B s x" by blast
  obtain s1 where s1: "s1 = s\<lparr>fm_disk := x\<rparr>" by simp
  have i1: "buf_inv K (dirty_pages s - X) s1" by (rule buf_inv_rest [OF D(2)]) (simp_all add: s1)
  have "\<forall>p\<in>set B. tp_in_use (pm_pages s1 p) = 1" using B by (simp add: s1 D(1))
  note u = unlock_list [OF i1 this dis(1)]
  have res: "s' = fold (\<lambda>p. upd_page p unlock_tp) B s1" using s' x(1) by (simp add: write_and_unlock_def s1)
  have st: "page_step (set B) unlock_tp s1 s'" and i2: "buf_inv K (dirty_pages s - X) s'" using u by (simp_all add: res)
  have pg: "pm_pages s' = wd_pages s0 X (set []) (set (W @ B))"
    using st dis(2) by (auto simp: page_step_def s1 D(1) wd_pages_def Let_def fun_eq_iff)
  have "dirty_pages s' = dirty_pages s" by (auto simp: dirty_pages_def pg D(1) wd_pages_def Let_def)
  moreover have "map_inv s1" using D(3) by (simp add: s1 map_inv_def rmap_of_def rmap_key_def)
  then have "map_inv s'" by (rule page_step_map_inv [OF _ st]) simp_all
  moreover have "fm_pvd s' = fm_pvd s" "fm_disk s' = x" "fm_pte s' = fm_pte s" using st by (simp_all add: page_step_def s1)
  ultimately show ?thesis using i2 pg x(2) w by (simp add: wd_state_def)
qed

context page_cleanup
begin

lemma cleanup_step:
  assumes walk: "walk_ok K" and w: "wd_state K d s0 rest X B W s"
    and p: "tp_buffer_id (pm_pages s0 p) = BI_DIRTY" "p \<in> X" "p \<notin> set B \<union> set W"
  shows "wd_state K d s0 rest (X - {p}) (B @ [p]) W (cb K p s) \<and> fm_disk (cb K p s) = fm_disk s \<and> fm_pte (cb K p s) = prot p (fm_pte s)"
proof -
  note D = wd_stateD [OF w]
  have b: "tp_buffer_id (pm_pages s p) = BI_DIRTY" using p by (simp add: D(1) wd_pages_def)
  note c = cb_clean [OF walk D(2,3) b]
  have pg: "pm_pages (cb K p s) = wd_pages s0 (X - {p}) (set (B @ [p])) (set W)"
    using c p(2,3) by (auto simp: D(1) wd_pages_def Let_def fun_eq_iff)
  have "dirty_pages (cb K p s) = dirty_pages s - {p}" using c by (auto simp: dirty_pages_def)
  then have "dirty_pages (cb K p s) - (X - {p}) = dirty_pages s - X" using p(2) by blast
  then show ?thesis using c pg D by (simp add: wd_state_def)
qed

end

lemma blkdev_release_ok:
  assumes "buf_inv K D s" and "map_inv s" and "tp_buffer_id (pm_pages s p) = BI_DIRTY"
  shows "buf_inv K D (blkdev_release_cb p s) \<and> map_inv (blkdev_release_cb p s) \<and>
    pm_pages (blkdev_release_cb p s) = (pm_pages s)(p := clean_page (pm_pages s p)) \<and> fm_pvd (blkdev_release_cb p s) = fm_pvd s \<and>
    fm_disk (blkdev_release_cb p s) = fm_disk s \<and> fm_pte (blkdev_release_cb p s) = fm_pte s"
proof -
  have m: "buf_inv K D (blkdev_release_cb p s)" "pm_pages (blkdev_release_cb p s) = (pm_pages s)(p := clean_page (pm_pages s p))"
    using move_page_d2c_spec [OF assms(1,3)] by (simp_all add: blkdev_release_cb_def clean_page_def)
  have "map_inv (blkdev_release_cb p s)"
    by (rule map_inv_page [OF assms(2) m(2)]) (simp_all add: blkdev_release_cb_def)
  then show ?thesis using m by (simp add: blkdev_release_cb_def)
qed

interpretation release: page_cleanup "\<lambda>K. blkdev_release_cb" "\<lambda>p m. m"
  using blkdev_release_ok by unfold_locales simp

interpretation fsync: page_cleanup blkdev_fsync_cb "\<lambda>p. protect_of {p}"
proof
  fix K D s p
  assume a: "walk_ok K" "buf_inv K D s" "map_inv s" "tp_buffer_id (pm_pages s p) = BI_DIRTY"
  have "length (tp_rmap (pm_pages s p)) = MAX_RMAPS_PER_PAGE"
    by (rule buf_inv_page(4) [OF a(2) buf_inv_in_use [OF a(2)]]) (simp add: a(4))
  moreover obtain et s1 where c: "clear_mappings K p (None, s) = (et, s1)" by fastforce
  ultimately obtain fl b where s1: "s1 = s\<lparr>fm_pte := protect_of {p} (fm_pte s), fm_flush := fl, fm_bug := b\<rparr>"
    using clear_list_effect [OF a(1,3), of "[p]" None et s1] by auto
  have "buf_inv K D s1" by (rule buf_inv_rest [OF a(2)]) (simp_all add: s1)
  moreover have "map_inv s1" by (rule map_inv_protect [OF a(3) s1])
  moreover have "tp_buffer_id (pm_pages s1 p) = BI_DIRTY" using a(4) by (simp add: s1)
  moreover have "blkdev_fsync_cb K p s = blkdev_release_cb p s1" by (simp add: blkdev_fsync_cb_def blkdev_release_cb_def c)
  ultimately show "buf_inv K D (blkdev_fsync_cb K p s) \<and> map_inv (blkdev_fsync_cb K p s) \<and>
      pm_pages (blkdev_fsync_cb K p s) = (pm_pages s)(p := clean_page (pm_pages s p)) \<and> fm_pvd (blkdev_fsync_cb K p s) = fm_pvd s \<and>
      fm_disk (blkdev_fsync_cb K p s) = fm_disk s \<and> fm_pte (blkdev_fsync_cb K p s) = protect_of {p} (fm_pte s)"
    using blkdev_release_ok [of K D s1 p] by (simp add: s1)
qed

section \<open>The merge loop\<close>

abbreviation idx_of :: "fm \<Rightarrow> pid \<Rightarrow> u64" where
  "idx_of \<equiv> p_index"

definition fronts :: "nat \<Rightarrow> (nat \<Rightarrow> pid option) \<Rightarrow> pid set" where
  "fronts N fr = {p. \<exists>c<N. fr c = Some p}"

definition remaining :: "nat \<Rightarrow> (nat \<Rightarrow> pid option) \<Rightarrow> (nat \<Rightarrow> pid list) \<Rightarrow> nat" where
  "remaining N fr rest = (\<Sum>c<N. length (queue fr rest c))"

text \<open>
  What is needed to write all dirty pages of an object: none of them is locked by another thread, the
  machine has at most as many CPUs as the heap has room for, and the numbers fit the device.
\<close>

definition wd_ready :: "kernel \<Rightarrow> nat \<Rightarrow> nat \<Rightarrow> fm \<Rightarrow> bool" where
  "wd_ready K d dev s \<longleftrightarrow> 0 < ncpus K \<and> ncpus K \<le> MAX_CPUS \<and> pvd_bk (fm_pvd s d) = Some dev \<and>
     (\<forall>p. tp_buffer_id (pm_pages s p) = BI_DIRTY \<longrightarrow> tp_pvd (pm_pages s p) = Some d \<longrightarrow> lockable s p \<and> p_index s p < 2 ^ 52)"

text \<open>No 257 dirty pages of the object have consecutive numbers, and the device completes its requests.\<close>

definition writes_fit :: "kernel \<Rightarrow> nat \<Rightarrow> fm \<Rightarrow> bool" where
  "writes_fit K d s \<longleftrightarrow> (\<forall>r. k_written K r = length (io_data r)) \<and>
     (\<forall>i. \<exists>k\<le>BIO_MAX_PAGES. \<forall>p. dirty_of d s p \<longrightarrow> p_index s p \<noteq> i + word_of_nat k)"

definition store_ok :: "kernel \<Rightarrow> nat \<Rightarrow> nat \<Rightarrow> pid set \<Rightarrow> fm \<Rightarrow> (nat \<Rightarrow> u64 \<Rightarrow> pdata) \<Rightarrow> bool" where
  "store_ok K d dev W s x \<longleftrightarrow>
     (\<forall>d' j. x d' j = fm_disk s d' j \<or> d' = dev \<and> (\<exists>q\<in>W. p_index s q = j \<and> x d' j = page_content s q)) \<and>
     (writes_fit K d s \<longrightarrow> (\<forall>q\<in>W. x dev (p_index s q) = page_content s q))"

definition wd_inv :: "kernel \<Rightarrow> nat \<Rightarrow> nat \<Rightarrow> fm \<Rightarrow> (nat \<Rightarrow> pid option) \<Rightarrow> (nat \<Rightarrow> pid list) \<Rightarrow> pid list \<Rightarrow> pid list \<Rightarrow> min_heap \<Rightarrow> fm \<Rightarrow> bool" where
  "wd_inv K d dev s0 fr rest W B mh s \<longleftrightarrow> mh_wf mh \<and> mh_mset mh = heap_of (idx_of s0) (ncpus K) fr \<and>
     merging (idx_of s0) (cpu_of_index K) (ncpus K) fr rest (W @ B) \<and>
     set (W @ B) \<union> (\<Union>c<ncpus K. set (queue fr rest c)) = {p. dirty_of d s0 p} \<and>
     wd_state K d s0 rest (fronts (ncpus K) fr) B W s \<and> store_ok K d dev (set W) s0 (fm_disk s)"

lemma merging_apart:
  assumes m: "merging idx cpu N fr rest log" and c: "c < N" "fr c = Some p" "rest c = x # xs"
  shows "x \<notin> set log" and "x \<notin> fronts N fr"
proof -
  have q: "cpu (idx y) = a" "\<forall>z\<in>set log. idx z < idx y" if "a < N" "y \<in> set (queue fr rest a)" for a y
    using m that unfolding merging_def by blast+
  have x: "x \<in> set (queue fr rest c)" using c(3) by (simp add: queue_def)
  show "x \<notin> set log" using q(2) [OF c(1) x] by blast
  have "idx p < idx x" using m c unfolding merging_def by (auto simp: queue_def)
  moreover have "a = c" if "a < N" "fr a = Some x" for a using q(1) [OF c(1) x] q(1) [OF that(1), of x] that(2) by (simp add: queue_def)
  ultimately show "x \<notin> fronts N fr" using c(2) by (auto simp: fronts_def)
qed

lemma remaining_take:
  assumes "c < N" and "fr c = Some p"
  shows "remaining N fr rest = Suc (remaining N (fr(c := (case rest c of [] \<Rightarrow> None | x # xs \<Rightarrow> Some x))) (rest(c := tl (rest c))))"
proof -
  let ?fr = "fr(c := (case rest c of [] \<Rightarrow> None | x # xs \<Rightarrow> Some x))" and ?rest = "rest(c := tl (rest c))"
  have "queue ?fr ?rest a = (if a = c then rest c else queue fr rest a)" for a by (cases "rest c") (auto simp: queue_def)
  then have "remaining N ?fr ?rest = (\<Sum>a\<in>{..<N}. length (if a = c then rest c else queue fr rest a))" by (simp add: remaining_def)
  also have "\<dots> = length (rest c) + (\<Sum>a\<in>{..<N} - {c}. length (queue fr rest a))"
    using assms(1) by (subst sum.remove [of _ c]) (auto intro!: sum.cong)
  finally have "Suc (remaining N ?fr ?rest) = length (queue fr rest c) + (\<Sum>a\<in>{..<N} - {c}. length (queue fr rest a))"
    using assms(2) by (simp add: queue_def)
  also have "\<dots> = remaining N fr rest" unfolding remaining_def using assms(1) by (subst (2) sum.remove [of _ c]) auto
  finally show ?thesis by simp
qed

lemma fronts_take:
  assumes "c < N" and "fr c = Some p" and "\<And>a. a < N \<Longrightarrow> fr a = Some p \<Longrightarrow> a = c"
  shows "fronts N (fr(c := None)) = fronts N fr - {p}" and "fronts N (fr(c := Some x)) = insert x (fronts N fr - {p})"
proof -
  have "(\<exists>a<N. (fr(c := None)) a = Some y) \<longleftrightarrow> (\<exists>a<N. fr a = Some y) \<and> y \<noteq> p" for y
  proof
    assume "\<exists>a<N. (fr(c := None)) a = Some y"
    then obtain a where a: "a < N" "a \<noteq> c" "fr a = Some y" by (auto split: if_splits)
    then show "(\<exists>a<N. fr a = Some y) \<and> y \<noteq> p" using assms(3) by blast
  next
    assume "(\<exists>a<N. fr a = Some y) \<and> y \<noteq> p"
    then obtain a where a: "a < N" "fr a = Some y" "y \<noteq> p" by blast
    then have "a \<noteq> c" using assms(2) by auto
    then show "\<exists>a<N. (fr(c := None)) a = Some y" using a by auto
  qed
  then show n: "fronts N (fr(c := None)) = fronts N fr - {p}" unfolding fronts_def by blast
  have "(\<exists>a<N. (fr(c := Some x)) a = Some y) \<longleftrightarrow> y = x \<or> (\<exists>a<N. (fr(c := None)) a = Some y)" for y
  proof
    assume "\<exists>a<N. (fr(c := Some x)) a = Some y"
    then obtain a where a: "a < N" "(fr(c := Some x)) a = Some y" by blast
    show "y = x \<or> (\<exists>a<N. (fr(c := None)) a = Some y)"
    proof (cases "a = c")
      case False
      then have "(fr(c := None)) a = Some y" using a(2) by simp
      then show ?thesis using a(1) by blast
    qed (use a(2) in simp)
  next
    assume "y = x \<or> (\<exists>a<N. (fr(c := None)) a = Some y)"
    then show "\<exists>a<N. (fr(c := Some x)) a = Some y"
    proof
      assume "y = x"
      then have "(fr(c := Some x)) c = Some y" by simp
      then show ?thesis using assms(1) by blast
    next
      assume "\<exists>a<N. (fr(c := None)) a = Some y"
      then obtain a where a: "a < N" "(fr(c := None)) a = Some y" by blast
      then have "(fr(c := Some x)) a = Some y" by (cases "a = c") simp_all
      then show ?thesis using a(1) by blast
    qed
  qed
  then have "fronts N (fr(c := Some x)) = insert x (fronts N (fr(c := None)))"
    by (intro set_eqI) (simp only: fronts_def mem_Collect_eq insert_iff)
  then show "fronts N (fr(c := Some x)) = insert x (fronts N fr - {p})" unfolding n .
qed

text \<open>Taking the least page out of the heap and refilling the heap from its tree.\<close>

lemma take_and_refill:
  assumes L: "rb_lib_ok (k_rb K)" and rd: "wd_ready K d dev s0" and inv: "wd_inv K d dev s0 fr rest W B mh s" and ne: "\<not> min_heap_is_empty mh"
  obtains hn mh1 mh2 s1 fr' rest' where "min_heap_delete_min mh = Some (hn, mh1)" "heap_refill K d (hn_cpu hn) (mh1, s) = Some (mh2, s1)"
    "dirty_of d s0 (hn_p hn)" "hn_p hn \<in> fronts (ncpus K) fr" "hn_p hn \<notin> set B \<union> set W" "Suc (remaining (ncpus K) fr' rest') = remaining (ncpus K) fr rest"
    "mh_wf mh2" "mh_mset mh2 = heap_of (idx_of s0) (ncpus K) fr'" "merging (idx_of s0) (cpu_of_index K) (ncpus K) fr' rest' (W @ B @ [hn_p hn])"
    "set (W @ B @ [hn_p hn]) \<union> (\<Union>c<ncpus K. set (queue fr' rest' c)) = {p. dirty_of d s0 p}"
    "\<exists>X. wd_state K d s0 rest' X B W s1 \<and> X - {hn_p hn} = fronts (ncpus K) fr' \<and> hn_p hn \<in> X" "fm_disk s1 = fm_disk s" "fm_pte s1 = fm_pte s"
proof -
  let ?N = "ncpus K" and ?i = "idx_of s0"
  have i: "mh_wf mh" "mh_mset mh = heap_of ?i ?N fr" "merging ?i (cpu_of_index K) ?N fr rest (W @ B)"
    "set (W @ B) \<union> (\<Union>c<?N. set (queue fr rest c)) = {p. dirty_of d s0 p}" "wd_state K d s0 rest (fronts ?N fr) B W s"
    using inv unfolding wd_inv_def by blast+
  obtain hn mh1 where dm: "min_heap_delete_min mh = Some (hn, mh1)" using ne by (auto simp: min_heap_delete_min_def min_heap_is_empty_def Let_def)
  obtain c p where hn: "c = hn_cpu hn" "p = hn_p hn" by simp
  have t: "c < ?N" "fr c = Some p" "mh_wf mh1" "mh_mset mh1 = heap_of ?i ?N (fr(c := None))"
    "\<And>a y. a < ?N \<Longrightarrow> fr a = Some y \<Longrightarrow> ?i p \<le> ?i y" using mh.pq_take_front [OF i(1,2) dm] by (auto simp: hn)
  obtain fr' where fr': "fr' = fr(c := (case rest c of [] \<Rightarrow> None | x # xs \<Rightarrow> Some x))" by simp
  obtain rest' where rest': "rest' = rest(c := tl (rest c))" by simp
  have m': "merging ?i (cpu_of_index K) ?N fr' rest' (W @ B @ [p])" using merging_take [OF i(3) t(1,2,5) fr' rest'] by simp
  have q': "queue fr' rest' a = (if a = c then rest c else queue fr rest a)" for a by (cases "rest c") (auto simp: queue_def fr' rest')
  have qc: "queue fr rest c = p # rest c" using t(2) by (simp add: queue_def)
  have "x = p \<or> x \<in> set (queue fr' rest' a)" if "x \<in> set (queue fr rest a)" for x a using that qc unfolding q' by (cases "a = c") auto
  moreover have "set (queue fr' rest' a) \<subseteq> set (queue fr rest a)" for a unfolding q' using qc by auto
  moreover have "p \<in> set (queue fr rest c)" using qc by simp
  ultimately have "(\<Union>a<?N. set (queue fr rest a)) = insert p (\<Union>a<?N. set (queue fr' rest' a))" using t(1) by blast
  then have D': "set (W @ B @ [p]) \<union> (\<Union>a<?N. set (queue fr' rest' a)) = {p. dirty_of d s0 p}" using i(4) by auto
  have mem: "p \<in> set (queue fr rest c)" using qc by simp
  have pn: "p \<notin> set (W @ B)" using i(3) t(1) mem unfolding merging_def by blast
  have cpu: "cpu_of_index K (?i y) = a" if "a < ?N" "y \<in> set (queue fr rest a)" for a y using i(3) that unfolding merging_def by blast
  have only: "a = c" if "a < ?N" "fr a = Some p" for a using cpu [OF that(1), of p] cpu [OF t(1) mem] that(2) by (simp add: queue_def)
  have left': "Suc (remaining ?N fr' rest') = remaining ?N fr rest" using remaining_take [of c "ncpus K" fr p rest] t(1,2) by (simp add: fr' rest')
  have pf: "p \<in> fronts ?N fr" using t(1,2) by (auto simp: fronts_def)
  have pd: "dirty_of d s0 p" using i(4) t(1) mem by blast
  have "\<exists>mh2 s1. heap_refill K d c (mh1, s) = Some (mh2, s1) \<and> mh_wf mh2 \<and> mh_mset mh2 = heap_of ?i ?N fr' \<and>
      (\<exists>X. wd_state K d s0 rest' X B W s1 \<and> X - {p} = fronts ?N fr' \<and> p \<in> X) \<and> fm_disk s1 = fm_disk s \<and> fm_pte s1 = fm_pte s"
  proof (cases "rest c")
    case Nil
    then have "pvd_dirty_tree (fm_pvd s d) c = Leaf" using wd_stateD(6) [OF i(5) t(1)] by (cases "pvd_dirty_tree (fm_pvd s d) c") auto
    moreover have "fronts ?N fr - {p} = fronts ?N fr'" using fronts_take(1) [where fr = fr, OF t(1,2) only] by (simp add: fr' Nil)
    moreover have "rest' = rest" using Nil by (auto simp: rest')
    ultimately show ?thesis using refill_empty t(3,4) i(5) pf Nil by (auto simp: fr')
  next
    case (Cons x xs)
    then have f: "fr' = (fr(c := None))(c := Some x)" and r: "rest' = rest(c := xs)" by (simp_all add: fr' rest')
    have N: "?N \<le> MAX_CPUS" using rd by (simp add: wd_ready_def)
    have "(fr(c := None)) c = None" by simp
    from mh.pq_add_front [OF t(3,4) this t(1) N, of x] obtain mh2 where mh2: "min_heap_insert mh1 c (?i x) x = Some mh2" "mh_wf mh2"
      "mh_mset mh2 = heap_of ?i ?N fr'" unfolding f by blast
    have xq: "x \<in> set (queue fr rest c)" using qc Cons by simp
    have xd: "dirty_of d s0 x" using i(4) t(1) xq by blast
    have "x \<notin> fronts ?N fr \<union> set B \<union> set W" using merging_apart [OF i(3) t(1,2) Cons] by auto
    from refill_step [OF L i(5) t(1) Cons xd cpu [OF t(1) xq] this mh2(1)] obtain s1
      where s1: "heap_refill K d c (mh1, s) = Some (mh2, s1)" "wd_state K d s0 rest' (insert x (fronts ?N fr)) B W s1"
        "fm_disk s1 = fm_disk s" "fm_pte s1 = fm_pte s" unfolding r by blast
    have "x \<noteq> p" using merging_apart(2) [OF i(3) t(1,2) Cons] pf by blast
    then have "insert x (fronts ?N fr) - {p} = fronts ?N fr'"
      using fronts_take(2) [where fr = fr, OF t(1,2) only, of x] by (auto simp: fr' Cons)
    then show ?thesis using s1 mh2(2,3) pf by blast
  qed
  then obtain mh2 s1 where "heap_refill K d c (mh1, s) = Some (mh2, s1)" "mh_wf mh2" "mh_mset mh2 = heap_of ?i ?N fr'"
      "\<exists>X. wd_state K d s0 rest' X B W s1 \<and> X - {p} = fronts ?N fr' \<and> p \<in> X" "fm_disk s1 = fm_disk s" "fm_pte s1 = fm_pte s" by blast
  then show ?thesis using that [OF dm, of mh2 s1 fr' rest'] m' D' pn left' pf pd by (simp add: hn Un_commute)
qed

section \<open>The loop writes all pages\<close>

lemma stored_store_ok:
  assumes "store_ok K d dev (set W) s0 (fm_disk s)" and "stored K dev B s x"
    and same: "\<And>p. p_index s p = p_index s0 p" "\<And>p. page_content s p = page_content s0 p"
    and dis: "distinct (map (p_index s0) (W @ B))" and B: "\<forall>p\<in>set B. dirty_of d s0 p"
  shows "store_ok K d dev (set (W @ B)) s0 x"
proof -
  have o: "\<forall>d' j. fm_disk s d' j = fm_disk s0 d' j \<or> d' = dev \<and> (\<exists>q\<in>set W. p_index s0 q = j \<and> fm_disk s d' j = page_content s0 q)"
    and ow: "writes_fit K d s0 \<Longrightarrow> \<forall>q\<in>set W. fm_disk s dev (p_index s0 q) = page_content s0 q" using assms(1) unfolding store_ok_def by blast+
  have n: "\<forall>d' j. x d' j = fm_disk s d' j \<or> d' = dev \<and> (\<exists>q\<in>set B. p_index s0 q = j \<and> x d' j = page_content s0 q)"
    and nw: "no_long_run s B \<Longrightarrow> \<forall>r. k_written K r = length (io_data r) \<Longrightarrow> \<forall>q\<in>set B. x dev (p_index s0 q) = page_content s0 q"
    using assms(2) unfolding stored_def same by blast+
  have "x d' j = fm_disk s0 d' j \<or> d' = dev \<and> (\<exists>q\<in>set (W @ B). p_index s0 q = j \<and> x d' j = page_content s0 q)" for d' j
    using o [rule_format, of d' j] n [rule_format, of d' j] by auto
  moreover have "x dev (p_index s0 q) = page_content s0 q" if fit: "writes_fit K d s0" and q: "q \<in> set (W @ B)" for q
  proof (cases "q \<in> set B")
    case True
    have "\<not> consec s B i (BIO_MAX_PAGES + 1)" if i: "i + BIO_MAX_PAGES < length B" for i
    proof
      assume c: "consec s B i (BIO_MAX_PAGES + 1)"
      from fit obtain k where k: "k \<le> BIO_MAX_PAGES" "\<And>p. dirty_of d s0 p \<Longrightarrow> p_index s0 p \<noteq> page_index s (B ! i) + word_of_nat k"
        unfolding writes_fit_def by blast
      have "page_index s (B ! (i + k)) = page_index s (B ! i) + word_of_nat k" using c k(1) by (simp add: consec_def)
      moreover have "dirty_of d s0 (B ! (i + k))" using B k(1) i by simp
      ultimately show False using k(2) by (simp add: page_index_p_index same)
    qed
    then have "no_long_run s B" by (simp add: no_long_run_def)
    then show ?thesis using nw fit True by (simp add: writes_fit_def)
  next
    case False
    then have qW: "q \<in> set W" using q by simp
    moreover have "p_index s0 q' \<noteq> p_index s0 q" if "q' \<in> set B" for q' using dis qW that by (auto simp: image_iff)
    ultimately show ?thesis using n [rule_format, of dev "p_index s0 q"] ow [OF fit] by auto
  qed
  ultimately show ?thesis unfolding store_ok_def by blast
qed

lemma write_inv:
  assumes inv: "wd_inv K d dev s0 fr rest W B mh s" and rd: "wd_ready K d dev s0" and len: "length B \<le> WRITE_BATCH"
    and s': "s' = write_and_unlock K d B s"
  shows "wd_inv K d dev s0 fr rest (W @ B) [] mh s' \<and> fm_pte s' = fm_pte s"
proof -
  have i: "merging (idx_of s0) (cpu_of_index K) (ncpus K) fr rest (W @ B)"
    "set (W @ B) \<union> (\<Union>c<ncpus K. set (queue fr rest c)) = {p. dirty_of d s0 p}" "wd_state K d s0 rest (fronts (ncpus K) fr) B W s"
    "store_ok K d dev (set W) s0 (fm_disk s)"
    using inv unfolding wd_inv_def by blast+
  have dis: "distinct (map (p_index s0) (W @ B))" using i(1) strict_sorted_iff unfolding merging_def by blast
  then have db: "distinct B" "set B \<inter> set W = {}" using distinct_map [of "p_index s0" "W @ B"] by auto
  have B: "\<forall>p\<in>set B. dirty_of d s0 p" using i(2) by auto
  have "length B < 2 ^ 31" by (rule le_less_trans [OF len]) (simp add: WRITE_BATCH_def)
  then have "batch_ok s0 d dev B" using rd B dis by (auto simp: batch_ok_def wd_ready_def dirty_of_def page_index_p_index)
  from write_step [OF i(3) db _ this s'] B have w: "wd_state K d s0 rest (fronts (ncpus K) fr) [] (W @ B) s'" "stored K dev B s (fm_disk s')"
    "fm_pte s' = fm_pte s" by (auto simp: dirty_of_def lockable_def)
  note pg = wd_stateD(1) [OF i(3)]
  have "store_ok K d dev (set (W @ B)) s0 (fm_disk s')"
    by (rule stored_store_ok [OF i(4) w(2) _ _ dis B]) (simp_all add: p_index_def page_content_def pg)
  then show ?thesis using inv w unfolding wd_inv_def by simp
qed

lemma remaining_0: "remaining N fr rest = 0 \<longleftrightarrow> (\<forall>c<N. queue fr rest c = [])"
  by (auto simp: remaining_def)

context page_cleanup
begin

lemma loop_step:
  assumes L: "rb_lib_ok (k_rb K)" and walk: "walk_ok K" and rd: "wd_ready K d dev s0" and inv: "wd_inv K d dev s0 fr rest W B mh s"
    and pte: "fm_pte s = fold prot (W @ B) (fm_pte s0)" and ne: "\<not> min_heap_is_empty mh"
  obtains hn mh1 mh2 s1 fr' rest' where "min_heap_delete_min mh = Some (hn, mh1)" "heap_refill K d (hn_cpu hn) (mh1, s) = Some (mh2, s1)"
    "Suc (remaining (ncpus K) fr' rest') = remaining (ncpus K) fr rest" "wd_inv K d dev s0 fr' rest' W (B @ [hn_p hn]) mh2 (cb K (hn_p hn) s1)"
    "fm_pte (cb K (hn_p hn) s1) = fold prot (W @ B @ [hn_p hn]) (fm_pte s0)"
proof -
  obtain hn mh1 mh2 s1 fr' rest' where t: "min_heap_delete_min mh = Some (hn, mh1)" "heap_refill K d (hn_cpu hn) (mh1, s) = Some (mh2, s1)"
    "dirty_of d s0 (hn_p hn)" "hn_p hn \<in> fronts (ncpus K) fr" "hn_p hn \<notin> set B \<union> set W" "Suc (remaining (ncpus K) fr' rest') = remaining (ncpus K) fr rest"
    "mh_wf mh2" "mh_mset mh2 = heap_of (idx_of s0) (ncpus K) fr'" "merging (idx_of s0) (cpu_of_index K) (ncpus K) fr' rest' (W @ B @ [hn_p hn])"
    "set (W @ B @ [hn_p hn]) \<union> (\<Union>c<ncpus K. set (queue fr' rest' c)) = {p. dirty_of d s0 p}"
    "\<exists>X. wd_state K d s0 rest' X B W s1 \<and> X - {hn_p hn} = fronts (ncpus K) fr' \<and> hn_p hn \<in> X" "fm_disk s1 = fm_disk s" "fm_pte s1 = fm_pte s"
    using take_and_refill [OF L rd inv ne] .
  from t(11) obtain X where X: "wd_state K d s0 rest' X B W s1" "X - {hn_p hn} = fronts (ncpus K) fr'" "hn_p hn \<in> X" by blast
  have b: "tp_buffer_id (pm_pages s0 (hn_p hn)) = BI_DIRTY" using t(3) by (simp add: dirty_of_def)
  note c = cleanup_step [OF walk X(1) b X(3) t(5), unfolded X(2)]
  have "wd_inv K d dev s0 fr' rest' W (B @ [hn_p hn]) mh2 (cb K (hn_p hn) s1)"
    using inv t(7-10,12) c unfolding wd_inv_def by simp
  then show ?thesis using that [OF t(1,2,6)] c t(13) pte by simp
qed

lemma loop_spec:
  assumes L: "rb_lib_ok (k_rb K)" and walk: "walk_ok K" and rd: "wd_ready K d dev s0"
  shows "wd_inv K d dev s0 fr rest W B mh s \<Longrightarrow> length B < WRITE_BATCH \<Longrightarrow> remaining (ncpus K) fr rest < n \<Longrightarrow>
    fm_pte s = fold prot (W @ B) (fm_pte s0) \<Longrightarrow>
    \<exists>W' B' mh' s' fr' rest'. write_dirty_loop K d (Some (cb K)) n (W @ B, B) mh s = Some ((W' @ B', B'), s') \<and>
      wd_inv K d dev s0 fr' rest' W' B' mh' s' \<and> remaining (ncpus K) fr' rest' = 0 \<and> length B' < WRITE_BATCH \<and>
      fm_pte s' = fold prot (W' @ B') (fm_pte s0)"
proof (induction n arbitrary: fr rest W B mh s)
  case (Suc n)
  show ?case
  proof (cases "min_heap_is_empty mh")
    case True
    have i: "mh_wf mh" "mh_mset mh = heap_of (idx_of s0) (ncpus K) fr" "merging (idx_of s0) (cpu_of_index K) (ncpus K) fr rest (W @ B)"
      using Suc.prems(1) unfolding wd_inv_def by blast+
    then have "heap_of (idx_of s0) (ncpus K) fr = {#}" using True mh_mset_size [OF i(1)] by (simp add: min_heap_is_empty_def)
    then have "remaining (ncpus K) fr rest = 0"
      using i(3) by (auto simp: heap_of_empty remaining_0 merging_def queue_def)
    moreover have "write_dirty_loop K d (Some (cb K)) (Suc n) (W @ B, B) mh s = Some ((W @ B, B), s)" using True by simp
    ultimately show ?thesis using Suc.prems(1,2,4) by blast
  next
    case False
    from loop_step [OF L walk rd Suc.prems(1,4) False] obtain hn mh1 mh2 s1 fr' rest'
      where t: "min_heap_delete_min mh = Some (hn, mh1)" "heap_refill K d (hn_cpu hn) (mh1, s) = Some (mh2, s1)"
        "Suc (remaining (ncpus K) fr' rest') = remaining (ncpus K) fr rest" "wd_inv K d dev s0 fr' rest' W (B @ [hn_p hn]) mh2 (cb K (hn_p hn) s1)"
        "fm_pte (cb K (hn_p hn) s1) = fold prot (W @ B @ [hn_p hn]) (fm_pte s0)" .
    let ?B = "B @ [hn_p hn]"
    have n: "remaining (ncpus K) fr' rest' < n" using t(3) Suc.prems(3) by linarith
    show ?thesis
    proof (cases "length ?B = WRITE_BATCH")
      case True
      obtain s2 where s2: "s2 = write_and_unlock K d ?B (cb K (hn_p hn) s1)" by simp
      have w: "wd_inv K d dev s0 fr' rest' (W @ ?B) [] mh2 s2" "fm_pte s2 = fold prot ((W @ ?B) @ []) (fm_pte s0)"
        using write_inv [OF t(4) rd _ s2] True t(5) by simp_all
      have len: "length ([] :: pid list) < WRITE_BATCH" by (simp add: WRITE_BATCH_def)
      have eq: "write_dirty_loop K d (Some (cb K)) (Suc n) (W @ B, B) mh s = write_dirty_loop K d (Some (cb K)) n ((W @ ?B) @ [], []) mh2 s2"
        using False t(1,2) True by (simp add: s2)
      show ?thesis unfolding eq by (rule Suc.IH [OF w(1) len n w(2)])
    next
      case False
      then have len: "length ?B < WRITE_BATCH" using Suc.prems(2) by simp
      have eq: "write_dirty_loop K d (Some (cb K)) (Suc n) (W @ B, B) mh s = write_dirty_loop K d (Some (cb K)) n (W @ ?B, ?B) mh2 (cb K (hn_p hn) s1)"
        using \<open>\<not> min_heap_is_empty mh\<close> t(1,2) False by simp
      show ?thesis unfolding eq by (rule Suc.IH [OF t(4) len n t(5)])
    qed
  qed
qed simp

end

section \<open>Filling the heap\<close>

definition dtree :: "fm \<Rightarrow> nat \<Rightarrow> nat \<Rightarrow> pid list" where
  "dtree s d c = inorder (pvd_dirty_tree (fm_pvd s d) c)"

definition fr_upto :: "fm \<Rightarrow> nat \<Rightarrow> nat \<Rightarrow> nat \<Rightarrow> pid option" where
  "fr_upto s d k = (\<lambda>c. if c < k then (case dtree s d c of [] \<Rightarrow> None | x # xs \<Rightarrow> Some x) else None)"

definition rest_upto :: "fm \<Rightarrow> nat \<Rightarrow> nat \<Rightarrow> nat \<Rightarrow> pid list" where
  "rest_upto s d k = (\<lambda>c. if c < k then tl (dtree s d c) else dtree s d c)"

lemma dtree_set:
  assumes "fm_inv K s" and "wd_ready K d dev s"
  shows "p \<in> set (dtree s d c) \<longleftrightarrow> dirty_of d s p \<and> cpu_of_index K (p_index s p) = c" and "sorted_wrt (<) (map (p_index s) (dtree s d c))"
proof -
  have "dt_wf (pm_pages s) (pvd_dirty_tree (fm_pvd s d) c) \<and> set_tree (pvd_dirty_tree (fm_pvd s d) c) =
      {p\<in>dirty_pages s. tp_pvd (pm_pages s p) = Some d \<and> cpu_of_index K (p_index s p) = c}"
    using assms(1) by (auto simp: fm_inv_def buf_wf_def buf_inv_def tree_ok_def)
  then show "p \<in> set (dtree s d c) \<longleftrightarrow> dirty_of d s p \<and> cpu_of_index K (p_index s p) = c" "sorted_wrt (<) (map (p_index s) (dtree s d c))"
    using assms(2) by (auto simp: dtree_def dirty_pages_def dirty_of_def wd_ready_def dt_wf_def p_index_def [abs_def])
qed

lemma fill_upto:
  assumes L: "rb_lib_ok (k_rb K)" and inv: "fm_inv K s0" and rd: "wd_ready K d dev s0" and "k \<le> ncpus K"
  shows "\<exists>mh s. fold (\<lambda>cpu r. case r of None \<Rightarrow> None | Some ms \<Rightarrow> heap_refill K d cpu ms) [0..<k] (Some (min_heap_create, s0)) = Some (mh, s) \<and>
    mh_wf mh \<and> mh_mset mh = heap_of (idx_of s0) (ncpus K) (fr_upto s0 d k) \<and>
    wd_state K d s0 (rest_upto s0 d k) (fronts (ncpus K) (fr_upto s0 d k)) [] [] s \<and> fm_disk s = fm_disk s0 \<and> fm_pte s = fm_pte s0"
  using assms(4)
proof (induction k)
  case 0
  have "buf_inv K (dirty_pages s0) s0" "map_inv s0" using inv by (simp_all add: fm_inv_def buf_wf_def)
  then show ?case using mh_wf_create
    by (simp add: fr_upto_def rest_upto_def fronts_def heap_of_def mh_mset_def min_heap_create_def wd_state_def wd_pages_def dtree_def)
next
  case (Suc k)
  let ?N = "ncpus K" and ?i = "idx_of s0" and ?fr = "fr_upto s0 d k" and ?rest = "rest_upto s0 d k"
  from Suc obtain mh s where IH: "fold (\<lambda>cpu r. case r of None \<Rightarrow> None | Some ms \<Rightarrow> heap_refill K d cpu ms) [0..<k] (Some (min_heap_create, s0)) = Some (mh, s)"
    "mh_wf mh" "mh_mset mh = heap_of ?i ?N ?fr" "wd_state K d s0 ?rest (fronts ?N ?fr) [] [] s" "fm_disk s = fm_disk s0" "fm_pte s = fm_pte s0" by auto
  have k: "k < ?N" "?fr k = None" "?rest k = dtree s0 d k" using Suc.prems by (simp_all add: fr_upto_def rest_upto_def)
  have fold: "fold (\<lambda>cpu r. case r of None \<Rightarrow> None | Some ms \<Rightarrow> heap_refill K d cpu ms) [0..<Suc k] (Some (min_heap_create, s0)) = heap_refill K d k (mh, s)"
    using IH(1) by simp
  show ?case unfolding fold
  proof (cases "dtree s0 d k")
    case Nil
    then have "pvd_dirty_tree (fm_pvd s d) k = Leaf" using wd_stateD(6) [OF IH(4) k(1)] k(3) by (cases "pvd_dirty_tree (fm_pvd s d) k") auto
    moreover have "fr_upto s0 d (Suc k) = ?fr" "rest_upto s0 d (Suc k) = ?rest"
      using Nil by (auto simp: fr_upto_def rest_upto_def fun_eq_iff less_Suc_eq)
    ultimately show "\<exists>mh' s'. heap_refill K d k (mh, s) = Some (mh', s') \<and> mh_wf mh' \<and> mh_mset mh' = heap_of ?i ?N (fr_upto s0 d (Suc k)) \<and>
        wd_state K d s0 (rest_upto s0 d (Suc k)) (fronts ?N (fr_upto s0 d (Suc k))) [] [] s' \<and> fm_disk s' = fm_disk s0 \<and> fm_pte s' = fm_pte s0"
      using refill_empty IH by simp
  next
    case (Cons x xs)
    have f: "fr_upto s0 d (Suc k) = ?fr(k := Some x)" and r: "rest_upto s0 d (Suc k) = ?rest(k := xs)"
      using Cons by (auto simp: fr_upto_def rest_upto_def fun_eq_iff less_Suc_eq)
    have N: "?N \<le> MAX_CPUS" using rd by (simp add: wd_ready_def)
    from mh.pq_add_front [OF IH(2,3) k(2,1) N, of x] obtain mh' where mh': "min_heap_insert mh k (?i x) x = Some mh'" "mh_wf mh'"
      "mh_mset mh' = heap_of ?i ?N (fr_upto s0 d (Suc k))" unfolding f by blast
    have x: "dirty_of d s0 x" "cpu_of_index K (p_index s0 x) = k" using dtree_set(1) [OF inv rd, of x k] Cons by simp_all
    have "a = k" if fx: "?fr a = Some x" for a
      using fx dtree_set(1) [OF inv rd, of x a] x(2) by (auto simp: fr_upto_def split: if_splits list.splits)
    then have "?fr a \<noteq> Some x" for a using k(2) by (metis option.distinct(1))
    then have notin: "x \<notin> fronts ?N ?fr \<union> set [] \<union> set []" by (simp add: fronts_def)
    have "fronts ?N (?fr(k := Some x)) = insert x (fronts ?N ?fr)"
      using k(1,2) unfolding fronts_def by (auto split: if_splits) (metis option.distinct(1))
    then show "\<exists>mh' s'. heap_refill K d k (mh, s) = Some (mh', s') \<and> mh_wf mh' \<and> mh_mset mh' = heap_of ?i ?N (fr_upto s0 d (Suc k)) \<and>
        wd_state K d s0 (rest_upto s0 d (Suc k)) (fronts ?N (fr_upto s0 d (Suc k))) [] [] s' \<and> fm_disk s' = fm_disk s0 \<and> fm_pte s' = fm_pte s0"
      using refill_step [OF L IH(4) k(1) _ x notin mh'(1), of xs] k(3) Cons IH(5,6) mh'(2,3) unfolding f r by auto
  qed
qed

lemma heap_fill_spec:
  assumes L: "rb_lib_ok (k_rb K)" and inv: "fm_inv K s0" and rd: "wd_ready K d dev s0"
  obtains mh s fr rest where "heap_fill K d s0 = Some (mh, s)" "wd_inv K d dev s0 fr rest [] [] mh s" "fm_pte s = fm_pte s0"
    "remaining (ncpus K) fr rest = heap_size mh + tree_nodes K d s"
proof -
  let ?N = "ncpus K" and ?fr = "fr_upto s0 d (ncpus K)" and ?rest = "rest_upto s0 d (ncpus K)"
  from fill_upto [OF L inv rd order_refl] obtain mh s where f: "heap_fill K d s0 = Some (mh, s)" "mh_wf mh" "mh_mset mh = heap_of (idx_of s0) ?N ?fr"
    "wd_state K d s0 ?rest (fronts ?N ?fr) [] [] s" "fm_disk s = fm_disk s0" "fm_pte s = fm_pte s0" unfolding heap_fill_def by blast
  have q: "queue ?fr ?rest c = dtree s0 d c" if "c < ?N" for c using that by (cases "dtree s0 d c") (simp_all add: queue_def fr_upto_def rest_upto_def)
  have "?rest c = []" if "c < ?N" "?fr c = None" for c using that by (cases "dtree s0 d c") (simp_all add: fr_upto_def rest_upto_def)
  then have m: "merging (idx_of s0) (cpu_of_index K) ?N ?fr ?rest ([] @ [])"
    unfolding merging_def using q dtree_set [OF inv rd] by simp
  have "cpu_of_index K i < ?N" for i using rd by (simp add: cpu_of_index_def wd_ready_def)
  then have "(\<Union>c<?N. set (queue ?fr ?rest c)) = {p. dirty_of d s0 p}" using q dtree_set(1) [OF inv rd] by auto
  then have wd: "wd_inv K d dev s0 ?fr ?rest [] [] mh s" unfolding wd_inv_def using f(2-5) m by (simp add: store_ok_def)
  have "length (queue ?fr ?rest c) = (if ?fr c = None then 0 else 1) + size (pvd_dirty_tree (fm_pvd s d) c)" if "c < ?N" for c
    using wd_stateD(6) [OF f(4) that] by (auto simp: queue_def simp flip: length_inorder split: option.splits)
  then have "remaining ?N ?fr ?rest = (\<Sum>c<?N. (if ?fr c = None then 0 else 1) + size (pvd_dirty_tree (fm_pvd s d) c))" by (simp add: remaining_def)
  also have "\<dots> = card {c. c < ?N \<and> ?fr c \<noteq> None} + tree_nodes K d s"
    by (simp add: sum.distrib tree_nodes_def sum_list_distinct_conv_sum_set sum.If_cases lessThan_atLeast0 Int_def conj_commute)
  also have "card {c. c < ?N \<and> ?fr c \<noteq> None} = heap_size mh" using mh_mset_size [OF f(2)] f(3) by (simp add: size_heap_of)
  finally show ?thesis using that [OF f(1) wd f(6)] by simp
qed

section \<open>Writing all dirty pages of an object\<close>

context page_cleanup
begin

lemma write_dirty_full:
  assumes L: "rb_lib_ok (k_rb K)" and walk: "walk_ok K" and inv: "fm_inv K s0" and rd: "wd_ready K d dev s0"
  obtains log s' where "write_dirty_pages K d (Some (cb K)) s0 = Some (log, s')" "fm_inv K s'" "sorted_wrt (<) (map (p_index s0) log)"
    "set log = {p. dirty_of d s0 p}" "pm_pages s' = wd_pages s0 {} {} (set log)" "store_ok K d dev (set log) s0 (fm_disk s')"
    "fm_pte s' = fold prot log (fm_pte s0)" "\<And>v. pvd_rdx (fm_pvd s' v) = pvd_rdx (fm_pvd s0 v)" "\<And>v. pvd_fixed (fm_pvd s' v) = pvd_fixed (fm_pvd s0 v)"
proof -
  obtain mh s fr rest where f: "heap_fill K d s0 = Some (mh, s)" "wd_inv K d dev s0 fr rest [] [] mh s" "fm_pte s = fm_pte s0"
    "remaining (ncpus K) fr rest = heap_size mh + tree_nodes K d s" using heap_fill_spec [OF L inv rd] .
  let ?n = "Suc (heap_size mh + tree_nodes K d s)"
  have len: "length ([] :: pid list) < WRITE_BATCH" by (simp add: WRITE_BATCH_def)
  have lt: "remaining (ncpus K) fr rest < ?n" using f(4) by simp
  have pte0: "fm_pte s = fold prot ([] @ []) (fm_pte s0)" using f(3) by simp
  from loop_spec [OF L walk rd f(2) len lt pte0] obtain W B mh' s1 fr' rest'
    where l: "write_dirty_loop K d (Some (cb K)) ?n ([] @ [], []) mh s = Some ((W @ B, B), s1)" "wd_inv K d dev s0 fr' rest' W B mh' s1"
      "remaining (ncpus K) fr' rest' = 0" "length B < WRITE_BATCH" "fm_pte s1 = fold prot (W @ B) (fm_pte s0)" by blast
  obtain s' where s': "s' = (if length B > 0 then write_and_unlock K d B s1 else s1)" by simp
  have res: "write_dirty_pages K d (Some (cb K)) s0 = Some (W @ B, s')" using f(1) l(1) by (simp add: write_dirty_pages_def s')
  have w: "wd_inv K d dev s0 fr' rest' (W @ B) [] mh' s'" "fm_pte s' = fm_pte s1"
    using write_inv [OF l(2) rd _ refl] l(2,4) by (cases "B = []"; simp add: s')+
  have emp: "queue fr' rest' c = []" if "c < ncpus K" for c using l(3) that by (simp add: remaining_0)
  have "fr' c = None" if "c < ncpus K" for c using emp [OF that] by (cases "fr' c") (simp_all add: queue_def)
  then have fr: "fronts (ncpus K) fr' = {}" by (auto simp: fronts_def)
  have W: "set (W @ B) = {p. dirty_of d s0 p}" and srt: "sorted_wrt (<) (map (p_index s0) (W @ B))" and st: "wd_state K d s0 rest' {} [] (W @ B) s'"
    and disk: "store_ok K d dev (set (W @ B)) s0 (fm_disk s')" using w(1) emp unfolding wd_inv_def fr merging_def by auto
  note D = wd_stateD [OF st]
  have "settled (pm_pages s' p) \<or> locked_tp (pm_pages s' p)" if "tp_in_use (pm_pages s' p) = 1" for p
  proof -
    have "settled (pm_pages s0 p) \<or> locked_tp (pm_pages s0 p)" using inv that by (simp add: fm_inv_def flags_ok_def D(1))
    moreover have "\<not> locked_tp (pm_pages s0 p)" if "p \<in> set (W @ B)" using W that by (auto simp: dirty_of_def lockable_def)
    ultimately show ?thesis by (auto simp: D(1) wd_pages_def Let_def settled_def tp_set_defs)
  qed
  then have "fm_inv K s'" using D(2,3) by (simp add: fm_inv_def buf_wf_def flags_ok_def)
  then show ?thesis using that [OF res _ srt W _ disk] D(1,4,5) w(2) l(5) by simp
qed

lemma write_dirty_spec:
  assumes "rb_lib_ok (k_rb K)" and "walk_ok K" and "fm_inv K s0" and "wd_ready K d dev s0"
  obtains log s' where "write_dirty_pages K d (Some (cb K)) s0 = Some (log, s')" "fm_inv K s'" "sorted_wrt (<) (map (p_index s0) log)"
    "set log = {p. dirty_of d s0 p}" "pm_pages s' = wd_pages s0 {} {} (set log)" "store_ok K d dev (set log) s0 (fm_disk s')"
    "fm_pte s' = fold prot log (fm_pte s0)"
  by (rule write_dirty_full [OF assms]) (rule that)

end

lemma fold_protect: "fold (\<lambda>p. protect_of {p}) ps m = protect_of (set ps) m"
proof (induction ps arbitrary: m)
  case Nil
  show ?case by (auto simp: protect_of_def fun_eq_iff split: option.splits)
qed (simp add: protect_of_trans)


text \<open>
  C14. The merge of the per-CPU trees is equivalent to sorting: the pages are handed over in the order of the
  sorted list of the numbers of all dirty pages of the object, each exactly once.
\<close>

theorem write_dirty_pages_sorted:
  assumes "rb_lib_ok (k_rb K)" and "walk_ok K" and "fm_inv K s" and "wd_ready K d dev s"
  shows "\<exists>log s'. write_dirty_pages K d (Some blkdev_release_cb) s = Some (log, s') \<and> distinct log \<and> set log = {p. dirty_of d s p} \<and>
    map (p_index s) log = sorted_list_of_set (p_index s ` {p. dirty_of d s p})"
proof -
  obtain log s' where w: "write_dirty_pages K d (Some blkdev_release_cb) s = Some (log, s')" "fm_inv K s'"
    "sorted_wrt (<) (map (p_index s) log)" "set log = {p. dirty_of d s p}" "pm_pages s' = wd_pages s {} {} (set log)"
    "store_ok K d dev (set log) s (fm_disk s')" "fm_pte s' = fold (\<lambda>p m. m) log (fm_pte s)"
    using release.write_dirty_spec [OF assms] .
  have "sorted (map (p_index s) log)" "distinct (map (p_index s) log)" using w(3) strict_sorted_iff by blast+
  moreover from this have "sorted_list_of_set (set (map (p_index s) log)) = map (p_index s) log"
    using sorted_list_of_set.idem_if_sorted_distinct by blast
  ultimately show ?thesis using w(1,4) by (auto simp: distinct_map)
qed

section \<open>The example\<close>

lemma evict_example_ready: "wd_ready kernel_example 0 0 evict_example"
proof -
  have "p = 3" if "tp_buffer_id (pm_pages evict_example p) = BI_DIRTY" for p
  proof (rule ccontr)
    assume "p \<noteq> 3"
    then have "pm_pages evict_example p = pm_pages buf_example p"
      using writable_inv [OF kernel_example_ok(2) buf_example_inv buf_example_clean(2,1) refl] by (simp add: evict_example_def)
    with that \<open>p \<noteq> 3\<close> show False by (simp add: buf_example_simps)
  qed
  then show ?thesis using evict_example_rest(3,4,6) by (auto simp: wd_ready_def kernel_example_topo(3) MAX_CPUS_def)
qed

lemma writes_fit_pages: "pm_pages s' = pm_pages s \<Longrightarrow> writes_fit K d s' = writes_fit K d s"
  by (simp add: writes_fit_def dirty_of_def lockable_def p_index_def)

lemma evict_example_fit: "writes_fit kernel_example 0 evict_example"
proof -
  have "\<exists>k\<le>BIO_MAX_PAGES. \<forall>p. dirty_of 0 evict_example p \<longrightarrow> p_index evict_example p \<noteq> i + word_of_nat k" for i
  proof (intro exI conjI allI impI)
    show "(if i = 3 then 2 else 0) \<le> BIO_MAX_PAGES" by (simp add: BIO_MAX_PAGES_def)
    show "p_index evict_example p \<noteq> i + word_of_nat (if i = 3 then 2 else 0)" if "dirty_of 0 evict_example p" for p
      using evict_example_batch(1) [OF that] evict_example_rest(4) by simp
  qed
  then show ?thesis by (simp add: writes_fit_def kernel_example_def)
qed


theorem write_dirty_pages_sorted_witness:
  "\<exists>s'. write_dirty_pages kernel_example 0 (Some blkdev_release_cb) evict_example = Some ([3], s')"
proof -
  from write_dirty_pages_sorted [OF kernel_example_ok(2,1) evict_example_rest(1) evict_example_ready]
  obtain log s' where l: "write_dirty_pages kernel_example 0 (Some blkdev_release_cb) evict_example = Some (log, s')" "distinct log"
    "set log = {p. dirty_of 0 evict_example p}" by blast
  then have "set log = {3}" using evict_example_batch by blast
  then have "log = [3]" using l(2) by (cases log; cases "tl log") auto
  then show ?thesis using l(1) by simp
qed

end
