(* ===== verification/Raw_Ioctl.thy ===== *)
theory Raw_Ioctl
  imports Fault_Handler
begin

text \<open>
  \<^verbatim>\<open>dmap-ioctl.h\<close> and \<^verbatim>\<open>raw_ioctl\<close> of \<^verbatim>\<open>main.c\<close>: the commands of an open device, which set page priorities and
  edit the bitmap of the pages that have to be read from the device. The abstract view of the
  bitmap is the set of marked pages; the commands are operations on that set.
\<close>

section \<open>Command numbers\<close>

text \<open>The encoding of the kernel: direction in bits 30 and 31, size in bits 16 to 29, type in bits 8 to 15, number below.\<close>

definition IOC :: "u32 \<Rightarrow> u32 \<Rightarrow> u32 \<Rightarrow> u32 \<Rightarrow> u32" where
  "IOC dir ty nr sz = push_bit 30 dir OR push_bit 8 ty OR nr OR push_bit 16 sz"

definition IOC_TYPE :: "u32 \<Rightarrow> u32" where "IOC_TYPE command = drop_bit 8 command AND 0xFF"
definition IOC_NR :: "u32 \<Rightarrow> u32" where "IOC_NR command = command AND 0xFF"

abbreviation (input) IO :: "u32 \<Rightarrow> u32 \<Rightarrow> u32" where "IO ty nr \<equiv> IOC 0 ty nr 0"
abbreviation (input) IOW :: "u32 \<Rightarrow> u32 \<Rightarrow> u32 \<Rightarrow> u32" where "IOW ty nr sz \<equiv> IOC 1 ty nr sz"
abbreviation (input) IOR :: "u32 \<Rightarrow> u32 \<Rightarrow> u32 \<Rightarrow> u32" where "IOR ty nr sz \<equiv> IOC 2 ty nr sz"
abbreviation (input) IOWR :: "u32 \<Rightarrow> u32 \<Rightarrow> u32 \<Rightarrow> u32" where "IOWR ty nr sz \<equiv> IOC 3 ty nr sz"

definition DMAP_IOC_MAGIC :: u32 where "DMAP_IOC_MAGIC = 0xED"
definition DMAP_IOC_MAXNR :: u32 where "DMAP_IOC_MAXNR = 19"

definition DMAP_SET_PAGE_PRIORITY :: u32 where "DMAP_SET_PAGE_PRIORITY = IOW DMAP_IOC_MAGIC 0 9"
definition DMAP_CHANGE_PAGE_PRIORITY :: u32 where "DMAP_CHANGE_PAGE_PRIORITY = IOW DMAP_IOC_MAGIC 14 9"
definition DMAP_GETPAGE_STATS :: u32 where "DMAP_GETPAGE_STATS = IOWR DMAP_IOC_MAGIC 15 121"
definition DMAP_PREFETCH :: u32 where "DMAP_PREFETCH = IOW DMAP_IOC_MAGIC 16 4096"
definition DMAP_FLUSH_EVICTION_QUEUES :: u32 where "DMAP_FLUSH_EVICTION_QUEUES = IO DMAP_IOC_MAGIC 17"
definition DMAP_DONTNEED :: u32 where "DMAP_DONTNEED = IOW DMAP_IOC_MAGIC 18 16"
definition FAKE_BLK_IOC_TEST_CAP :: u32 where "FAKE_BLK_IOC_TEST_CAP = IO DMAP_IOC_MAGIC 1"
definition FAKE_BLK_IOC_RESET_STATS :: u32 where "FAKE_BLK_IOC_RESET_STATS = IO DMAP_IOC_MAGIC 2"
definition FAKE_BLK_IOC_GET_STATS :: u32 where "FAKE_BLK_IOC_GET_STATS = IOR DMAP_IOC_MAGIC 3 12"
definition FAKE_BLK_IOC_ZERO_FULL :: u32 where "FAKE_BLK_IOC_ZERO_FULL = IO DMAP_IOC_MAGIC 4"
definition FAKE_BLK_IOC_FILL_FULL :: u32 where "FAKE_BLK_IOC_FILL_FULL = IO DMAP_IOC_MAGIC 5"
definition FAKE_BLK_IOC_ZERO_PAGE :: u32 where "FAKE_BLK_IOC_ZERO_PAGE = IOW DMAP_IOC_MAGIC 6 8"
definition FAKE_BLK_IOC_FILL_PAGE :: u32 where "FAKE_BLK_IOC_FILL_PAGE = IOW DMAP_IOC_MAGIC 7 8"
definition FAKE_BLK_IOC_TEST_PAGE :: u32 where "FAKE_BLK_IOC_TEST_PAGE = IOW DMAP_IOC_MAGIC 8 8"
definition FAKE_BLK_IOC_ZERO_RANGE :: u32 where "FAKE_BLK_IOC_ZERO_RANGE = IOW DMAP_IOC_MAGIC 9 16"
definition FAKE_BLK_IOC_FILL_RANGE :: u32 where "FAKE_BLK_IOC_FILL_RANGE = IOW DMAP_IOC_MAGIC 10 16"
definition FAKE_BLK_IOC_GET_DEVPGNUM :: u32 where "FAKE_BLK_IOC_GET_DEVPGNUM = IOR DMAP_IOC_MAGIC 11 8"
definition FAKE_BLK_IOC_FLIP_COPY_BITMAP :: u32 where "FAKE_BLK_IOC_FLIP_COPY_BITMAP = IOW DMAP_IOC_MAGIC 12 4096"
definition FAKE_BLK_IOC_ZERO_PAGES :: u32 where "FAKE_BLK_IOC_ZERO_PAGES = IOW DMAP_IOC_MAGIC 13 4096"

lemmas ioc_defs = DMAP_SET_PAGE_PRIORITY_def DMAP_CHANGE_PAGE_PRIORITY_def DMAP_GETPAGE_STATS_def DMAP_PREFETCH_def
  DMAP_FLUSH_EVICTION_QUEUES_def DMAP_DONTNEED_def FAKE_BLK_IOC_TEST_CAP_def FAKE_BLK_IOC_RESET_STATS_def
  FAKE_BLK_IOC_GET_STATS_def FAKE_BLK_IOC_ZERO_FULL_def FAKE_BLK_IOC_FILL_FULL_def FAKE_BLK_IOC_ZERO_PAGE_def
  FAKE_BLK_IOC_FILL_PAGE_def FAKE_BLK_IOC_TEST_PAGE_def FAKE_BLK_IOC_ZERO_RANGE_def FAKE_BLK_IOC_FILL_RANGE_def
  FAKE_BLK_IOC_GET_DEVPGNUM_def FAKE_BLK_IOC_FLIP_COPY_BITMAP_def FAKE_BLK_IOC_ZERO_PAGES_def DMAP_IOC_MAGIC_def

section \<open>Arguments\<close>

record dmap_page_prio =
  dpp_pageno :: u64
  dpp_prio :: u8

record fake_blk_page_num =
  fbp_num :: u64

record fake_blk_page_range =
  fbr_offset :: u64
  fbr_length :: u64

text \<open>The 4088 bytes of \<^verbatim>\<open>bpage\<close> are only used as bits.\<close>

record fake_blk_page_bitmap =
  fbb_offset :: u64
  fbb_bit :: "nat \<Rightarrow> bool"

record fake_blk_pages_num =
  fbs_blocks :: "u64 list"
  fbs_num :: u64

text \<open>
  The memory of the caller at the address \<^verbatim>\<open>arg\<close>, as the code reads it: what \<^verbatim>\<open>copy_from_user\<close> yields for each of the
  structures (\<open>None\<close> when it fails), and whether \<^verbatim>\<open>copy_to_user\<close> succeeds.
\<close>

record user_arg =
  ua_prio :: "dmap_page_prio option"
  ua_num :: "fake_blk_page_num option"
  ua_range :: "fake_blk_page_range option"
  ua_bitmap :: "fake_blk_page_bitmap option"
  ua_pages :: "fake_blk_pages_num option"
  ua_stats :: bool
  ua_writable :: bool

text \<open>The bitmap functions of the kernel that work on many bits at once, on the bits of an array.\<close>

record bitmap_lib =
  bm_zero :: "u64 \<Rightarrow> (u64 \<Rightarrow> bool) \<Rightarrow> u64 \<Rightarrow> bool"
  bm_fill :: "u64 \<Rightarrow> (u64 \<Rightarrow> bool) \<Rightarrow> u64 \<Rightarrow> bool"
  bm_clear :: "u64 \<Rightarrow> u64 \<Rightarrow> (u64 \<Rightarrow> bool) \<Rightarrow> u64 \<Rightarrow> bool"
  bm_set :: "u64 \<Rightarrow> u64 \<Rightarrow> (u64 \<Rightarrow> bool) \<Rightarrow> u64 \<Rightarrow> bool"

text \<open>Their contract, for sizes in the range of \<^verbatim>\<open>int\<close>, which is what their parameters hold.\<close>

definition bitmap_lib_ok :: "bitmap_lib \<Rightarrow> bool" where
  "bitmap_lib_ok B \<longleftrightarrow> (\<forall>n m i. n < 2 ^ 31 \<longrightarrow> i < n \<longrightarrow> \<not> bm_zero B n m i \<and> bm_fill B n m i) \<and>
     (\<forall>st n m i. unat st + unat n < 2 ^ 31 \<longrightarrow>
        bm_clear B st n m i = (m i \<and> \<not> (unat st \<le> unat i \<and> unat i < unat st + unat n)) \<and>
        bm_set B st n m i = (m i \<or> unat st \<le> unat i \<and> unat i < unat st + unat n))"

definition plain_bitmap :: bitmap_lib where
  "plain_bitmap = \<lparr>bm_zero = (\<lambda>n m i. m i \<and> \<not> i < n), bm_fill = (\<lambda>n m i. m i \<or> i < n),
     bm_clear = (\<lambda>st n m i. m i \<and> \<not> (unat st \<le> unat i \<and> unat i < unat st + unat n)),
     bm_set = (\<lambda>st n m i. m i \<or> unat st \<le> unat i \<and> unat i < unat st + unat n)\<rparr>"

lemma plain_bitmap_ok: "bitmap_lib_ok plain_bitmap"
  by (simp add: bitmap_lib_ok_def plain_bitmap_def)

section \<open>The commands\<close>

definition MAX_PRIORITIES :: u8 where "MAX_PRIORITIES = 16"
definition FLIP_BITS :: nat where "FLIP_BITS = 64 * 4088 div 8"

text \<open>\<^verbatim>\<open>set_bit\<close> and \<^verbatim>\<open>clear_bit\<close> on the bitmap, and the assignment to a page's priority; outside the arrays they are a bug.\<close>

definition write_bit :: "nat \<Rightarrow> u64 \<Rightarrow> bool \<Rightarrow> fm \<Rightarrow> fm" where
  "write_bit rdd i b s = (if in_bitmap (fm_rdd s rdd) i then upd_rdd rdd (set_bit_rdd i b) s else s\<lparr>fm_bug := True\<rparr>)"

definition write_priority :: "nat \<Rightarrow> u64 \<Rightarrow> u8 \<Rightarrow> fm \<Rightarrow> fm" where
  "write_priority rdd pageno prio s =
     (case rdd_meta (fm_rdd s rdd) of
        None \<Rightarrow> s\<lparr>fm_bug := True\<rparr>
      | Some meta \<Rightarrow> if unat pageno < length meta then upd_rdd rdd (\<lambda>r. r\<lparr>rdd_meta := Some (meta[unat pageno := prio])\<rparr>) s
                     else s\<lparr>fm_bug := True\<rparr>)"

definition upd_bitmap :: "nat \<Rightarrow> ((u64 \<Rightarrow> bool) \<Rightarrow> u64 \<Rightarrow> bool) \<Rightarrow> fm \<Rightarrow> fm" where
  "upd_bitmap rdd f = upd_rdd rdd (\<lambda>r. r\<lparr>rdd_bitmap := f (rdd_bitmap r)\<rparr>)"

definition ioctl_set_priority :: "nat \<Rightarrow> dmap_page_prio \<Rightarrow> fm \<Rightarrow> int \<times> fm" where
  "ioctl_set_priority rdd a s =
     (if dpp_pageno a \<ge> rdd_size_in_pages (fm_rdd s rdd) then (- EFAULT, s)
      else if dpp_prio a \<ge> MAX_PRIORITIES then (0, write_priority rdd (dpp_pageno a) 0 s)
      else (0, write_priority rdd (dpp_pageno a) (dpp_prio a) s))"

definition ioctl_change_priority :: "kernel \<Rightarrow> nat \<Rightarrow> nat \<Rightarrow> dmap_page_prio \<Rightarrow> fm \<Rightarrow> int \<times> fm" where
  "ioctl_change_priority K pvd rdd a s =
     (let s = write_priority rdd (dpp_pageno a) (dpp_prio a) s
      in (0, snd (change_page_priority_fifo_buffer_t K (dpp_pageno a) pvd (unat (dpp_prio a)) s)))"

definition ioctl_write_page :: "nat \<Rightarrow> bool \<Rightarrow> fake_blk_page_num \<Rightarrow> fm \<Rightarrow> int \<times> fm" where
  "ioctl_write_page rdd b a s =
     (if fbp_num a \<ge> rdd_bitmap_size (fm_rdd s rdd) then (- EINVAL, s) else (0, write_bit rdd (fbp_num a) b s))"

definition ioctl_test_page :: "nat \<Rightarrow> fake_blk_page_num \<Rightarrow> fm \<Rightarrow> int \<times> fm" where
  "ioctl_test_page rdd a s =
     (if fbp_num a \<ge> rdd_bitmap_size (fm_rdd s rdd) then (- EINVAL, s)
      else (of_bool (rdd_bitmap (fm_rdd s rdd) (fbp_num a)), s))"

definition ioctl_range :: "nat \<Rightarrow> (u64 \<Rightarrow> u64 \<Rightarrow> (u64 \<Rightarrow> bool) \<Rightarrow> u64 \<Rightarrow> bool) \<Rightarrow> fake_blk_page_range \<Rightarrow> fm \<Rightarrow> int \<times> fm" where
  "ioctl_range rdd f a s =
     (if fbr_offset a \<ge> rdd_bitmap_size (fm_rdd s rdd) then (- EINVAL, s)
      else if fbr_offset a + fbr_length a > rdd_bitmap_size (fm_rdd s rdd) then (- EINVAL, s)
      else (0, upd_bitmap rdd (f (fbr_offset a) (fbr_length a)) s))"

text \<open>Each bit of the copied page is flipped in place and then written to the bitmap.\<close>

definition ioctl_flip_copy :: "nat \<Rightarrow> fake_blk_page_bitmap \<Rightarrow> fm \<Rightarrow> int \<times> fm" where
  "ioctl_flip_copy rdd a s =
     (if fbb_offset a + word_of_nat FLIP_BITS > rdd_bitmap_size (fm_rdd s rdd) then (- EINVAL, s)
      else (0, fold (\<lambda>i s. let tb = (\<not> fbb_bit a i) in write_bit rdd (fbb_offset a + word_of_nat i) tb s) [0..<FLIP_BITS] s))"

text \<open>
  The loop over the blocks: \<open>mem\<close> is what is left of the structure, whose last word is the counter itself; behind it the code reads outside
  the allocation.
\<close>

fun ioctl_zero_pages :: "nat \<Rightarrow> u64 list \<Rightarrow> nat \<Rightarrow> fm \<Rightarrow> int \<times> fm" where
  "ioctl_zero_pages rdd mem 0 s = (0, s)"
| "ioctl_zero_pages rdd [] (Suc n) s = (0, s\<lparr>fm_bug := True\<rparr>)"
| "ioctl_zero_pages rdd (b # mem) (Suc n) s =
     (if b > rdd_bitmap_size (fm_rdd s rdd) then (- EINVAL, s) else ioctl_zero_pages rdd mem n (write_bit rdd b False s))"

text \<open>A command that copies its argument from the caller.\<close>

definition with_arg :: "'a option \<Rightarrow> ('a \<Rightarrow> fm \<Rightarrow> int \<times> fm) \<Rightarrow> fm \<Rightarrow> int \<times> u64 option \<times> fm" where
  "with_arg a f s = (case a of None \<Rightarrow> (- EFAULT, None, s) | Some x \<Rightarrow> (let (r, s) = f x s in (r, None, s)))"

text \<open>
  \<^verbatim>\<open>raw_ioctl\<close>. \<open>blkdev_ioctl\<close> is the kernel's handler of the underlying device. The result has the value returned, what is
  copied to the caller, and the state. Without \<^verbatim>\<open>ENABLE_STATS\<close> the statistics are copied back as they came; the asserts are compiled out.
\<close>

definition raw_ioctl ::
  "kernel \<Rightarrow> bitmap_lib \<Rightarrow> (nat \<Rightarrow> u32 \<Rightarrow> user_arg \<Rightarrow> int) \<Rightarrow> nat \<Rightarrow> u32 \<Rightarrow> user_arg \<Rightarrow> fm \<Rightarrow> int \<times> u64 option \<times> fm" where
  "raw_ioctl K B blkdev_ioctl info command arg s =
     (let pvd = fi_pvd (fm_info s info);
          bdev = pvd_bk (fm_pvd s pvd)
      in if IOC_TYPE command \<noteq> DMAP_IOC_MAGIC
         then (case bdev of Some b \<Rightarrow> (blkdev_ioctl b command arg, None, s) | None \<Rightarrow> (- ENOTTY, None, s))
         else if IOC_NR command \<ge> DMAP_IOC_MAXNR then (- ENOTTY, None, s)
         else case pvd_rdd (fm_pvd s pvd) of
           None \<Rightarrow> (0, None, s\<lparr>fm_bug := True\<rparr>)
         | Some rdd \<Rightarrow>
           if command = DMAP_SET_PAGE_PRIORITY then with_arg (ua_prio arg) (ioctl_set_priority rdd) s
           else if command = DMAP_CHANGE_PAGE_PRIORITY then with_arg (ua_prio arg) (ioctl_change_priority K pvd rdd) s
           else if command = DMAP_GETPAGE_STATS then (if ua_stats arg \<and> ua_writable arg then (0, None, s) else (- EFAULT, None, s))
           else if command \<in> {DMAP_DONTNEED, DMAP_PREFETCH, FAKE_BLK_IOC_TEST_CAP, FAKE_BLK_IOC_RESET_STATS, FAKE_BLK_IOC_GET_STATS}
             then (0, None, s)
           else if command = FAKE_BLK_IOC_ZERO_FULL then (0, None, upd_bitmap rdd (bm_zero B (rdd_bitmap_size (fm_rdd s rdd))) s)
           else if command = FAKE_BLK_IOC_FILL_FULL then (0, None, upd_bitmap rdd (bm_fill B (rdd_bitmap_size (fm_rdd s rdd))) s)
           else if command = FAKE_BLK_IOC_ZERO_PAGE then with_arg (ua_num arg) (ioctl_write_page rdd False) s
           else if command = FAKE_BLK_IOC_FILL_PAGE then with_arg (ua_num arg) (ioctl_write_page rdd True) s
           else if command = FAKE_BLK_IOC_TEST_PAGE then with_arg (ua_num arg) (ioctl_test_page rdd) s
           else if command = FAKE_BLK_IOC_ZERO_RANGE then with_arg (ua_range arg) (ioctl_range rdd (bm_clear B)) s
           else if command = FAKE_BLK_IOC_FILL_RANGE then with_arg (ua_range arg) (ioctl_range rdd (bm_set B)) s
           else if command = FAKE_BLK_IOC_GET_DEVPGNUM then
             (case bdev of None \<Rightarrow> (0, None, s\<lparr>fm_bug := True\<rparr>)
              | Some b \<Rightarrow> if ua_writable arg then (0, Some (drop_bit 3 (k_capacity K b)), s) else (- EFAULT, None, s))
           else if command = FAKE_BLK_IOC_FLIP_COPY_BITMAP then with_arg (ua_bitmap arg) (ioctl_flip_copy rdd) s
           else if command = FAKE_BLK_IOC_ZERO_PAGES then
             with_arg (ua_pages arg) (\<lambda>a. ioctl_zero_pages rdd (fbs_blocks a @ [fbs_num a]) (unat (fbs_num a))) s
           else (- EINVAL, None, s))"

section \<open>The bitmap as a set of pages\<close>

definition marked :: "raw_device_data \<Rightarrow> u64 set" where
  "marked r = {i. i < rdd_bitmap_size r \<and> rdd_bitmap r i}"

datatype bm_req = Zero_full | Fill_full | Zero_page u64 | Fill_page u64 | Test_page u64
  | Zero_range u64 u64 | Fill_range u64 u64 | Flip_copy u64 "nat \<Rightarrow> bool" | Zero_pages "u64 list"

text \<open>What each request means for a device of \<open>n\<close> pages with the marked pages \<open>S\<close>.\<close>

definition page_range :: "u64 \<Rightarrow> nat \<Rightarrow> u64 set" where
  "page_range off k = {i. unat off \<le> unat i \<and> unat i < unat off + k}"

fun bm_spec :: "u64 \<Rightarrow> bm_req \<Rightarrow> u64 set \<Rightarrow> int \<times> u64 set" where
  "bm_spec n Zero_full S = (0, {})"
| "bm_spec n Fill_full S = (0, {i. i < n})"
| "bm_spec n (Zero_page i) S = (if i < n then (0, S - {i}) else (- EINVAL, S))"
| "bm_spec n (Fill_page i) S = (if i < n then (0, insert i S) else (- EINVAL, S))"
| "bm_spec n (Test_page i) S = (if i < n then (of_bool (i \<in> S), S) else (- EINVAL, S))"
| "bm_spec n (Zero_range off l) S = (if off < n \<and> unat off + unat l \<le> unat n then (0, S - page_range off (unat l)) else (- EINVAL, S))"
| "bm_spec n (Fill_range off l) S = (if off < n \<and> unat off + unat l \<le> unat n then (0, S \<union> page_range off (unat l)) else (- EINVAL, S))"
| "bm_spec n (Flip_copy off f) S =
     (if unat off + FLIP_BITS \<le> unat n
      then (0, (S - page_range off FLIP_BITS) \<union> {i \<in> page_range off FLIP_BITS. \<not> f (unat i - unat off)}) else (- EINVAL, S))"
| "bm_spec n (Zero_pages bs) S =
     (if \<forall>b\<in>set bs. b < n then (0, S - set bs) else (- EINVAL, S - set (takeWhile (\<lambda>b. b < n) bs)))"

text \<open>The command and the argument of a request. The structure of \<^verbatim>\<open>ZERO_PAGES\<close> has room for 511 blocks.\<close>

fun bm_command :: "bm_req \<Rightarrow> u32" where
  "bm_command Zero_full = FAKE_BLK_IOC_ZERO_FULL"
| "bm_command Fill_full = FAKE_BLK_IOC_FILL_FULL"
| "bm_command (Zero_page i) = FAKE_BLK_IOC_ZERO_PAGE"
| "bm_command (Fill_page i) = FAKE_BLK_IOC_FILL_PAGE"
| "bm_command (Test_page i) = FAKE_BLK_IOC_TEST_PAGE"
| "bm_command (Zero_range off l) = FAKE_BLK_IOC_ZERO_RANGE"
| "bm_command (Fill_range off l) = FAKE_BLK_IOC_FILL_RANGE"
| "bm_command (Flip_copy off f) = FAKE_BLK_IOC_FLIP_COPY_BITMAP"
| "bm_command (Zero_pages bs) = FAKE_BLK_IOC_ZERO_PAGES"

definition no_arg :: user_arg where
  "no_arg = \<lparr>ua_prio = None, ua_num = None, ua_range = None, ua_bitmap = None, ua_pages = None, ua_stats = False, ua_writable = False\<rparr>"

fun bm_arg :: "bm_req \<Rightarrow> user_arg" where
  "bm_arg Zero_full = no_arg"
| "bm_arg Fill_full = no_arg"
| "bm_arg (Zero_page i) = no_arg\<lparr>ua_num := Some \<lparr>fbp_num = i\<rparr>\<rparr>"
| "bm_arg (Fill_page i) = no_arg\<lparr>ua_num := Some \<lparr>fbp_num = i\<rparr>\<rparr>"
| "bm_arg (Test_page i) = no_arg\<lparr>ua_num := Some \<lparr>fbp_num = i\<rparr>\<rparr>"
| "bm_arg (Zero_range off l) = no_arg\<lparr>ua_range := Some \<lparr>fbr_offset = off, fbr_length = l\<rparr>\<rparr>"
| "bm_arg (Fill_range off l) = no_arg\<lparr>ua_range := Some \<lparr>fbr_offset = off, fbr_length = l\<rparr>\<rparr>"
| "bm_arg (Flip_copy off f) = no_arg\<lparr>ua_bitmap := Some \<lparr>fbb_offset = off, fbb_bit = f\<rparr>\<rparr>"
| "bm_arg (Zero_pages bs) =
     no_arg\<lparr>ua_pages := Some \<lparr>fbs_blocks = bs @ replicate (511 - length bs) 0, fbs_num = word_of_nat (length bs)\<rparr>\<rparr>"

text \<open>
  The arguments for which the checks of the code are exact: sums do not wrap around, at most 511 blocks
  are given and none of them is the first page behind the device.
\<close>

fun bm_fits :: "u64 \<Rightarrow> bm_req \<Rightarrow> bool" where
  "bm_fits n (Zero_range off l) \<longleftrightarrow> unat off + unat l < 2 ^ 64"
| "bm_fits n (Fill_range off l) \<longleftrightarrow> unat off + unat l < 2 ^ 64"
| "bm_fits n (Flip_copy off f) \<longleftrightarrow> unat off + FLIP_BITS < 2 ^ 64"
| "bm_fits n (Zero_pages bs) \<longleftrightarrow> length bs \<le> 511 \<and> n \<notin> set bs"
| "bm_fits n _ \<longleftrightarrow> True"

lemma upd_bitmap_simps [simp]:
  "rdd_bitmap_size (fm_rdd (upd_bitmap rdd f s) rdd) = rdd_bitmap_size (fm_rdd s rdd)"
  "rdd_bitmap (fm_rdd (upd_bitmap rdd f s) rdd) = f (rdd_bitmap (fm_rdd s rdd))"
  "upd_bitmap rdd g (upd_bitmap rdd f s) = upd_bitmap rdd (\<lambda>m. g (f m)) s" "upd_bitmap rdd (\<lambda>m. m) s = s"
  by (simp_all add: upd_bitmap_def upd_rdd_def)

lemma in_bitmapI:
  assumes "i < rdd_bitmap_size r" and "rdd_bitmap_size r < 2 ^ 31"
  shows "in_bitmap r i"
proof -
  have n: "unat (rdd_bitmap_size r) < 2 ^ 31" using assms(2) by (simp add: word_less_nat_alt)
  then have "unat (rdd_bitmap_size r + 63) = unat (rdd_bitmap_size r) + 63" by (simp add: unat_word_ariths)
  moreover have "unat i < unat (rdd_bitmap_size r)" using assms(1) by (simp add: word_less_nat_alt)
  ultimately show ?thesis by (simp add: in_bitmap_def word_less_nat_alt unat_div)
qed

lemma write_bit_eq:
  assumes "i < rdd_bitmap_size (fm_rdd s rdd)" and "rdd_bitmap_size (fm_rdd s rdd) < 2 ^ 31"
  shows "write_bit rdd i b s = upd_bitmap rdd (\<lambda>m. m(i := b)) s"
  using in_bitmapI [OF assms] by (simp add: write_bit_def upd_bitmap_def upd_rdd_def set_bit_rdd_def)

lemma unat_add_le: "unat (a :: u64) + k < 2 ^ 64 \<Longrightarrow> unat (a + word_of_nat k) = unat a + k"
  by (simp add: unat_word_ariths unat_of_nat)

lemma flip_fold:
  assumes n: "rdd_bitmap_size (fm_rdd s rdd) < 2 ^ 31" and k: "unat off + k \<le> unat (rdd_bitmap_size (fm_rdd s rdd))"
  shows "fold (\<lambda>i s. let tb = (\<not> f i) in write_bit rdd (off + word_of_nat i) tb s) [0..<k] s =
    upd_bitmap rdd (\<lambda>m i. if i \<in> page_range off k then \<not> f (unat i - unat off) else m i) s"
  using k
proof (induction k)
  case 0
  have "page_range off 0 = {}" by (auto simp: page_range_def)
  then show ?case by simp
next
  case (Suc k)
  let ?i = "off + word_of_nat k :: u64"
  have "unat (rdd_bitmap_size (fm_rdd s rdd)) < 2 ^ 31" using n by (simp add: word_less_nat_alt)
  then have ui: "unat ?i = unat off + k" using Suc.prems by (intro unat_add_le) simp
  then have lt: "?i < rdd_bitmap_size (fm_rdd s rdd)" using Suc.prems by (simp add: word_less_nat_alt)
  have range: "x \<in> page_range off (Suc k) \<longleftrightarrow> x = ?i \<or> x \<in> page_range off k" for x :: u64
    using ui by (auto simp: page_range_def word_unat_eq_iff)
  show ?case using Suc lt n by (auto simp: write_bit_eq range ui fun_eq_iff intro!: arg_cong [of _ _ "\<lambda>g. upd_bitmap rdd g s"])
qed

lemma zero_pages_loop:
  assumes "rdd_bitmap_size (fm_rdd s rdd) < 2 ^ 31" and "rdd_bitmap_size (fm_rdd s rdd) \<notin> set bs"
  shows "ioctl_zero_pages rdd (bs @ rest) (length bs) s =
    (let n = rdd_bitmap_size (fm_rdd s rdd)
     in (if \<forall>b\<in>set bs. b < n then 0 else - EINVAL, upd_bitmap rdd (\<lambda>m i. m i \<and> i \<notin> set (takeWhile (\<lambda>b. b < n) bs)) s))"
  using assms
proof (induction bs arbitrary: s)
  case (Cons b bs)
  let ?n = "rdd_bitmap_size (fm_rdd s rdd)"
  show ?case
  proof (cases "b < ?n")
    case True
    have IH: "ioctl_zero_pages rdd (bs @ rest) (length bs) (write_bit rdd b False s) =
        (if \<forall>b\<in>set bs. b < ?n then 0 else - EINVAL,
         upd_bitmap rdd (\<lambda>m i. (m(b := False)) i \<and> i \<notin> set (takeWhile (\<lambda>b. b < ?n) bs)) s)"
      using Cons.IH [of "write_bit rdd b False s"] Cons.prems by (simp add: write_bit_eq [OF True Cons.prems(1)] Let_def)
    have "(\<lambda>m i. (m(b := False)) i \<and> i \<notin> set (takeWhile (\<lambda>b. b < ?n) bs)) =
        (\<lambda>m i. m i \<and> i \<notin> set (takeWhile (\<lambda>b. b < ?n) (b # bs)))" using True by (auto simp: fun_eq_iff)
    moreover have "\<not> b > ?n" using True by simp
    ultimately show ?thesis using True IH by (simp only: append_Cons length_Cons ioctl_zero_pages.simps if_False Let_def) simp
  next
    case False
    with Cons.prems show ?thesis by (auto simp: Let_def)
  qed
qed simp

text \<open>The numbers of the commands, which are all different.\<close>

lemma ioc_values:
  "DMAP_SET_PAGE_PRIORITY = 0x4009ED00" "DMAP_CHANGE_PAGE_PRIORITY = 0x4009ED0E" "DMAP_GETPAGE_STATS = 0xC079ED0F"
  "DMAP_PREFETCH = 0x5000ED10" "DMAP_DONTNEED = 0x4010ED12" "FAKE_BLK_IOC_TEST_CAP = 0xED01" "FAKE_BLK_IOC_RESET_STATS = 0xED02"
  "FAKE_BLK_IOC_GET_STATS = 0x800CED03" "FAKE_BLK_IOC_ZERO_FULL = 0xED04" "FAKE_BLK_IOC_FILL_FULL = 0xED05"
  "FAKE_BLK_IOC_ZERO_PAGE = 0x4008ED06" "FAKE_BLK_IOC_FILL_PAGE = 0x4008ED07" "FAKE_BLK_IOC_TEST_PAGE = 0x4008ED08"
  "FAKE_BLK_IOC_ZERO_RANGE = 0x4010ED09" "FAKE_BLK_IOC_FILL_RANGE = 0x4010ED0A" "FAKE_BLK_IOC_GET_DEVPGNUM = 0x8008ED0B"
  "FAKE_BLK_IOC_FLIP_COPY_BITMAP = 0x5000ED0C" "FAKE_BLK_IOC_ZERO_PAGES = 0x5000ED0D" "DMAP_FLUSH_EVICTION_QUEUES = 0xED11"
  by (simp_all add: ioc_defs IOC_def)

lemma bm_command_ok: "IOC_TYPE (bm_command req) = DMAP_IOC_MAGIC" "\<not> DMAP_IOC_MAXNR \<le> IOC_NR (bm_command req)"
  by (cases req; simp add: ioc_values IOC_TYPE_def IOC_NR_def DMAP_IOC_MAGIC_def DMAP_IOC_MAXNR_def)+

text \<open>The branch that each request takes.\<close>

definition bm_run :: "bitmap_lib \<Rightarrow> nat \<Rightarrow> bm_req \<Rightarrow> fm \<Rightarrow> int \<times> fm" where
  "bm_run B rdd req s = (case req of
     Zero_full \<Rightarrow> (0, upd_bitmap rdd (bm_zero B (rdd_bitmap_size (fm_rdd s rdd))) s)
   | Fill_full \<Rightarrow> (0, upd_bitmap rdd (bm_fill B (rdd_bitmap_size (fm_rdd s rdd))) s)
   | Zero_page i \<Rightarrow> ioctl_write_page rdd False \<lparr>fbp_num = i\<rparr> s
   | Fill_page i \<Rightarrow> ioctl_write_page rdd True \<lparr>fbp_num = i\<rparr> s
   | Test_page i \<Rightarrow> ioctl_test_page rdd \<lparr>fbp_num = i\<rparr> s
   | Zero_range off l \<Rightarrow> ioctl_range rdd (bm_clear B) \<lparr>fbr_offset = off, fbr_length = l\<rparr> s
   | Fill_range off l \<Rightarrow> ioctl_range rdd (bm_set B) \<lparr>fbr_offset = off, fbr_length = l\<rparr> s
   | Flip_copy off f \<Rightarrow> ioctl_flip_copy rdd \<lparr>fbb_offset = off, fbb_bit = f\<rparr> s
   | Zero_pages bs \<Rightarrow> ioctl_zero_pages rdd (bs @ replicate (511 - length bs) 0 @ [word_of_nat (length bs)]) (unat (word_of_nat (length bs) :: u64)) s)"

lemma raw_ioctl_bm:
  assumes "pvd_rdd (fm_pvd s (fi_pvd (fm_info s info))) = Some rdd"
  shows "raw_ioctl K B io info (bm_command req) (bm_arg req) s = (let (r, s) = bm_run B rdd req s in (r, None, s))"
proof -
  have "IOC_TYPE (bm_command req) = DMAP_IOC_MAGIC" "\<not> DMAP_IOC_MAXNR \<le> IOC_NR (bm_command req)" by (rule bm_command_ok)+
  then show ?thesis unfolding raw_ioctl_def Let_def using assms
    by (cases req) (simp_all add: bm_run_def ioc_values with_arg_def no_arg_def)
qed

section \<open>The commands refine the operations on the set\<close>

lemma marked_upd: "marked (fm_rdd (upd_bitmap rdd g s) rdd) = {i. i < rdd_bitmap_size (fm_rdd s rdd) \<and> g (rdd_bitmap (fm_rdd s rdd)) i}"
  by (simp add: marked_def)

lemma range_checks:
  assumes "unat off + unat l < 2 ^ 64"
  shows "(\<not> n \<le> off \<and> \<not> n < off + l) \<longleftrightarrow> off < n \<and> unat off + unat l \<le> unat (n :: u64)"
  using unat_add_le [of off "unat l"] assms by (auto simp: word_less_nat_alt word_le_nat_alt)

lemma page_range_below: "unat off + k \<le> unat n \<Longrightarrow> i \<in> page_range off k \<Longrightarrow> i < n"
  by (simp add: page_range_def word_less_nat_alt)

lemma bm_range_run:
  assumes n: "rdd_bitmap_size (fm_rdd s rdd) < 2 ^ 31" and fits: "unat off + unat l < 2 ^ 64"
  shows "ioctl_range rdd f \<lparr>fbr_offset = off, fbr_length = l\<rparr> s =
    (if off < rdd_bitmap_size (fm_rdd s rdd) \<and> unat off + unat l \<le> unat (rdd_bitmap_size (fm_rdd s rdd))
     then (0, upd_bitmap rdd (f off l) s) else (- EINVAL, s))"
  using range_checks [OF fits, of "rdd_bitmap_size (fm_rdd s rdd)"] by (auto simp: ioctl_range_def)

lemma bm_run_spec:
  assumes B: "bitmap_lib_ok B" and n: "rdd_bitmap_size (fm_rdd s rdd) < 2 ^ 31" and fits: "bm_fits (rdd_bitmap_size (fm_rdd s rdd)) req"
  shows "\<exists>r g. bm_run B rdd req s = (r, upd_bitmap rdd g s) \<and>
    bm_spec (rdd_bitmap_size (fm_rdd s rdd)) req (marked (fm_rdd s rdd)) = (r, marked (fm_rdd (upd_bitmap rdd g s) rdd))"
proof -
  let ?n = "rdd_bitmap_size (fm_rdd s rdd)" and ?M = "rdd_bitmap (fm_rdd s rdd)"
  have un: "unat ?n < 2 ^ 31" using n by (simp add: word_less_nat_alt)
  have ok: "?thesis" if "bm_run B rdd req s = (r, upd_bitmap rdd g s)"
    "bm_spec ?n req (marked (fm_rdd s rdd)) = (r, {i. i < ?n \<and> g ?M i})" for r g
    using that by (auto simp: marked_upd)
  have err: "?thesis" if "bm_run B rdd req s = (r, s)" "bm_spec ?n req (marked (fm_rdd s rdd)) = (r, marked (fm_rdd s rdd))" for r
    by (rule ok [of r "\<lambda>m. m"]) (use that in \<open>simp_all add: marked_def\<close>)
  have lib: "i < ?n \<Longrightarrow> \<not> bm_zero B ?n ?M i \<and> bm_fill B ?n ?M i" for i using B n unfolding bitmap_lib_ok_def by blast
  have rng: "bm_clear B off l ?M = (\<lambda>i. ?M i \<and> i \<notin> page_range off (unat l))" "bm_set B off l ?M = (\<lambda>i. ?M i \<or> i \<in> page_range off (unat l))"
    if "unat off + unat l \<le> unat ?n" for off l
    using B that un unfolding bitmap_lib_ok_def page_range_def by (auto simp: fun_eq_iff)
  note wb = write_bit_eq [OF _ n]
  show ?thesis
  proof (cases req)
    case Zero_full
    show ?thesis by (rule ok [of 0 "bm_zero B ?n"]) (use lib in \<open>auto simp: Zero_full bm_run_def\<close>)
  next
    case Fill_full
    show ?thesis by (rule ok [of 0 "bm_fill B ?n"]) (use lib in \<open>auto simp: Fill_full bm_run_def\<close>)
  next
    case (Zero_page i)
    show ?thesis
    proof (cases "i < ?n")
      case True
      show ?thesis by (rule ok [of 0 "\<lambda>m. m(i := False)"]) (use True in \<open>auto simp: Zero_page bm_run_def ioctl_write_page_def wb marked_def\<close>)
    qed (rule err [of "- EINVAL"], simp_all add: Zero_page bm_run_def ioctl_write_page_def not_less)
  next
    case (Fill_page i)
    show ?thesis
    proof (cases "i < ?n")
      case True
      show ?thesis by (rule ok [of 0 "\<lambda>m. m(i := True)"]) (use True in \<open>auto simp: Fill_page bm_run_def ioctl_write_page_def wb marked_def\<close>)
    qed (rule err [of "- EINVAL"], simp_all add: Fill_page bm_run_def ioctl_write_page_def not_less)
  next
    case (Test_page i)
    show ?thesis
    proof (cases "i < ?n")
      case True
      show ?thesis by (rule err [of "of_bool (?M i)"]) (use True in \<open>auto simp: Test_page bm_run_def ioctl_test_page_def marked_def\<close>)
    qed (rule err [of "- EINVAL"], simp_all add: Test_page bm_run_def ioctl_test_page_def not_less)
  next
    case (Zero_range off l)
    note run = bm_range_run [OF n, of off l "bm_clear B"]
    show ?thesis
    proof (cases "off < ?n \<and> unat off + unat l \<le> unat ?n")
      case True
      show ?thesis by (rule ok [of 0 "bm_clear B off l"]) (use True run fits rng(1) in \<open>auto simp: Zero_range bm_run_def marked_def\<close>)
    qed (rule err [of "- EINVAL"], use run fits in \<open>auto simp: Zero_range bm_run_def\<close>)
  next
    case (Fill_range off l)
    note run = bm_range_run [OF n, of off l "bm_set B"]
    show ?thesis
    proof (cases "off < ?n \<and> unat off + unat l \<le> unat ?n")
      case True
      show ?thesis by (rule ok [of 0 "bm_set B off l"])
        (use True run fits rng(2) page_range_below [of off "unat l" ?n] in \<open>auto simp: Fill_range bm_run_def marked_def\<close>)
    qed (rule err [of "- EINVAL"], use run fits in \<open>auto simp: Fill_range bm_run_def\<close>)
  next
    case (Flip_copy off f)
    have c: "?n < off + word_of_nat FLIP_BITS \<longleftrightarrow> \<not> unat off + FLIP_BITS \<le> unat ?n"
      using unat_add_le [of off FLIP_BITS] fits by (simp add: Flip_copy word_less_nat_alt not_le)
    show ?thesis
    proof (cases "unat off + FLIP_BITS \<le> unat ?n")
      case True
      show ?thesis
        by (rule ok [of 0 "\<lambda>m i. if i \<in> page_range off FLIP_BITS then \<not> f (unat i - unat off) else m i"])
          (use True c flip_fold [OF n True] page_range_below [OF True] in \<open>auto simp: Flip_copy bm_run_def ioctl_flip_copy_def marked_def\<close>)
    qed (rule err [of "- EINVAL"], use c in \<open>simp_all add: Flip_copy bm_run_def ioctl_flip_copy_def\<close>)
  next
    case (Zero_pages bs)
    have len: "unat (word_of_nat (length bs) :: u64) = length bs" and notin: "?n \<notin> set bs"
      using fits by (simp_all add: Zero_pages unat_of_nat)
    let ?g = "\<lambda>m i. m i \<and> i \<notin> set (takeWhile (\<lambda>b. b < ?n) bs)"
    have all: "takeWhile (\<lambda>b. b < ?n) bs = bs" if "\<forall>b\<in>set bs. b < ?n" using that by simp
    have run: "bm_run B rdd req s = (if \<forall>b\<in>set bs. b < ?n then 0 else - EINVAL, upd_bitmap rdd ?g s)"
      using zero_pages_loop [OF n notin] len by (simp add: bm_run_def Zero_pages Let_def)
    show ?thesis
    proof (cases "\<forall>b\<in>set bs. b < ?n")
      case True
      show ?thesis by (rule ok [of 0 "\<lambda>m i. m i \<and> i \<notin> set bs"]) (use run all [OF True] True in \<open>auto simp: Zero_pages marked_def\<close>)
    next
      case False
      show ?thesis by (rule ok [of "- EINVAL" ?g]) (use run False in \<open>auto simp: Zero_pages marked_def\<close>)
    qed
  qed
qed



text \<open>
  The check of \<^verbatim>\<open>ZERO_PAGES\<close> lets the first page behind the device pass; when the size is a multiple of 64 the bit is outside
  the array.
\<close>

lemma zero_pages_off_by_one:
  assumes "fbs_num a = 1" and "fbs_blocks a = rdd_bitmap_size (fm_rdd s rdd) # rest" and "rdd_bitmap_size (fm_rdd s rdd) = 64"
  shows "fm_bug (snd (ioctl_zero_pages rdd (fbs_blocks a @ [fbs_num a]) (unat (fbs_num a)) s))"
  using assms by (simp add: write_bit_def in_bitmap_def)

text \<open>A range whose end wraps around passes the checks although it leaves the device.\<close>

lemma range_check_wraps:
  "rdd_bitmap_size (fm_rdd s rdd) = 64 \<Longrightarrow> fst (ioctl_range rdd f \<lparr>fbr_offset = 5, fbr_length = 0xFFFFFFFFFFFFFFFD\<rparr> s) = 0"
  by (simp add: ioctl_range_def)

text \<open>The command \<^verbatim>\<open>DMAP_FLUSH_EVICTION_QUEUES\<close> of the header is unknown to the driver.\<close>

lemma flush_unknown:
  "pvd_rdd (fm_pvd s (fi_pvd (fm_info s info))) = Some rdd \<Longrightarrow>
   raw_ioctl K B io info DMAP_FLUSH_EVICTION_QUEUES arg s = (- EINVAL, None, s)"
  by (simp add: raw_ioctl_def Let_def ioc_values IOC_TYPE_def IOC_NR_def DMAP_IOC_MAGIC_def DMAP_IOC_MAXNR_def)

end
