(* ===== verification/Raw_Device.thy ===== *)
theory Raw_Device
  imports Write_Dirty Raw_Ioctl
begin

text \<open>
  The life of a device in \<^verbatim>\<open>main.c\<close>: binding a minor number to a block device through the control
  device, opening it, closing it, which writes and frees all its pages, and the step relation of
  these operations with the invariant that the assertions of \<^verbatim>\<open>raw_ioctl\<close> rely on. Memory allocations succeed.
\<close>

section \<open>State\<close>

text \<open>
  The members of an open \<^verbatim>\<open>struct file\<close> that the driver uses: the minor number of its inode, whether its operations are
  \<^verbatim>\<open>raw_ctl_fops\<close>, \<^verbatim>\<open>O_DIRECT\<close>, the block device whose address space is \<^verbatim>\<open>f_mapping\<close>, and \<^verbatim>\<open>private_data\<close>.
\<close>

record raw_file =
  rf_minor :: nat
  rf_ctl :: bool
  rf_direct :: bool
  rf_mapping :: "nat option"
  rf_private :: "nat option"

text \<open>
  \<open>rs_opens b\<close> counts the successful calls of \<^verbatim>\<open>blkdev_get\<close> minus those of \<^verbatim>\<open>blkdev_put\<close>; \<open>rs_imapping m\<close> is the block device whose
  address space replaces that of the inode of minor \<open>m\<close>.
\<close>

record raw_sys =
  rs_fm :: fm
  rs_file :: "nat \<Rightarrow> raw_file"
  rs_opens :: "nat \<Rightarrow> int"
  rs_imapping :: "nat \<Rightarrow> nat option"

text \<open>
  What the block layer answers: \<^verbatim>\<open>bdget\<close>, \<^verbatim>\<open>bd_dev\<close>, whether \<^verbatim>\<open>bd_disk\<close> is set, \<^verbatim>\<open>blkdev_get\<close> and \<^verbatim>\<open>set_blocksize\<close>; whether the caller has \<^verbatim>\<open>CAP_SYS_ADMIN\<close>;
  the first slot of a radix tree.
\<close>

record dev_env =
  de_bdget :: "u32 \<Rightarrow> nat option"
  de_bd_dev :: "nat \<Rightarrow> u32"
  de_disk :: "nat \<Rightarrow> bool"
  de_blkdev_get :: "nat \<Rightarrow> int"
  de_set_blocksize :: "nat \<Rightarrow> int"
  de_capable :: bool
  de_rdx_first :: "(u64 \<Rightarrow> pid option) \<Rightarrow> u64 option"

definition rdx_first_ok :: "((u64 \<Rightarrow> pid option) \<Rightarrow> u64 option) \<Rightarrow> bool" where
  "rdx_first_ok f \<longleftrightarrow> (\<forall>m. case f m of None \<Rightarrow> \<forall>i. m i = None | Some i \<Rightarrow> m i \<noteq> None \<and> (\<forall>j<i. m j = None))"

definition upd_fm :: "(fm \<Rightarrow> fm) \<Rightarrow> raw_sys \<Rightarrow> raw_sys" where
  "upd_fm g s = s\<lparr>rs_fm := g (rs_fm s)\<rparr>"

definition upd_file :: "nat \<Rightarrow> (raw_file \<Rightarrow> raw_file) \<Rightarrow> raw_sys \<Rightarrow> raw_sys" where
  "upd_file f g s = s\<lparr>rs_file := (rs_file s)(f := g (rs_file s f))\<rparr>"

definition add_opens :: "nat \<Rightarrow> int \<Rightarrow> raw_sys \<Rightarrow> raw_sys" where
  "add_opens b n s = s\<lparr>rs_opens := (rs_opens s)(b := rs_opens s b + n)\<rparr>"

section \<open>Opening\<close>

text \<open>The backing object that \<^verbatim>\<open>raw_open\<close> allocates for a file of the raw device \<open>rdd\<close>.\<close>

definition new_pvd :: "nat \<Rightarrow> raw_device_data \<Rightarrow> pr_vma_data" where
  "new_pvd rdd r = \<lparr>pvd_type = D_BLKD, pvd_dev_id = unat (rdd_dev_id r), pvd_ino = 0, pvd_cnt = 0, pvd_mmaped = 0,
     pvd_bk = rdd_binding r, pvd_open_fds = replicate MAX_OPEN_FDS None, pvd_dirty_tree = (\<lambda>c. Leaf), pvd_rdd = Some rdd,
     pvd_is_readonly = False, pvd_is_mmap = False, pvd_is_valid = True, pvd_rdx = (\<lambda>c i. None), pvd_vma_count = 0,
     pvd_during_unlink = 0\<rparr>"

text \<open>\<open>fi\<close> and \<open>pvd\<close> are the memory that \<^verbatim>\<open>kzalloc\<close> returns.\<close>

definition raw_open :: "dev_env \<Rightarrow> nat \<Rightarrow> nat \<Rightarrow> nat \<Rightarrow> raw_sys \<Rightarrow> int \<times> raw_sys" where
  "raw_open E filp fi pvd s =
     (let minor = rf_minor (rs_file s filp)
      in if minor = 0 then (0, upd_file filp (\<lambda>f. f\<lparr>rf_ctl := True\<rparr>) s)
         else case rdd_binding (fm_rdd (rs_fm s) minor) of
                None \<Rightarrow> (- ENODEV, s)
              | Some bdev \<Rightarrow>
                  (let err = de_blkdev_get E bdev
                   in if err \<noteq> 0 then (err, s)
                      else let s = add_opens bdev 1 s;
                               err = de_set_blocksize E bdev
                           in if err \<noteq> 0 then (err, add_opens bdev (- 1) s)
                              else let s = upd_file filp (\<lambda>f. f\<lparr>rf_direct := True, rf_mapping := Some bdev\<rparr>) s;
                                       s = upd_fm (upd_rdd minor (\<lambda>r. r\<lparr>rdd_inuse := rdd_inuse r + 1\<rparr>)) s;
                                       s = (if rdd_inuse (fm_rdd (rs_fm s) minor) = 1
                                            then s\<lparr>rs_imapping := (rs_imapping s)(minor := Some bdev)\<rparr> else s);
                                       s = upd_fm (upd_pvd pvd (\<lambda>_. new_pvd minor (fm_rdd (rs_fm s) minor))) s;
                                       s = upd_fm (\<lambda>x. x\<lparr>fm_info := (fm_info x)(fi := \<lparr>fi_is_fastmap = False, fi_pvd = pvd, fi_pve = 0\<rparr>)\<rparr>) s
                                   in (0, upd_file filp (\<lambda>f. f\<lparr>rf_private := Some fi\<rparr>) s)))"

section \<open>Closing\<close>

text \<open>The first page in the radix trees of an object, which is deleted there.\<close>

fun rdx_scan :: "dev_env \<Rightarrow> (nat \<Rightarrow> u64 \<Rightarrow> pid option) \<Rightarrow> nat list \<Rightarrow> (nat \<times> u64 \<times> pid) option" where
  "rdx_scan E rdx [] = None"
| "rdx_scan E rdx (cpu # cpus) =
     (case de_rdx_first E (rdx cpu) of
        None \<Rightarrow> rdx_scan E rdx cpus
      | Some i \<Rightarrow> (case rdx cpu i of None \<Rightarrow> rdx_scan E rdx cpus | Some p \<Rightarrow> Some (cpu, i, p)))"

text \<open>Locking the page, taking it out of its queue and freeing it. \<open>None\<close>: the page is locked and the code waits.\<close>

definition raw_free_page :: "pid \<Rightarrow> fm \<Rightarrow> fm option" where
  "raw_free_page p s =
     (let (r, tp) = trylock_tp (pm_pages s p) ULONG_MAX
      in if r \<noteq> 0 then None
         else let s = upd_page p (\<lambda>_. tp) s;
                  s = (case tp_buffer_id (pm_pages s p) of
                         BI_CLEAN \<Rightarrow> rem_clean (clean_q (p_index s p)) p s
                       | BI_DIRTY \<Rightarrow> rem_dirty (dirty_q (p_index s p)) p s
                       | BI_NONE \<Rightarrow> s)
              in Some (free_page_lock p s))"

text \<open>The loop that empties the radix trees. Each round deletes an entry; \<open>None\<close> is also the end of the fuel.\<close>

fun raw_drain :: "kernel \<Rightarrow> dev_env \<Rightarrow> nat \<Rightarrow> nat \<Rightarrow> fm \<Rightarrow> fm option" where
  "raw_drain K E pvd 0 s = None"
| "raw_drain K E pvd (Suc n) s =
     (case rdx_scan E (pvd_rdx (fm_pvd s pvd)) [0..<ncpus K] of
        None \<Rightarrow> Some s
      | Some (cpu, i, p) \<Rightarrow>
          (let s = upd_pvd pvd (\<lambda>v. v\<lparr>pvd_rdx := (pvd_rdx v)(cpu := (pvd_rdx v cpu)(i := None))\<rparr>) s
           in case raw_free_page p s of None \<Rightarrow> None | Some s \<Rightarrow> raw_drain K E pvd n s))"

definition raw_release :: "kernel \<Rightarrow> dev_env \<Rightarrow> nat \<Rightarrow> raw_sys \<Rightarrow> (int \<times> raw_sys) option" where
  "raw_release K E filp s =
     (let minor = rf_minor (rs_file s filp)
      in case rf_private (rs_file s filp) of
           None \<Rightarrow> Some (0, upd_fm (\<lambda>x. x\<lparr>fm_bug := True\<rparr>) s)
         | Some fi \<Rightarrow>
             (let pvd = fi_pvd (fm_info (rs_fm s) fi)
              in case write_dirty_pages K pvd (Some blkdev_release_cb) (rs_fm s) of
                   None \<Rightarrow> None
                 | Some (log, x) \<Rightarrow>
                     (case raw_drain K E pvd (Suc (pm_total x)) x of
                        None \<Rightarrow> None
                      | Some x \<Rightarrow>
                          (let s = s\<lparr>rs_fm := x\<rparr>;
                               bdev = rdd_binding (fm_rdd (rs_fm s) minor);
                               s = upd_fm (upd_rdd minor (\<lambda>r. r\<lparr>rdd_inuse := rdd_inuse r - 1\<rparr>)) s;
                               s = (if rdd_inuse (fm_rdd (rs_fm s) minor) = 0
                                    then s\<lparr>rs_imapping := (rs_imapping s)(minor := None)\<rparr> else s);
                               s = upd_file filp (\<lambda>f. f\<lparr>rf_private := None\<rparr>) s
                           in Some (0, case bdev of None \<Rightarrow> upd_fm (\<lambda>x. x\<lparr>fm_bug := True\<rparr>) s | Some b \<Rightarrow> add_opens b (- 1) s)))))"

section \<open>Binding\<close>

definition MKDEV :: "u64 \<Rightarrow> u64 \<Rightarrow> u32" where "MKDEV major minor = ucast (push_bit 20 major OR minor)"
definition MAJOR :: "u32 \<Rightarrow> u64" where "MAJOR dev = ucast (drop_bit 20 dev)"
definition MINOR :: "u32 \<Rightarrow> u64" where "MINOR dev = ucast (dev AND 0xFFFFF)"

definition MAX_DI_MMAP_MINORS :: int where "MAX_DI_MMAP_MINORS = 256"
definition PATH_LEN :: nat where "PATH_LEN = 128"

record dmap_config_request =
  rq_raw_minor :: int
  rq_block_major :: u64
  rq_block_minor :: u64
  rq_dev_path :: string

text \<open>
  The unbinding and the binding of a raw device. Unbinding releases the array of priorities; its stale pointer is
  never followed before the next binding, except by unbinding again, which follows the null binding
  first. Binding reserves new arrays; \<^verbatim>\<open>strcpy\<close> of a path that does not fit writes behind the member.
\<close>

definition bind_unset :: "nat \<Rightarrow> raw_sys \<Rightarrow> raw_sys" where
  "bind_unset number s =
     (case rdd_binding (fm_rdd (rs_fm s) number) of
        None \<Rightarrow> upd_fm (\<lambda>x. x\<lparr>fm_bug := True\<rparr>) s
      | Some b \<Rightarrow> upd_fm (upd_rdd number (\<lambda>r. r\<lparr>rdd_meta := None, rdd_binding := None\<rparr>)) (add_opens b (- 1) s))"

definition bind_new :: "kernel \<Rightarrow> dev_env \<Rightarrow> nat \<Rightarrow> u32 \<Rightarrow> string \<Rightarrow> raw_sys \<Rightarrow> raw_sys" where
  "bind_new K E number dev path s =
     (case de_bdget E dev of
        None \<Rightarrow> upd_fm (\<lambda>x. x\<lparr>fm_bug := True\<rparr>) s
      | Some b \<Rightarrow>
          (let s = upd_fm (upd_rdd number (\<lambda>r. r\<lparr>rdd_binding := Some b, rdd_dev_id := dev\<rparr>)) s;
               s = (if de_blkdev_get E b = 0 then add_opens b 1 s else s)
           in if length path \<ge> PATH_LEN \<or> \<not> de_disk E b then upd_fm (\<lambda>x. x\<lparr>fm_bug := True\<rparr>) s
              else let num_sect = k_capacity K b;
                       pages = drop_bit 3 num_sect
                   in upd_fm (upd_rdd number (\<lambda>r. r\<lparr>rdd_path := path, rdd_size_in_pages := pages, rdd_meta := Some (replicate (unat pages) 0),
                                rdd_bitmap_size := pages, rdd_bitmap := (\<lambda>i. False)\<rparr>)) s))"

definition bind_set :: "kernel \<Rightarrow> dev_env \<Rightarrow> int \<Rightarrow> u64 \<Rightarrow> u64 \<Rightarrow> string \<Rightarrow> raw_sys \<Rightarrow> int \<times> raw_sys" where
  "bind_set K E number major minor path s =
     (let dev = MKDEV major minor
      in if number \<le> 0 \<or> number \<ge> MAX_DI_MMAP_MINORS then (- EINVAL, s)
         else if MAJOR dev \<noteq> major \<or> MINOR dev \<noteq> minor then (- EINVAL, s)
         else if \<not> de_capable E then (- EPERM, s)
         else if MAJOR dev = 0 \<and> dev \<noteq> 0 then (- EINVAL, s)
         else if rdd_inuse (fm_rdd (rs_fm s) (nat number)) \<noteq> 0 then (- EBUSY, s)
         else if dev = 0 then (0, bind_unset (nat number) s)
         else (0, bind_new K E (nat number) dev path s))"

definition bind_get :: "dev_env \<Rightarrow> int \<Rightarrow> raw_sys \<Rightarrow> int + u32" where
  "bind_get E number s =
     (if number \<le> 0 \<or> number \<ge> MAX_DI_MMAP_MINORS then Inl (- EINVAL)
      else Inr (case rdd_binding (fm_rdd (rs_fm s) (nat number)) of None \<Rightarrow> 0 | Some b \<Rightarrow> de_bd_dev E b))"

definition DMAP_SETBIND :: u32 where "DMAP_SETBIND = IO 0xDE 0"
definition DMAP_GETBIND :: u32 where "DMAP_GETBIND = IO 0xDE 1"

text \<open>\<open>rq\<close> is what \<^verbatim>\<open>copy_from_user\<close> yields, \<open>w\<close> whether the caller's memory can be written.\<close>

definition raw_ctl_ioctl ::
  "kernel \<Rightarrow> dev_env \<Rightarrow> u32 \<Rightarrow> dmap_config_request option \<Rightarrow> bool \<Rightarrow> raw_sys \<Rightarrow> int \<times> dmap_config_request option \<times> raw_sys" where
  "raw_ctl_ioctl K E command rq w s =
     (if command = DMAP_SETBIND then
        (case rq of None \<Rightarrow> (- EFAULT, None, s)
         | Some rq \<Rightarrow> (let (r, s) = bind_set K E (rq_raw_minor rq) (rq_block_major rq) (rq_block_minor rq) (rq_dev_path rq) s in (r, None, s)))
      else if command = DMAP_GETBIND then
        (case rq of None \<Rightarrow> (- EFAULT, None, s)
         | Some rq \<Rightarrow> (case bind_get E (rq_raw_minor rq) s of
              Inl err \<Rightarrow> (err, None, s)
            | Inr dev \<Rightarrow> if w then (0, Some (rq\<lparr>rq_block_major := MAJOR dev, rq_block_minor := MINOR dev\<rparr>), s) else (- EFAULT, None, s)))
      else (- EINVAL, None, s))"

section \<open>What working on pages leaves alone\<close>

text \<open>The members of a raw device that only binding, opening and closing change.\<close>

definition rdd_fixed :: "raw_device_data \<Rightarrow> int \<times> u32 \<times> nat option \<times> u64 \<times> u64 \<times> nat option" where
  "rdd_fixed r = (rdd_inuse r, rdd_dev_id r, rdd_binding r, rdd_size_in_pages r, rdd_bitmap_size r, map_option length (rdd_meta r))"

definition dev_frame :: "fm \<Rightarrow> fm \<Rightarrow> bool" where
  "dev_frame s s' \<longleftrightarrow> (\<forall>i. fi_pvd (fm_info s' i) = fi_pvd (fm_info s i)) \<and> (\<forall>v. pvd_fixed (fm_pvd s' v) = pvd_fixed (fm_pvd s v)) \<and>
     (\<forall>m. rdd_fixed (fm_rdd s' m) = rdd_fixed (fm_rdd s m))"

lemma dev_frame_refl [simp]: "dev_frame s s"
  by (simp add: dev_frame_def)

lemma dev_frame_trans: "dev_frame s s1 \<Longrightarrow> dev_frame s1 s2 \<Longrightarrow> dev_frame s s2"
  by (simp add: dev_frame_def)

lemma dev_frame_same: "fm_info s' = fm_info s \<Longrightarrow> fm_pvd s' = fm_pvd s \<Longrightarrow> fm_rdd s' = fm_rdd s \<Longrightarrow> dev_frame s s'"
  by (simp add: dev_frame_def)

lemma dev_frame_pvd:
  "(\<And>v. pvd_fixed (f v) = pvd_fixed v) \<Longrightarrow> dev_frame s (upd_pvd d f s)"
  by (simp add: dev_frame_def upd_pvd_def)

lemma dev_frame_fold: "(\<And>x s. dev_frame s (f x s)) \<Longrightarrow> dev_frame s (fold f xs s)"
  by (induction xs arbitrary: s) (auto intro: dev_frame_trans)

lemma upd_page_dev [simp]:
  "fm_info (upd_page p f s) = fm_info s" "fm_rdd (upd_page p f s) = fm_rdd s"
  by (simp_all add: upd_page_def)

lemma queue_ops_dev [simp]:
  "fm_info (rem_clean q p s) = fm_info s" "fm_rdd (rem_clean q p s) = fm_rdd s"
  "fm_info (rem_dirty q p s) = fm_info s" "fm_rdd (rem_dirty q p s) = fm_rdd s"
  "fm_info (free_page_lock p s) = fm_info s" "fm_rdd (free_page_lock p s) = fm_rdd s"
  "fm_info (snd (enq_clean q p s)) = fm_info s" "fm_rdd (snd (enq_clean q p s)) = fm_rdd s"
  by (simp_all add: rem_clean_def rem_dirty_def enq_clean_def free_page_lock_def Let_def split: prod.splits)

lemma bug_frame: "dev_frame s (s\<lparr>fm_bug := True\<rparr>)"
  by (rule dev_frame_same) simp_all

text \<open>Writing dirty pages leaves the free lists alone, too.\<close>

definition wd_frame :: "fm \<Rightarrow> fm \<Rightarrow> bool" where
  "wd_frame s s' \<longleftrightarrow> dev_frame s s' \<and> pm_fl s' = pm_fl s"

lemma wd_frame_refl [simp]: "wd_frame s s"
  by (simp add: wd_frame_def)

lemma wd_frame_trans: "wd_frame s s1 \<Longrightarrow> wd_frame s1 s2 \<Longrightarrow> wd_frame s s2"
  by (auto simp: wd_frame_def intro: dev_frame_trans)

lemma wd_frame_same:
  "fm_info s' = fm_info s \<Longrightarrow> fm_pvd s' = fm_pvd s \<Longrightarrow> fm_rdd s' = fm_rdd s \<Longrightarrow> pm_fl s' = pm_fl s \<Longrightarrow> wd_frame s s'"
  by (simp add: wd_frame_def dev_frame_same)

lemma wd_frame_fold: "(\<And>x s. wd_frame s (f x s)) \<Longrightarrow> wd_frame s (fold f xs s)"
  by (induction xs arbitrary: s) (auto intro: wd_frame_trans)

lemma release_cb_frame: "wd_frame s (blkdev_release_cb p s)"
  by (rule wd_frame_same) (simp_all add: blkdev_release_cb_def move_page_d2c_fifo_buffer_t_def Let_def)

lemma submit_req_frame: "wd_frame s (submit_req K r s)"
  by (rule wd_frame_same) (simp_all add: submit_req_def)

lemma wd_bug_frame: "wd_frame s (s\<lparr>fm_bug := True\<rparr>)"
  by (rule wd_frame_same) simp_all

lemma write_and_unlock_frame: "wd_frame s (write_and_unlock K d pages s)"
proof -
  have "wd_frame s (write_bio_run K p m i s)" "wd_frame s (write_file_run K p m i s)" for p m i s
    by (auto simp: write_bio_run_def write_file_run_def submit_req_frame wd_bug_frame split: option.splits)
  then have "wd_frame s (evictor_write K d pages s)"
    by (simp add: evictor_write_def write_bio_async_def write_file_async_def Let_def wd_frame_fold)
  moreover have "wd_frame x (fold (\<lambda>p. upd_page p unlock_tp) pages x)" for x
    by (rule wd_frame_fold, rule wd_frame_same) simp_all
  ultimately show ?thesis unfolding write_and_unlock_def by (rule wd_frame_trans)
qed

lemma heap_refill_frame: "heap_refill K d c (mh, s) = Some (mh', s') \<Longrightarrow> wd_frame s s'"
  by (auto simp: heap_refill_def Let_def wd_frame_def dev_frame_def upd_pvd_def pvd_fixed_def split: if_splits option.splits prod.splits)

lemma heap_fill_frame:
  "fold (\<lambda>cpu r. case r of None \<Rightarrow> None | Some ms \<Rightarrow> heap_refill K d cpu ms) cs (Some (mh, s)) = Some (mh', s') \<Longrightarrow> wd_frame s s'"
proof (induction cs arbitrary: mh s)
  case (Cons c cs)
  have none: "fold (\<lambda>cpu r. case r of None \<Rightarrow> None | Some ms \<Rightarrow> heap_refill K d cpu ms) cs None = None" by (induction cs) auto
  with Cons.prems obtain mh1 s1 where r: "heap_refill K d c (mh, s) = Some (mh1, s1)" by (cases "heap_refill K d c (mh, s)") auto
  with Cons show ?case using heap_refill_frame [OF r] by (auto intro: wd_frame_trans)
qed simp

lemma write_dirty_loop_frame:
  assumes cb: "\<And>p s. wd_frame s (cb p s)"
  shows "write_dirty_loop K d (Some cb) n lp mh s = Some (lp', s') \<Longrightarrow> wd_frame s s'"
proof (induction K d "Some cb" n lp mh s rule: write_dirty_loop.induct)
  case (2 K d n log pages mh s)
  show ?case
  proof (cases "min_heap_is_empty mh")
    case False
    with "2.prems" obtain hn mh1 where dm: "min_heap_delete_min mh = Some (hn, mh1)" by (auto split: option.splits)
    with False "2.prems" obtain mh2 s2 where rf: "heap_refill K d (hn_cpu hn) (mh1, s) = Some (mh2, s2)" by (auto split: option.splits)
    have f: "wd_frame s (cb (hn_p hn) s2)" using heap_refill_frame [OF rf] cb wd_frame_trans by blast
    show ?thesis
    proof (cases "length (pages @ [hn_p hn]) = WRITE_BATCH")
      case True
      have "wd_frame (write_and_unlock K d (pages @ [hn_p hn]) (cb (hn_p hn) s2)) s'"
        using "2.hyps"(1) [OF False dm refl rf refl refl refl refl True] "2.prems" False dm rf True by (simp add: Let_def)
      then show ?thesis using f write_and_unlock_frame wd_frame_trans by blast
    next
      case nb: False
      have "wd_frame (cb (hn_p hn) s2) s'"
        using "2.hyps"(2) [OF False dm refl rf refl refl refl refl nb] "2.prems" False dm rf nb by (simp add: Let_def)
      then show ?thesis using f wd_frame_trans by blast
    qed
  qed (use "2.prems" in simp)
qed simp

lemma write_dirty_pages_frame:
  assumes "\<And>p s. wd_frame s (cb p s)" and "write_dirty_pages K d (Some cb) s = Some (log, s')"
  shows "wd_frame s s'"
proof -
  from assms(2) obtain mh s1 where f: "heap_fill K d s = Some (mh, s1)" by (auto simp: write_dirty_pages_def split: option.splits)
  with assms(2) obtain l pages s2 where l: "write_dirty_loop K d (Some cb) (Suc (heap_size mh + tree_nodes K d s1)) ([], []) mh s1 = Some ((l, pages), s2)"
    and s': "s' = (if length pages > 0 then write_and_unlock K d pages s2 else s2)"
    by (auto simp: write_dirty_pages_def split: option.splits)
  have "wd_frame s s1" using f heap_fill_frame unfolding heap_fill_def by blast
  moreover have "wd_frame s1 s2" by (rule write_dirty_loop_frame [OF assms(1) l])
  moreover have "wd_frame s2 s'" using write_and_unlock_frame by (simp add: s')
  ultimately show ?thesis by (blast intro: wd_frame_trans)
qed

lemma raw_free_page_frame: "raw_free_page p s = Some s' \<Longrightarrow> dev_frame s s'"
  by (auto simp: raw_free_page_def Let_def intro!: dev_frame_same split: prod.splits if_splits buffer_id.splits)

lemma raw_drain_frame: "raw_drain K E d n s = Some s' \<Longrightarrow> dev_frame s s'"
proof (induction n arbitrary: s)
  case (Suc n)
  show ?case
  proof (cases "rdx_scan E (pvd_rdx (fm_pvd s d)) [0..<ncpus K]")
    case (Some cip)
    obtain c i p where cip: "cip = (c, i, p)" by (cases cip)
    let ?s = "upd_pvd d (\<lambda>v. v\<lparr>pvd_rdx := (pvd_rdx v)(c := (pvd_rdx v c)(i := None))\<rparr>) s"
    from Suc.prems Some cip obtain s1 where s1: "raw_free_page p ?s = Some s1" "raw_drain K E d n s1 = Some s'"
      by (auto simp: Let_def split: option.splits)
    have "dev_frame s ?s" by (rule dev_frame_pvd) (simp add: pvd_fixed_def)
    then show ?thesis using raw_free_page_frame [OF s1(1)] Suc.IH [OF s1(2)] by (blast intro: dev_frame_trans)
  qed (use Suc.prems in simp)
qed simp

lemma upd_rdd_frame: "(\<And>r. rdd_fixed (f r) = rdd_fixed r) \<Longrightarrow> dev_frame s (upd_rdd m f s)"
  by (simp add: dev_frame_def upd_rdd_def)

lemma raw_ioctl_frame: "raw_ioctl K B io fi c arg s = (r, out, s') \<Longrightarrow> dev_frame s s'"
proof -
  have wb: "dev_frame s (write_bit m i b s)" for m i b s
    by (auto simp: write_bit_def bug_frame set_bit_rdd_def rdd_fixed_def intro!: upd_rdd_frame)
  have wp: "dev_frame s (write_priority m i b s)" for m i b s
    by (auto simp: write_priority_def bug_frame dev_frame_def upd_rdd_def rdd_fixed_def split: option.splits)
  have ub: "dev_frame s (upd_bitmap m f s)" for m f s
    by (auto simp: upd_bitmap_def rdd_fixed_def intro!: upd_rdd_frame)
  have cp: "dev_frame s (snd (change_page_priority_fifo_buffer_t K i d n s))" for i d n s
    by (auto simp: change_page_priority_fifo_buffer_t_def intro!: dev_frame_same split: option.splits)
  have zp: "dev_frame s (snd (ioctl_zero_pages m mem n s))" for m mem n s
    by (induction m mem n s rule: ioctl_zero_pages.induct) (auto simp: bug_frame intro: dev_frame_trans [OF wb])
  have wa: "dev_frame s (snd (snd (with_arg a f s)))" if "\<And>x. dev_frame s (snd (f x s))" for a f s
    using that by (auto simp: with_arg_def split: option.splits prod.splits) (metis snd_conv)
  have fl: "dev_frame s (snd (ioctl_flip_copy m a s))" for m a s
    by (auto simp: ioctl_flip_copy_def Let_def wb intro!: dev_frame_fold)
  have sp: "dev_frame s (snd (ioctl_set_priority m a s))" "dev_frame s (snd (ioctl_write_page m b x s))"
    "dev_frame s (snd (ioctl_test_page m x s))" "dev_frame s (snd (ioctl_range m f y s))" for m a b x y f s
    by (simp_all add: ioctl_set_priority_def wp ioctl_write_page_def wb ioctl_test_page_def ioctl_range_def ub)
  have chp: "dev_frame s (snd (ioctl_change_priority K d m a s))" for d m a s
    unfolding ioctl_change_priority_def Let_def snd_conv by (rule dev_frame_trans [OF wp cp])
  have br: "dev_frame s (snd (snd (if P then a else b)))" if "dev_frame s (snd (snd a))" "dev_frame s (snd (snd b))"
    for P and a b :: "int \<times> u64 option \<times> fm" using that by simp
  have opt: "dev_frame s (snd (snd (case z of None \<Rightarrow> a | Some x \<Rightarrow> b x)))" if "dev_frame s (snd (snd a))" "\<And>x. dev_frame s (snd (snd (b x)))"
    for z :: "nat option" and a :: "int \<times> u64 option \<times> fm" and b using that by (cases z) simp_all
  have leaf: "dev_frame s (snd (snd (r, out, x)))" if "dev_frame s x" for r :: int and out :: "u64 option" and x using that by simp
  have "dev_frame s (snd (snd (raw_ioctl K B io fi c arg s)))"
    unfolding raw_ioctl_def Let_def by (intro br opt leaf wa sp chp ub zp fl bug_frame dev_frame_refl)
  then show "raw_ioctl K B io fi c arg s = (r, out, s') \<Longrightarrow> dev_frame s s'" by simp
qed

section \<open>The devices as a state machine\<close>

definition new_file :: "nat \<Rightarrow> raw_file" where
  "new_file minor = \<lparr>rf_minor = minor, rf_ctl = False, rf_direct = False, rf_mapping = None, rf_private = None\<rparr>"

text \<open>Memory that \<^verbatim>\<open>kzalloc\<close> returns is not in use by an open file.\<close>

definition alloc_fresh :: "raw_sys \<Rightarrow> nat \<Rightarrow> nat \<Rightarrow> bool" where
  "alloc_fresh s fi d \<longleftrightarrow> (\<forall>f i. rf_private (rs_file s f) = Some i \<longrightarrow> i \<noteq> fi \<and> fi_pvd (fm_info (rs_fm s) i) \<noteq> d)"

text \<open>
  The steps: opening, closing, the control device, the commands of an open device, and whatever page faults, evictors and
  synchronisation do to pages. The answers of the block layer may differ from step to step. A run
  does not go on after a binding that crashes.
\<close>

inductive raw_step :: "kernel \<Rightarrow> raw_sys \<Rightarrow> raw_sys \<Rightarrow> bool" for K where
  step_open: "rf_private (rs_file s f) = None \<Longrightarrow> alloc_fresh s fi d \<Longrightarrow>
    raw_open E f fi d (upd_file f (\<lambda>_. new_file minor) s) = (r, s') \<Longrightarrow> raw_step K s s'"
| step_release: "rf_private (rs_file s f) = Some fi \<Longrightarrow> raw_release K E f s = Some (r, s') \<Longrightarrow> raw_step K s s'"
| step_ctl: "raw_ctl_ioctl K E c rq w s = (r, out, s') \<Longrightarrow> \<not> fm_bug (rs_fm s') \<Longrightarrow> raw_step K s s'"
| step_ioctl: "rf_private (rs_file s f) = Some fi \<Longrightarrow> raw_ioctl K B io fi c arg (rs_fm s) = (r, out, x) \<Longrightarrow> raw_step K s (s\<lparr>rs_fm := x\<rparr>)"
| step_pages: "dev_frame (rs_fm s) x \<Longrightarrow> raw_step K s (s\<lparr>rs_fm := x\<rparr>)"

text \<open>After loading the module no device is bound and no file is open.\<close>

definition raw_initial :: "raw_sys \<Rightarrow> bool" where
  "raw_initial s \<longleftrightarrow> (\<forall>f. rf_private (rs_file s f) = None) \<and>
     (\<forall>m. rdd_inuse (fm_rdd (rs_fm s) m) = 0 \<and> rdd_binding (fm_rdd (rs_fm s) m) = None)"

definition open_files :: "raw_sys \<Rightarrow> nat \<Rightarrow> nat set" where
  "open_files s m = {f. rf_private (rs_file s f) \<noteq> None \<and> rf_minor (rs_file s f) = m}"

text \<open>What an open file refers to: the assertions at the start of \<^verbatim>\<open>raw_ioctl\<close>.\<close>

definition file_ok :: "raw_sys \<Rightarrow> nat \<Rightarrow> nat \<Rightarrow> bool" where
  "file_ok s f fi \<longleftrightarrow> (let m = rf_minor (rs_file s f); v = fm_pvd (rs_fm s) (fi_pvd (fm_info (rs_fm s) fi)) in
     0 < m \<and> pvd_type v = D_BLKD \<and> pvd_bk v = rdd_binding (fm_rdd (rs_fm s) m) \<and> pvd_rdd v = Some m \<and> rdd_binding (fm_rdd (rs_fm s) m) \<noteq> None)"

definition meta_ok :: "raw_device_data \<Rightarrow> bool" where
  "meta_ok r \<longleftrightarrow> (rdd_binding r \<noteq> None \<longrightarrow> map_option length (rdd_meta r) = Some (unat (rdd_size_in_pages r)) \<and> rdd_bitmap_size r = rdd_size_in_pages r)"

definition raw_inv :: "raw_sys \<Rightarrow> bool" where
  "raw_inv s \<longleftrightarrow> (\<forall>f fi. rf_private (rs_file s f) = Some fi \<longrightarrow> file_ok s f fi) \<and>
     (\<forall>f g i j. rf_private (rs_file s f) = Some i \<longrightarrow> rf_private (rs_file s g) = Some j \<longrightarrow> f \<noteq> g \<longrightarrow>
        i \<noteq> j \<and> fi_pvd (fm_info (rs_fm s) i) \<noteq> fi_pvd (fm_info (rs_fm s) j)) \<and>
     (\<forall>m. finite (open_files s m) \<and> rdd_inuse (fm_rdd (rs_fm s) m) = int (card (open_files s m))) \<and>
     (\<forall>m. meta_ok (fm_rdd (rs_fm s) m))"

lemma raw_invD:
  assumes "raw_inv s"
  shows "rf_private (rs_file s f) = Some fi \<Longrightarrow> file_ok s f fi"
    "rf_private (rs_file s f) = Some i \<Longrightarrow> rf_private (rs_file s g) = Some j \<Longrightarrow> f \<noteq> g \<Longrightarrow>
       i \<noteq> j \<and> fi_pvd (fm_info (rs_fm s) i) \<noteq> fi_pvd (fm_info (rs_fm s) j)"
    "finite (open_files s m)" "rdd_inuse (fm_rdd (rs_fm s) m) = int (card (open_files s m))" "meta_ok (fm_rdd (rs_fm s) m)"
  using assms unfolding raw_inv_def by blast+

lemma raw_invI:
  assumes "\<And>f fi. rf_private (rs_file s f) = Some fi \<Longrightarrow> file_ok s f fi"
    and "\<And>f g i j. rf_private (rs_file s f) = Some i \<Longrightarrow> rf_private (rs_file s g) = Some j \<Longrightarrow> f \<noteq> g \<Longrightarrow>
       i \<noteq> j \<and> fi_pvd (fm_info (rs_fm s) i) \<noteq> fi_pvd (fm_info (rs_fm s) j)"
    and "\<And>m. finite (open_files s m)" and "\<And>m. rdd_inuse (fm_rdd (rs_fm s) m) = int (card (open_files s m))"
    and "\<And>m. meta_ok (fm_rdd (rs_fm s) m)"
  shows "raw_inv s"
  using assms unfolding raw_inv_def by simp

lemma raw_inv_frame:
  assumes "raw_inv s" and "dev_frame (rs_fm s) x"
  shows "raw_inv (s\<lparr>rs_fm := x\<rparr>)"
proof -
  have f: "fi_pvd (fm_info x i) = fi_pvd (fm_info (rs_fm s) i)" "pvd_fixed (fm_pvd x v) = pvd_fixed (fm_pvd (rs_fm s) v)"
    "rdd_fixed (fm_rdd x m) = rdd_fixed (fm_rdd (rs_fm s) m)" for i v m using assms(2) by (simp_all add: dev_frame_def)
  then have r: "rdd_inuse (fm_rdd x m) = rdd_inuse (fm_rdd (rs_fm s) m)" "rdd_binding (fm_rdd x m) = rdd_binding (fm_rdd (rs_fm s) m)"
    "meta_ok (fm_rdd x m) = meta_ok (fm_rdd (rs_fm s) m)" for m by (simp_all add: rdd_fixed_def meta_ok_def)
  have "pvd_type (fm_pvd x v) = pvd_type (fm_pvd (rs_fm s) v)" "pvd_bk (fm_pvd x v) = pvd_bk (fm_pvd (rs_fm s) v)"
    "pvd_rdd (fm_pvd x v) = pvd_rdd (fm_pvd (rs_fm s) v)" for v using f(2) [of v] by (simp_all add: pvd_fixed_def)
  then show ?thesis using assms(1) by (simp add: raw_inv_def file_ok_def open_files_def f(1) r Let_def)
qed

text \<open>A step that changes the raw device of a minor number without open files.\<close>

lemma raw_inv_rdd:
  assumes inv: "raw_inv s" and m: "open_files s m = {}" and s': "rs_file s' = rs_file s" "fm_info (rs_fm s') = fm_info (rs_fm s)"
    "fm_pvd (rs_fm s') = fm_pvd (rs_fm s)" "fm_rdd (rs_fm s') = (fm_rdd (rs_fm s))(m := r)" and r: "rdd_inuse r = 0" "meta_ok r"
  shows "raw_inv s'"
proof -
  note D = raw_invD [OF inv]
  have "file_ok s' f fi" if "rf_private (rs_file s' f) = Some fi" for f fi
  proof -
    have "f \<notin> open_files s m" using m by simp
    then have "rf_minor (rs_file s f) \<noteq> m" using that by (simp add: open_files_def s'(1))
    then show ?thesis using D(1) [of f fi] that by (simp add: file_ok_def s')
  qed
  moreover have "open_files s' = open_files s" by (simp add: open_files_def s'(1) fun_eq_iff)
  moreover have "rdd_inuse (fm_rdd (rs_fm s') k) = int (card (open_files s k))" for k using D(4) [of k] m r(1) by (simp add: s')
  moreover have "meta_ok (fm_rdd (rs_fm s') k)" for k using D(5) r(2) by (simp add: s')
  ultimately show ?thesis using D(2,3) unfolding raw_inv_def s'(1,2) by simp
qed

lemma upd_simps [simp]:
  "rs_fm (upd_fm g s) = g (rs_fm s)" "rs_file (upd_fm g s) = rs_file s" "rs_fm (add_opens b n s) = rs_fm s" "rs_file (add_opens b n s) = rs_file s"
  "rs_fm (upd_file f h s) = rs_fm s" "rs_file (upd_file f h s) = (rs_file s)(f := h (rs_file s f))"
  "fm_rdd (upd_rdd m k x) = (fm_rdd x)(m := k (fm_rdd x m))" "fm_info (upd_rdd m k x) = fm_info x" "fm_pvd (upd_rdd m k x) = fm_pvd x"
  "fm_bug (upd_rdd m k x) = fm_bug x"
  by (simp_all add: upd_fm_def add_opens_def upd_file_def upd_rdd_def)

lemma bind_set_inv:
  assumes inv: "raw_inv s" and r: "bind_set K E number major minor path s = (r, s')" and nb: "\<not> fm_bug (rs_fm s')"
  shows "raw_inv s'"
proof (cases "s' = s")
  case False
  let ?m = "nat number"
  have u: "rdd_inuse (fm_rdd (rs_fm s) ?m) = 0" and c: "s' = bind_unset ?m s \<or> s' = bind_new K E ?m (MKDEV major minor) path s"
    using r False by (auto simp: bind_set_def Let_def split: if_splits)
  have e: "open_files s ?m = {}" using raw_invD(3,4) [OF inv, of ?m] u by simp
  show ?thesis
  proof (rule raw_inv_rdd [OF inv e, where r = "fm_rdd (rs_fm s') ?m"])
    show "rs_file s' = rs_file s" "fm_info (rs_fm s') = fm_info (rs_fm s)" "fm_pvd (rs_fm s') = fm_pvd (rs_fm s)"
      "fm_rdd (rs_fm s') = (fm_rdd (rs_fm s))(?m := fm_rdd (rs_fm s') ?m)" "rdd_inuse (fm_rdd (rs_fm s') ?m) = 0" "meta_ok (fm_rdd (rs_fm s') ?m)"
      using c u nb by (auto simp: bind_unset_def bind_new_def Let_def meta_ok_def split: option.splits if_splits)
  qed
qed (use inv in simp)

lemma raw_ctl_inv:
  assumes "raw_inv s" and "raw_ctl_ioctl K E c rq w s = (r, out, s')" and "\<not> fm_bug (rs_fm s')"
  shows "raw_inv s'"
  using assms bind_set_inv by (auto simp: raw_ctl_ioctl_def Let_def split: if_splits option.splits sum.splits prod.splits)

text \<open>Opening: an error leaves no trace, and success adds one open file with its own backing object.\<close>

lemma raw_open_cases:
  assumes "raw_open E f fi d s = (r, s')"
  obtains "r \<noteq> 0" "s' = s" | "r = 0" "rf_minor (rs_file s f) = 0" "s' = upd_file f (\<lambda>f. f\<lparr>rf_ctl := True\<rparr>) s"
  | b m rd where "r = 0" "m = rf_minor (rs_file s f)" "0 < m" "rdd_binding (fm_rdd (rs_fm s) m) = Some b"
    "rd = (fm_rdd (rs_fm s) m)\<lparr>rdd_inuse := rdd_inuse (fm_rdd (rs_fm s) m) + 1\<rparr>"
    "rs_file s' = (rs_file s)(f := (rs_file s f)\<lparr>rf_direct := True, rf_mapping := Some b, rf_private := Some fi\<rparr>)"
    "rs_fm s' = (rs_fm s)\<lparr>fm_rdd := (fm_rdd (rs_fm s))(m := rd), fm_pvd := (fm_pvd (rs_fm s))(d := new_pvd m rd),
       fm_info := (fm_info (rs_fm s))(fi := \<lparr>fi_is_fastmap = False, fi_pvd = d, fi_pve = 0\<rparr>)\<rparr>"
    "rs_opens s' = (rs_opens s)(b := rs_opens s b + 1)"
proof -
  have id: "add_opens b (- 1) (add_opens b 1 s) = s" for b by (simp add: add_opens_def)
  consider "rf_minor (rs_file s f) = 0" | "0 < rf_minor (rs_file s f)" "rdd_binding (fm_rdd (rs_fm s) (rf_minor (rs_file s f))) = None"
    | b where "0 < rf_minor (rs_file s f)" "rdd_binding (fm_rdd (rs_fm s) (rf_minor (rs_file s f))) = Some b" by fastforce
  then show ?thesis
  proof cases
    case 1
    then have "r = 0 \<and> s' = upd_file f (\<lambda>f. f\<lparr>rf_ctl := True\<rparr>) s" using assms by (simp add: raw_open_def)
    with 1 show ?thesis using that(2) by blast
  next
    case 2
    then have "r \<noteq> 0 \<and> s' = s" using assms by (auto simp: raw_open_def)
    then show ?thesis using that(1) by blast
  next
    case (3 b)
    show ?thesis
    proof (cases "de_blkdev_get E b = 0 \<and> de_set_blocksize E b = 0")
      case True
      show ?thesis by (rule that(3) [OF _ refl 3 refl]) (use assms 3 True in \<open>auto simp: raw_open_def Let_def add_opens_def upd_file_def upd_fm_def upd_rdd_def upd_pvd_def\<close>)
    next
      case False
      then have "r \<noteq> 0 \<and> s' = s" using assms 3 id by (auto simp: raw_open_def Let_def split: if_splits)
      then show ?thesis using that(1) by blast
    qed
  qed
qed

section \<open>Every step keeps the invariant of the devices\<close>

lemma raw_open_inv:
  assumes inv: "raw_inv s" and f: "rf_private (rs_file s f) = None" and al: "alloc_fresh s fi d"
    and r: "raw_open E f fi d (upd_file f (\<lambda>_. new_file minor) s) = (r, s')"
  shows "raw_inv s'"
proof -
  let ?s = "upd_file f (\<lambda>_. new_file minor) s"
  note D = raw_invD [OF inv]
  have no: "rf_private (new_file minor) = None" by (simp add: new_file_def)
  have of: "open_files (upd_file f h x) = open_files s" if "rf_private (h (rs_file x f)) = None" "\<And>g. g \<noteq> f \<Longrightarrow> rs_file x g = rs_file s g" for h x
    using f that by (auto simp: open_files_def fun_eq_iff)
  have closed: "raw_inv x" if x: "rs_fm x = rs_fm s" "rf_private (rs_file x f) = None" "\<And>g. g \<noteq> f \<Longrightarrow> rs_file x g = rs_file s g" for x
  proof -
    have "rs_file x g = rs_file s g" if "rf_private (rs_file x g) = Some i" for g i using that x(2,3) by (cases "g = f") auto
    then have p: "file_ok x g i" "rf_private (rs_file s g) = Some i" if "rf_private (rs_file x g) = Some i" for g i
      using D(1) [of g i] that by (simp_all add: file_ok_def x(1))
    have ox: "open_files x = open_files s" using of [of "\<lambda>y. y" x] x by (simp add: upd_file_def)
    show ?thesis
      by (rule raw_invI) (simp_all only: x(1) ox p(1) D(3-5), erule (1) D(2) [OF p(2) p(2)])
  qed
  from r show ?thesis
  proof (cases rule: raw_open_cases)
    case 1
    then show ?thesis using closed [of ?s] no by simp
  next
    case 2
    then show ?thesis using closed [of s'] no by simp
  next
    case (3 b m rd)
    have m: "m = minor" using 3(2) by (simp add: new_file_def)
    have fl: "rs_file s' = (rs_file s)(f := (new_file minor)\<lparr>rf_direct := True, rf_mapping := Some b, rf_private := Some fi\<rparr>)" using 3(6) by simp
    have fm: "rs_fm s' = (rs_fm s)\<lparr>fm_rdd := (fm_rdd (rs_fm s))(m := rd), fm_pvd := (fm_pvd (rs_fm s))(d := new_pvd m rd),
       fm_info := (fm_info (rs_fm s))(fi := \<lparr>fi_is_fastmap = False, fi_pvd = d, fi_pve = 0\<rparr>)\<rparr>" using 3(7) by simp
    have rd: "rd = (fm_rdd (rs_fm s) m)\<lparr>rdd_inuse := rdd_inuse (fm_rdd (rs_fm s) m) + 1\<rparr>" "rdd_binding rd = Some b" using 3(4,5) by simp_all
    have old: "rf_private (rs_file s g) = Some i \<and> i \<noteq> fi \<and> fi_pvd (fm_info (rs_fm s) i) \<noteq> d"
      if "rf_private (rs_file s' g) = Some i" "g \<noteq> f" for g i using that al by (simp add: fl alloc_fresh_def)
    have "file_ok s' g i" if g: "rf_private (rs_file s' g) = Some i" for g i
    proof (cases "g = f")
      case True
      then show ?thesis using g rd(2) 3(3) m by (simp add: file_ok_def fl fm new_file_def new_pvd_def pvd_fixed_def)
    next
      case False
      then show ?thesis using old [OF g False] D(1) [of g i] by (auto simp add: file_ok_def fl fm rd(1) Let_def)
    qed
    moreover have "i \<noteq> j \<and> fi_pvd (fm_info (rs_fm s') i) \<noteq> fi_pvd (fm_info (rs_fm s') j)"
      if "rf_private (rs_file s' g) = Some i" "rf_private (rs_file s' h) = Some j" "g \<noteq> h" for g h i j
    proof (cases "g = f \<or> h = f")
      case True
      then show ?thesis using that old [of g i] old [of h j] by (auto simp: fl fm)
    next
      case False
      then show ?thesis using that old [of g i] old [of h j] D(2) [of g i h j] by (simp add: fm)
    qed
    moreover have of': "open_files s' k = (if k = m then insert f (open_files s k) else open_files s k)" for k
      using f by (auto simp: open_files_def fl m new_file_def)
    have "f \<notin> open_files s m" using f by (simp add: open_files_def)
    then have "finite (open_files s' k) \<and> rdd_inuse (fm_rdd (rs_fm s') k) = int (card (open_files s' k))" for k
      using D(3,4) [of k] by (auto simp: of' fm rd(1))
    moreover have "meta_ok (fm_rdd (rs_fm s') k)" for k using D(5) [of k] by (auto simp: fm rd(1) meta_ok_def)
    ultimately show ?thesis unfolding raw_inv_def by blast
  qed
qed

text \<open>Closing: the file is gone, and nothing that other files refer to has changed.\<close>

lemma raw_release_effect:
  assumes "rf_private (rs_file s f) = Some fi" and "raw_release K E f s = Some (r, s')"
  obtains x b where "dev_frame (rs_fm s) x" "r = 0" "rs_file s' = (rs_file s)(f := (rs_file s f)\<lparr>rf_private := None\<rparr>)"
    "rs_fm s' = (upd_rdd (rf_minor (rs_file s f)) (\<lambda>r. r\<lparr>rdd_inuse := rdd_inuse r - 1\<rparr>) x)\<lparr>fm_bug := b\<rparr>"
proof -
  let ?d = "fi_pvd (fm_info (rs_fm s) fi)" and ?m = "rf_minor (rs_file s f)"
  from assms obtain log x1 where w: "write_dirty_pages K ?d (Some blkdev_release_cb) (rs_fm s) = Some (log, x1)"
    by (auto simp: raw_release_def Let_def split: option.splits)
  with assms obtain x where d: "raw_drain K E ?d (Suc (pm_total x1)) x1 = Some x"
    by (auto simp: raw_release_def Let_def split: option.splits)
  have fr: "dev_frame (rs_fm s) x"
    using write_dirty_pages_frame [OF release_cb_frame w] raw_drain_frame [OF d] dev_frame_trans unfolding wd_frame_def by blast
  show ?thesis
  proof (rule that [OF fr])
    show "r = 0" "rs_file s' = (rs_file s)(f := (rs_file s f)\<lparr>rf_private := None\<rparr>)"
      using assms w d by (auto simp: raw_release_def Let_def split: option.splits)
    show "rs_fm s' = (upd_rdd ?m (\<lambda>r. r\<lparr>rdd_inuse := rdd_inuse r - 1\<rparr>) x)\<lparr>fm_bug := fm_bug (rs_fm s')\<rparr>"
      using assms w d by (auto simp: raw_release_def Let_def upd_rdd_def split: option.splits)
  qed
qed

lemma raw_release_inv:
  assumes inv: "raw_inv s" and f: "rf_private (rs_file s f) = Some fi" and r: "raw_release K E f s = Some (r, s')"
  shows "raw_inv s'"
proof -
  let ?m = "rf_minor (rs_file s f)"
  obtain x b where fr: "dev_frame (rs_fm s) x" and fl: "rs_file s' = (rs_file s)(f := (rs_file s f)\<lparr>rf_private := None\<rparr>)"
    and fm: "rs_fm s' = (upd_rdd ?m (\<lambda>r. r\<lparr>rdd_inuse := rdd_inuse r - 1\<rparr>) x)\<lparr>fm_bug := b\<rparr>" using raw_release_effect [OF f r] .
  note D = raw_invD [OF raw_inv_frame [OF inv fr], simplified]
  have old: "g \<noteq> f \<and> rf_private (rs_file s g) = Some i" if "rf_private (rs_file s' g) = Some i" for g i
    using that by (cases "g = f") (simp_all add: fl)
  have "file_ok s' g i" if "rf_private (rs_file s' g) = Some i" for g i
    using old [OF that] D(1) [of g i] by (auto simp: file_ok_def fl fm Let_def)
  moreover have "i \<noteq> j \<and> fi_pvd (fm_info (rs_fm s') i) \<noteq> fi_pvd (fm_info (rs_fm s') j)"
    if "rf_private (rs_file s' g) = Some i" "rf_private (rs_file s' h) = Some j" "g \<noteq> h" for g h i j
    using old [OF that(1)] old [OF that(2)] that(3) D(2) [of g i h j] by (simp add: fm)
  moreover have of': "open_files s' k = (if k = ?m then open_files s k - {f} else open_files s k)" for k
    using f by (auto simp: open_files_def fl split: if_splits)
  have fin: "finite (open_files s k)" "rdd_inuse (fm_rdd x k) = int (card (open_files s k))" for k using D(3,4) [of k] by (simp_all add: open_files_def)
  have "f \<in> open_files s ?m" using f by (simp add: open_files_def)
  then have "0 < card (open_files s ?m)" using fin(1) by (auto simp: card_gt_0_iff)
  then have "finite (open_files s' k) \<and> rdd_inuse (fm_rdd (rs_fm s') k) = int (card (open_files s' k))" for k
    using fin [of k] \<open>f \<in> open_files s ?m\<close> by (auto simp: of' fm)
  moreover have "meta_ok (fm_rdd (rs_fm s') k)" for k using D(5) [of k] by (auto simp: fm meta_ok_def)
  ultimately show ?thesis unfolding raw_inv_def by blast
qed

inductive_cases raw_stepE: "raw_step K s s'"

interpretation devices: inductive_invariant raw_initial "raw_step K" raw_inv for K
proof
  fix s assume "raw_initial s"
  then show "raw_inv s" by (simp add: raw_initial_def raw_inv_def open_files_def meta_ok_def)
next
  fix s s' assume inv: "raw_inv s" and "raw_step K s s'"
  from this(2) show "raw_inv s'"
  proof (cases rule: raw_step.cases)
    case (step_open f fi d E minor r)
    then show ?thesis using raw_open_inv [OF inv] by blast
  next
    case (step_release f fi E r)
    then show ?thesis using raw_release_inv [OF inv] by blast
  next
    case (step_ctl E c rq w r out)
    then show ?thesis using raw_ctl_inv [OF inv] by blast
  next
    case (step_ioctl f fi B io c arg r out x)
    then show ?thesis using raw_inv_frame [OF inv] raw_ioctl_frame by blast
  next
    case (step_pages x)
    then show ?thesis using raw_inv_frame [OF inv] by blast
  qed
qed

section \<open>Properties of the devices\<close>

lemma file_okD:
  assumes "file_ok s f fi" and "m = rf_minor (rs_file s f)" and "v = fm_pvd (rs_fm s) (fi_pvd (fm_info (rs_fm s) fi))"
  shows "0 < m" "pvd_type v = D_BLKD" "pvd_rdd v = Some m" "pvd_bk v = rdd_binding (fm_rdd (rs_fm s) m)" "rdd_binding (fm_rdd (rs_fm s) m) \<noteq> None"
  using assms by (simp_all add: file_ok_def pvd_fixed_def Let_def)

lemma bind_set_busy:
  assumes "rdd_inuse (fm_rdd (rs_fm s) m) \<noteq> 0"
  shows "\<exists>r<0. bind_set K E (int m) major minor path s = (r, s)"
  using assms by (auto simp: bind_set_def Let_def)


lemma unat_less_exp: "unat (w :: u64) < 2 ^ k \<longleftrightarrow> (\<forall>n. bit w n \<longrightarrow> n < k)"
proof -
  have "bit w n \<longleftrightarrow> bit (unat w) n" for n using bit_imp_le_length [of w n] by (auto simp: bit_unsigned_iff)
  then show ?thesis by (auto simp: bit_eq_iff bit_take_bit_iff simp flip: take_bit_nat_eq_self_iff)
qed

lemma minor_mask: "d AND 0xFFFFF = (take_bit 20 d :: u32)"
  by (simp add: take_bit_eq_mask mask_eq_exp_minus_1)

lemma mkdev_fields:
  "MAJOR (MKDEV ma mi) = ma \<and> MINOR (MKDEV ma mi) = mi \<longleftrightarrow> ma < 2 ^ 12 \<and> mi < 2 ^ 20"
proof
  assume a: "MAJOR (MKDEV ma mi) = ma \<and> MINOR (MKDEV ma mi) = mi"
  have "unat (MAJOR d) < 2 ^ 12" "unat (MINOR d) < 2 ^ 20" for d
    unfolding unat_less_exp by (auto simp: MAJOR_def MINOR_def minor_mask bit_simps dest: bit_imp_le_length [of d])
  from this [of "MKDEV ma mi"] a show "ma < 2 ^ 12 \<and> mi < 2 ^ 20" by (simp add: word_less_nat_alt)
next
  assume "ma < 2 ^ 12 \<and> mi < 2 ^ 20"
  then have "unat ma < 2 ^ 12" "unat mi < 2 ^ 20" by (simp_all add: word_less_nat_alt)
  then have b: "bit ma n \<Longrightarrow> n < 12" "bit mi n \<Longrightarrow> n < 20" for n unfolding unat_less_exp by blast+
  have "MAJOR (MKDEV ma mi) = ma" by (rule bit_word_eqI) (auto simp: MAJOR_def MKDEV_def bit_simps dest: b)
  moreover have "MINOR (MKDEV ma mi) = mi" by (rule bit_word_eqI) (auto simp: MINOR_def MKDEV_def minor_mask bit_simps dest: b)
  ultimately show "MAJOR (MKDEV ma mi) = ma \<and> MINOR (MKDEV ma mi) = mi" ..
qed
text \<open>
  C39. Binding takes effect for a device number of at most 12 major and 20 minor bits: the control device then reports
  exactly the numbers that were bound, the device has an eighth of the capacity in sectors as pages and none of them is marked. A
  request that fails changes nothing.
\<close>

theorem bind_get_round_trip:
  assumes "bind_set K E (rq_raw_minor rq) ma mi path s = (r, s')" and "de_bdget E (MKDEV ma mi) = Some b"
    and "de_bd_dev E b = MKDEV ma mi" and "\<not> fm_bug (rs_fm s')" and "n = nat (rq_raw_minor rq)"
  shows "if r = 0
    then ma < 2 ^ 12 \<and> mi < 2 ^ 20 \<and>
      raw_ctl_ioctl K E DMAP_GETBIND (Some rq) True s' = (0, Some (rq\<lparr>rq_block_major := ma, rq_block_minor := mi\<rparr>), s') \<and>
      (MKDEV ma mi \<noteq> 0 \<longrightarrow> rdd_binding (fm_rdd (rs_fm s') n) = Some b \<and> marked (fm_rdd (rs_fm s') n) = {} \<and>
         rdd_bitmap_size (fm_rdd (rs_fm s') n) = drop_bit 3 (k_capacity K b))
    else s' = s"
proof (cases "r = 0")
  case True
  let ?n = "rq_raw_minor rq" and ?d = "MKDEV ma mi"
  have c: "0 < ?n" "?n < MAX_DI_MMAP_MINORS" "MAJOR ?d = ma" "MINOR ?d = mi" "s' = (if ?d = 0 then bind_unset n s else bind_new K E n ?d path s)"
    using assms(1,5) True by (auto simp: bind_set_def Let_def split: if_splits)
  have num: "ma < 2 ^ 12 \<and> mi < 2 ^ 20" using mkdev_fields c(3,4) by blast
  have "bind_get E ?n s' = Inr ?d \<and> (?d \<noteq> 0 \<longrightarrow> rdd_binding (fm_rdd (rs_fm s') n) = Some b \<and> marked (fm_rdd (rs_fm s') n) = {} \<and>
      rdd_bitmap_size (fm_rdd (rs_fm s') n) = drop_bit 3 (k_capacity K b))"
  proof (cases "?d = 0")
    case True
    then have "rdd_binding (fm_rdd (rs_fm s') n) = None" using c(5) assms(4) by (auto simp: bind_unset_def split: option.splits)
    then show ?thesis using c(1,2) True assms(5) by (simp add: bind_get_def)
  next
    case False
    then have "fm_rdd (rs_fm s') n = (fm_rdd (rs_fm s) n)\<lparr>rdd_binding := Some b, rdd_dev_id := ?d, rdd_path := path,
        rdd_size_in_pages := drop_bit 3 (k_capacity K b), rdd_meta := Some (replicate (unat (drop_bit 3 (k_capacity K b))) 0),
        rdd_bitmap_size := drop_bit 3 (k_capacity K b), rdd_bitmap := (\<lambda>i. False)\<rparr>"
      using c(5) assms(2,4) by (auto simp: bind_new_def Let_def split: if_splits)
    then show ?thesis using c(1,2) assms(3,5) by (simp add: bind_get_def marked_def)
  qed
  moreover have "DMAP_GETBIND \<noteq> DMAP_SETBIND" by (simp add: DMAP_GETBIND_def DMAP_SETBIND_def IOC_def)
  ultimately show ?thesis using True num c(3,4) by (simp add: raw_ctl_ioctl_def)
next
  case False
  then show ?thesis using assms(1) by (auto simp: bind_set_def Let_def split: if_splits)
qed

section \<open>A run\<close>

definition first_slot :: "(u64 \<Rightarrow> pid option) \<Rightarrow> u64 option" where
  "first_slot m = (if \<exists>i. m i \<noteq> None then Some (LEAST i. m i \<noteq> None) else None)"

lemma first_slot_ok: "rdx_first_ok first_slot"
proof -
  have "case first_slot m of None \<Rightarrow> \<forall>i. m i = None | Some i \<Rightarrow> m i \<noteq> None \<and> (\<forall>j<i. m j = None)" for m :: "u64 \<Rightarrow> pid option"
  proof (cases "\<exists>i. m i \<noteq> None")
    case True
    then have "m (LEAST i. m i \<noteq> None) \<noteq> None" by (rule LeastI_ex)
    moreover have "m j = None" if "j < (LEAST i. m i \<noteq> None)" for j using not_less_Least [OF that] by simp
    ultimately show ?thesis using True by (simp add: first_slot_def)
  qed (simp add: first_slot_def)
  then show ?thesis by (simp add: rdx_first_ok_def)
qed

text \<open>A system with block device 0 as 8:16, and a run that binds minor 1 to it and opens it.\<close>

definition env_example :: dev_env where
  "env_example = \<lparr>de_bdget = (\<lambda>d. Some 0), de_bd_dev = (\<lambda>b. MKDEV 8 16), de_disk = (\<lambda>b. True), de_blkdev_get = (\<lambda>b. 0),
     de_set_blocksize = (\<lambda>b. 0), de_capable = True, de_rdx_first = first_slot\<rparr>"

definition raw_example :: raw_sys where
  "raw_example = \<lparr>rs_fm = fm_example\<lparr>fm_rdd := (\<lambda>m. \<lparr>rdd_inuse = 0, rdd_dev_id = 0, rdd_binding = None, rdd_meta = None, rdd_size_in_pages = 0,
       rdd_bitmap_size = 0, rdd_bitmap = (\<lambda>i. False), rdd_path = []\<rparr>)\<rparr>, rs_file = (\<lambda>f. new_file 0), rs_opens = (\<lambda>b. 0), rs_imapping = (\<lambda>m. None)\<rparr>"

definition rq_example :: dmap_config_request where
  "rq_example = \<lparr>rq_raw_minor = 1, rq_block_major = 8, rq_block_minor = 16, rq_dev_path = ''/dev/sdb''\<rparr>"

definition raw_bound :: raw_sys where
  "raw_bound = snd (bind_set kernel_example env_example 1 8 16 ''/dev/sdb'' raw_example)"

definition raw_opened :: raw_sys where
  "raw_opened = snd (raw_open env_example 0 5 6 (upd_file 0 (\<lambda>_. new_file 1) raw_bound))"

lemma mkdev_8_16: "MKDEV 8 16 = 0x800010" "MAJOR 0x800010 = 8" "MINOR 0x800010 = 16"
  by (simp_all add: MKDEV_def MAJOR_def MINOR_def)

lemma raw_bound_eq: "bind_set kernel_example env_example 1 8 16 ''/dev/sdb'' raw_example = (0, raw_bound)"
  by (simp add: raw_bound_def bind_set_def Let_def mkdev_8_16 MAX_DI_MMAP_MINORS_def env_example_def raw_example_def)

lemma raw_bound_simps: "rs_file raw_bound = (\<lambda>f. new_file 0)" "\<not> fm_bug (rs_fm raw_bound)" "rdd_binding (fm_rdd (rs_fm raw_bound) 1) = Some 0"
  by (simp_all add: raw_bound_def bind_set_def Let_def mkdev_8_16 MAX_DI_MMAP_MINORS_def env_example_def raw_example_def bind_new_def PATH_LEN_def fm_example_def)

lemma raw_opened_eq: "raw_open env_example 0 5 6 (upd_file 0 (\<lambda>_. new_file 1) raw_bound) = (0, raw_opened)"
  using raw_bound_simps(3) [unfolded One_nat_def] by (simp add: raw_opened_def raw_open_def Let_def new_file_def env_example_def)

lemma raw_opened_file: "rf_private (rs_file raw_opened 0) = Some 5" "rf_minor (rs_file raw_opened 0) = Suc 0"
  using raw_bound_simps(3) [unfolded One_nat_def] by (simp_all add: raw_opened_def raw_open_def Let_def new_file_def env_example_def)

lemma raw_opened_reach: "reach raw_initial (raw_step kernel_example) raw_opened"
proof -
  have "raw_initial raw_example" by (simp add: raw_initial_def raw_example_def new_file_def)
  then have r0: "reach raw_initial (raw_step kernel_example) raw_example" by (rule reach_init)
  have "raw_ctl_ioctl kernel_example env_example DMAP_SETBIND (Some rq_example) True raw_example = (0, None, raw_bound)"
    by (simp add: raw_ctl_ioctl_def rq_example_def raw_bound_eq)
  then have "raw_step kernel_example raw_example raw_bound" using raw_bound_simps(2) by (rule step_ctl)
  then have r1: "reach raw_initial (raw_step kernel_example) raw_bound" by (rule reach_step [OF r0])
  have "raw_step kernel_example raw_bound raw_opened"
    by (rule step_open [OF _ _ raw_opened_eq]) (simp_all add: raw_bound_simps(1) new_file_def alloc_fresh_def)
  then show ?thesis by (rule reach_step [OF r1])
qed


theorem bind_get_round_trip_witness:
  "raw_ctl_ioctl kernel_example env_example DMAP_GETBIND (Some rq_example) True raw_bound = (0, Some rq_example, raw_bound)"
proof -
  have b: "bind_set kernel_example env_example (rq_raw_minor rq_example) 8 16 ''/dev/sdb'' raw_example = (0, raw_bound)"
    using raw_bound_eq by (simp add: rq_example_def)
  have "de_bdget env_example (MKDEV 8 16) = Some 0" "de_bd_dev env_example 0 = MKDEV 8 16" by (simp_all add: env_example_def)
  from bind_get_round_trip [OF b this raw_bound_simps(2) refl] show ?thesis by (simp add: rq_example_def)
qed

end
