(* ===== verification/Vma_Ops.thy ===== *)
theory Vma_Ops
  imports Fault_Progress
begin

text \<open>
  The rest of the operations of a mapped region in \<^verbatim>\<open>mmap_fault_handler.c\<close>: \<^verbatim>\<open>perma_vma_open\<close>,
  \<^verbatim>\<open>perma_vma_close\<close>, \<^verbatim>\<open>perma_split\<close> and \<^verbatim>\<open>perma_mremap\<close>, the two \<^verbatim>\<open>mmap\<close> operations, and the functions that
  forward to the buffer.
\<close>

section \<open>Opening and closing\<close>

text \<open>
  \<open>new_pve\<close> is the entry \<^verbatim>\<open>kmem_cache_alloc\<close> returns; its reference count and lists are what the slab
  object holds: the constructor ran when the slab was made, not at each allocation.
\<close>

definition pve_init_once :: "kernel \<Rightarrow> pr_vma_entry \<Rightarrow> pr_vma_entry" where
  "pve_init_once K e =
     e\<lparr>pve_mapped := (\<lambda>c. if c < ncpus K then [] else pve_mapped e c), pve_refcount := 1,
       pve_vm_start := 0, pve_vm_end := 0\<rparr>"

definition perma_vma_open :: "u64 \<Rightarrow> nat \<Rightarrow> fm \<Rightarrow> fm" where
  "perma_vma_open vma new_pve s =
     (let v = fm_vma s vma;
          i = vma_info v;
          pvd = fi_pvd (fm_info s i);
          s = (if fi_is_fastmap (fm_info s i)
               then upd_pve (fi_pve (fm_info s i)) (\<lambda>e. e\<lparr>pve_refcount := pve_refcount e + 1\<rparr>) s
               else let s = upd_pve new_pve (\<lambda>e. e\<lparr>pve_vm_start := vma_start v, pve_vm_end := vma_end v\<rparr>) s
                    in s\<lparr>fm_info := (fm_info s)(i := \<lparr>fi_is_fastmap = True, fi_pvd = pvd, fi_pve = new_pve\<rparr>)\<rparr>)
      in upd_pvd pvd (\<lambda>d. d\<lparr>pvd_vma_count := pvd_vma_count d + 1, pvd_cnt := pvd_cnt d + 1\<rparr>) s)"

text \<open>\<^verbatim>\<open>pop_one_pvr\<close>: the first entry of the first list that is not empty.\<close>

fun pop_scan :: "nat \<Rightarrow> nat list \<Rightarrow> fm \<Rightarrow> (pid \<times> nat) option \<times> fm" where
  "pop_scan pve [] s = (None, s)"
| "pop_scan pve (cpu # cpus) s =
     (case pve_mapped (fm_pve s pve) cpu of
        [] \<Rightarrow> pop_scan pve cpus s
      | x # xs \<Rightarrow> (Some x, upd_pve pve (\<lambda>e. e\<lparr>pve_mapped := (pve_mapped e)(cpu := xs)\<rparr>) s))"

definition pop_one_pvr :: "kernel \<Rightarrow> nat \<Rightarrow> fm \<Rightarrow> (pid \<times> nat) option \<times> fm" where
  "pop_one_pvr K pve s = pop_scan pve [0..<ncpus K] s"

text \<open>
  The body of the loop of \<^verbatim>\<open>__pve_release\<close> for the entry \<open>(p, i)\<close>: the local variables are the VMA of the
  first entry and the two ends of the range to flush.
\<close>

definition release_pvr :: "kernel \<Rightarrow> pid \<Rightarrow> nat \<Rightarrow> u64 option \<times> u64 \<times> u64 \<times> fm \<Rightarrow> u64 option \<times> u64 \<times> u64 \<times> fm" where
  "release_pvr K p i = (\<lambda>(vma, start, stop, s).
     let s = upd_rmap p i pvr_mk_invalid s;
         pvr = rmap_of s p i;
         vma = (case vma of None \<Rightarrow> Some (pvr_get_vma pvr) | Some v \<Rightarrow> Some v);
         mm = vma_mm (fm_vma s (pvr_get_vma pvr));
         address = pvr_get_vaddr pvr
     in case k_walk K (fm_pte s) mm address p of
          None \<Rightarrow> (vma, start, stop, s)
        | Some entry \<Rightarrow>
            (let s = s\<lparr>fm_pte := (fm_pte s)((mm, address) := None)\<rparr>;
                 s = (if pte_dirty entry then upd_page p (tp_set_pg_dirty True) s else s);
                 s = s\<lparr>fm_rss := (fm_rss s)(mm := fm_rss s mm - 1)\<rparr>;
                 start = (if address > start then address else start);
                 stop = (if address < stop then address else stop)
             in (vma, start, stop, s)))"

text \<open>The loop ends when the lists are empty; each round takes one entry, so \<open>n\<close> counts the entries.\<close>

fun pve_release_loop :: "kernel \<Rightarrow> nat \<Rightarrow> nat \<Rightarrow> u64 option \<times> u64 \<times> u64 \<times> fm \<Rightarrow> u64 option \<times> u64 \<times> u64 \<times> fm" where
  "pve_release_loop K pve 0 st = st"
| "pve_release_loop K pve (Suc n) (vma, start, stop, s) =
     (case pop_one_pvr K pve s of
        (None, s) \<Rightarrow> (vma, start, stop, s)
      | (Some (p, i), s) \<Rightarrow> pve_release_loop K pve n (release_pvr K p i (vma, start, stop, s)))"

definition pve_entries :: "kernel \<Rightarrow> nat \<Rightarrow> fm \<Rightarrow> nat" where
  "pve_entries K pve s = sum_list (map (\<lambda>c. length (pve_mapped (fm_pve s pve) c)) [0..<ncpus K])"

definition pve_release :: "kernel \<Rightarrow> nat \<Rightarrow> fm \<Rightarrow> fm" where
  "pve_release K pve s =
     (let (vma, start, stop, s) = pve_release_loop K pve (Suc (pve_entries K pve s)) (None, 0, UINT_MAX, s)
      in case vma of
           None \<Rightarrow> s
         | Some v \<Rightarrow> log_flush (Flush_range (vma_mm (fm_vma s v)) start (stop + PAGE_SIZE)) s)"

text \<open>\<^verbatim>\<open>kref_put\<close> calls the release function and returns 1 when the count reaches zero.\<close>

definition perma_vma_close :: "kernel \<Rightarrow> u64 \<Rightarrow> fm \<Rightarrow> fm" where
  "perma_vma_close K vma s =
     (let i = vma_info (fm_vma s vma);
          pve = fi_pve (fm_info s i);
          s = upd_pve pve (\<lambda>e. e\<lparr>pve_refcount := pve_refcount e - 1\<rparr>) s
      in if pve_refcount (fm_pve s pve) = 0
         then let s = pve_release K pve s
              in s\<lparr>fm_info := (fm_info s)(i := (fm_info s i)\<lparr>fi_is_fastmap := False\<rparr>)\<rparr>
         else s)"

section \<open>Splitting and moving\<close>

definition perma_split :: "u64 \<Rightarrow> u64 \<Rightarrow> fm \<Rightarrow> int \<times> fm" where
  "perma_split area addr s = (0, s)"

text \<open>The first invalid entry of a page, and what \<^verbatim>\<open>perma_mremap\<close> does for an entry of the old region.\<close>

fun first_invalid :: "pr_vma_rmap list \<Rightarrow> nat \<Rightarrow> nat option" where
  "first_invalid [] i = None"
| "first_invalid (r # rs) i = (if \<not> pvr_is_valid r then Some i else first_invalid rs (i + 1))"

definition move_pvr :: "nat \<Rightarrow> u64 \<Rightarrow> nat \<Rightarrow> bool \<Rightarrow> u64 \<Rightarrow> pid \<times> nat \<Rightarrow> fm \<Rightarrow> fm" where
  "move_pvr my_cpu area new_pve new_is_higher diff = (\<lambda>(p, j) s.
     case first_invalid (tp_rmap (pm_pages s p)) 0 of
       None \<Rightarrow> s\<lparr>fm_bug := True\<rparr>
     | Some i \<Rightarrow>
         (let vaddr = pvr_get_vaddr (rmap_of s p j);
              s = upd_rmap p i (\<lambda>r. pvr_set_idx (pvr_mk_valid r) (word_of_nat i)) s;
              s = upd_rmap p i (\<lambda>r. pvr_set_cpu (pvr_set_vma (pvr_set_vaddr (pvr_mk_valid r)
                    (if new_is_higher then vaddr + diff else vaddr - diff)) area) 0) s;
              s = link_mapped new_pve my_cpu p i s
          in upd_rmap p i (\<lambda>r. pvr_set_cpu r (word_of_nat my_cpu)) s))"

text \<open>The list of a CPU is walked while entries are appended to the lists of the new region only.\<close>

definition perma_mremap :: "kernel \<Rightarrow> nat \<Rightarrow> u64 \<Rightarrow> nat \<Rightarrow> fm \<Rightarrow> int \<times> fm" where
  "perma_mremap K my_cpu area new_pve s =
     (let v = fm_vma s area;
          i = vma_info v;
          old_pve = fi_pve (fm_info s i);
          old_start = pve_vm_start (fm_pve s old_pve);
          new_is_higher = (vma_start v > old_start);
          diff = (if new_is_higher then vma_start v - old_start else old_start - vma_start v);
          s = upd_pve new_pve (\<lambda>e. e\<lparr>pve_vm_start := vma_start v, pve_vm_end := vma_end v\<rparr>) s;
          s = fold (\<lambda>cpu s. fold (move_pvr my_cpu area new_pve new_is_higher diff)
                              (pve_mapped (fm_pve s old_pve) cpu) s) [0..<ncpus K] s
      in (0, s\<lparr>fm_info := (fm_info s)(i := (fm_info s i)\<lparr>fi_pve := new_pve\<rparr>)\<rparr>))"

section \<open>Mapping a device or a file\<close>

definition VM_WRITE :: u64 where "VM_WRITE = 0x2"
definition VM_SHARED :: u64 where "VM_SHARED = 0x8"
definition VM_SEQ_READ :: u64 where "VM_SEQ_READ = 0x8000"
definition VM_RAND_READ :: u64 where "VM_RAND_READ = 0x10000"
definition VM_MIXEDMAP :: u64 where "VM_MIXEDMAP = 0x10000000"

definition upd_vma :: "u64 \<Rightarrow> (vm_area \<Rightarrow> vm_area) \<Rightarrow> fm \<Rightarrow> fm" where
  "upd_vma v f s = s\<lparr>fm_vma := (fm_vma s)(v := f (fm_vma s v))\<rparr>"

text \<open>\<open>info\<close> is the \<^verbatim>\<open>fastmap_info\<close> of the open file.\<close>

definition dmap_mmap_blockdev :: "nat \<Rightarrow> u64 \<Rightarrow> nat \<Rightarrow> fm \<Rightarrow> int \<times> fm" where
  "dmap_mmap_blockdev info vma new_pve s =
     (let s = upd_vma vma (\<lambda>v. v\<lparr>vma_flags := (vma_flags v AND NOT VM_SEQ_READ) OR VM_RAND_READ\<rparr>) s;
          s = upd_vma vma (\<lambda>v. v\<lparr>vma_info := info\<rparr>) s;
          s = upd_vma vma (\<lambda>v. v\<lparr>vma_flags := vma_flags v OR VM_MIXEDMAP\<rparr>) s
      in (0, perma_vma_open vma new_pve s))"

text \<open>The access times and the operation tables (\<^verbatim>\<open>vm_ops\<close>, \<^verbatim>\<open>a_ops\<close>) are not part of the state.\<close>

definition dmap_mmap_file :: "kernel \<Rightarrow> nat \<Rightarrow> nat \<Rightarrow> u64 \<Rightarrow> nat \<Rightarrow> fm \<Rightarrow> int \<times> fm" where
  "dmap_mmap_file K file info vma new_pve s =
     (let flags = vma_flags (fm_vma s vma);
          willwrite = ((flags OR VM_SHARED OR VM_WRITE) = flags);
          lower_file = fm_lower s file
      in if willwrite \<and> \<not> k_writepage K lower_file then (- EINVAL, s)
         else let pvd = fi_pvd (fm_info s info);
                  s = upd_pvd pvd (\<lambda>d. d\<lparr>pvd_mmaped := 1\<rparr>) s;
                  s = upd_vma vma (\<lambda>v. v\<lparr>vma_flags := (vma_flags v AND NOT VM_SEQ_READ) OR VM_RAND_READ\<rparr>) s;
                  s = upd_vma vma (\<lambda>v. v\<lparr>vma_info := info\<rparr>) s;
                  s = upd_pvd pvd (\<lambda>d. d\<lparr>pvd_is_mmap := True\<rparr>) s;
                  s = upd_vma vma (\<lambda>v. v\<lparr>vma_flags := vma_flags v OR VM_MIXEDMAP\<rparr>) s
              in (0, perma_vma_open vma new_pve s))"

section \<open>Closing a region\<close>

lemma upd_pve_simps [simp]:
  "pm_pages (upd_pve e f s) = pm_pages s" "pm_fl (upd_pve e f s) = pm_fl s" "pm_total (upd_pve e f s) = pm_total s"
  "fb_primary (upd_pve e f s) = fb_primary s" "fb_dirty (upd_pve e f s) = fb_dirty s" "fm_pvd (upd_pve e f s) = fm_pvd s"
  "fm_pte (upd_pve e f s) = fm_pte s" "fm_vma (upd_pve e f s) = fm_vma s" "fm_info (upd_pve e f s) = fm_info s"
  "fm_pve (upd_pve e f s) = (fm_pve s)(e := f (fm_pve s e))" "fm_bug (upd_pve e f s) = fm_bug s"
  "fm_flush (upd_pve e f s) = fm_flush s"
  by (simp_all add: upd_pve_def)

lemma fm_inv_rest:
  assumes "fm_inv K s" and "pm_pages s' = pm_pages s" and "pm_fl s' = pm_fl s" and "pm_total s' = pm_total s"
    and "fb_primary s' = fb_primary s" and "fb_dirty s' = fb_dirty s" and "fm_pvd s' = fm_pvd s" and "fm_vma s' = fm_vma s"
    and "\<And>k. fm_pte s' k = None \<or> fm_pte s' k = fm_pte s k"
  shows "fm_inv K s'"
proof -
  have b: "buf_inv K (dirty_pages s) s" "map_inv s" "flags_ok s" using assms(1) by (simp_all add: fm_inv_def buf_wf_def)
  have "buf_inv K (dirty_pages s) s'" by (rule buf_inv_rest [OF b(1) assms(2-7)])
  moreover have "dirty_pages s' = dirty_pages s" by (rule dirty_pages_cong [OF assms(2)])
  moreover have "maps_page (fm_pte s) p k" if "maps_page (fm_pte s') p k" for p k
    using that assms(9) [of k] by (auto simp: maps_page_def)
  then have "map_inv s'"
    using b(2) unfolding map_inv_def rmap_of_def rmap_key_def assms(2,8) by blast
  moreover have "flags_ok s'" using b(3) by (simp only: flags_ok_def assms(2))
  ultimately show ?thesis by (simp add: fm_inv_def buf_wf_def)
qed

lemma fm_inv_pg_dirty:
  assumes "fm_inv K s" and "tp_in_use (pm_pages s p) = 1"
  shows "fm_inv K (upd_page p (tp_set_pg_dirty b) s)"
proof -
  let ?s = "upd_page p (tp_set_pg_dirty b) s" and ?t = "tp_set_pg_dirty b (pm_pages s p)"
  have i: "buf_wf K s" "map_inv s" "flags_ok s" using assms(1) by (simp_all add: fm_inv_def)
  have pg: "pm_pages ?s = (pm_pages s)(p := ?t)" by simp
  have "buf_wf K ?s" by (rule buf_wf_flags [OF i(1) assms(2)]) simp_all
  moreover have "map_inv ?s" by (rule map_inv_page [OF i(2) pg]) simp_all
  moreover have "settled ?t = settled (pm_pages s p)" "locked_tp ?t = locked_tp (pm_pages s p)"
    by (simp_all add: settled_def locked_tp_def tp_set_defs)
  then have "flags_ok ?s" using i(3) assms(2) by (intro flags_ok_page [OF i(3) pg]) (auto simp: flags_ok_def)
  ultimately show ?thesis by (simp add: fm_inv_def)
qed

lemma pop_scan_cases:
  assumes "pop_scan e cs s = (r, s')"
  shows "(r = None \<and> s' = s \<and> (\<forall>c\<in>set cs. pve_mapped (fm_pve s e) c = [])) \<or>
    (\<exists>x xs c. r = Some x \<and> c \<in> set cs \<and> pve_mapped (fm_pve s e) c = x # xs \<and>
       s' = upd_pve e (\<lambda>v. v\<lparr>pve_mapped := (pve_mapped v)(c := xs)\<rparr>) s)"
  using assms
proof (induction cs)
  case (Cons c cs)
  show ?case
  proof (cases "pve_mapped (fm_pve s e) c")
    case Nil
    with Cons.prems have "pop_scan e cs s = (r, s')" by simp
    from Cons.IH [OF this] Nil show ?thesis by auto
  next
    case l: (Cons x xs)
    with Cons.prems have "r = Some x" "s' = upd_pve e (\<lambda>v. v\<lparr>pve_mapped := (pve_mapped v)(c := xs)\<rparr>) s" by simp_all
    moreover have "c \<in> set (c # cs)" by simp
    ultimately show ?thesis using l by blast
  qed
qed simp

text \<open>The entries of a region, and what the lists of the regions may hold.\<close>

definition pve_set :: "kernel \<Rightarrow> nat \<Rightarrow> fm \<Rightarrow> (pid \<times> nat) set" where
  "pve_set K e s = (\<Union>c\<in>{..<ncpus K}. set (pve_mapped (fm_pve s e) c))"

definition pve_ok :: "kernel \<Rightarrow> nat \<Rightarrow> fm \<Rightarrow> bool" where
  "pve_ok K e s \<longleftrightarrow> (\<forall>(p, i)\<in>pve_set K e s. tp_in_use (pm_pages s p) = 1 \<and> i < MAX_RMAPS_PER_PAGE)"

lemma pve_entries_0: "pve_entries K e s = 0 \<longleftrightarrow> pve_set K e s = {}"
  by (auto simp: pve_entries_def pve_set_def)

lemma sum_list_update_less:
  "distinct cs \<Longrightarrow> c \<in> set cs \<Longrightarrow> f c = Suc m \<Longrightarrow> sum_list (map (f(c := m)) cs) + 1 = sum_list (map (f :: nat \<Rightarrow> nat) cs)"
proof (induction cs)
  case (Cons a cs)
  show ?case
  proof (cases "a = c")
    case True
    with Cons.prems have "map (f(c := m)) cs = map f cs" by auto
    with True Cons.prems show ?thesis by (simp only: list.map sum_list.Cons fun_upd_same)
  next
    case False
    with Cons show ?thesis by simp
  qed
qed simp

lemma pop_one_pvr_cases:
  assumes "pop_one_pvr K e s = (r, s')"
  shows "case r of None \<Rightarrow> s' = s \<and> pve_set K e s = {}
    | Some x \<Rightarrow> x \<in> pve_set K e s \<and> pve_set K e s \<subseteq> insert x (pve_set K e s') \<and> pve_set K e s' \<subseteq> pve_set K e s \<and>
        Suc (pve_entries K e s') = pve_entries K e s \<and> (\<exists>f. s' = upd_pve e f s)"
  using pop_scan_cases [OF assms [unfolded pop_one_pvr_def]]
proof (elim disjE conjE exE)
  assume "r = None" "s' = s" "\<forall>c\<in>set [0..<ncpus K]. pve_mapped (fm_pve s e) c = []"
  then show ?thesis by (simp add: pve_set_def)
next
  fix x xs c
  assume r: "r = Some x" "c \<in> set [0..<ncpus K]" "pve_mapped (fm_pve s e) c = x # xs"
    and s': "s' = upd_pve e (\<lambda>v. v\<lparr>pve_mapped := (pve_mapped v)(c := xs)\<rparr>) s"
  let ?f = "\<lambda>c. length (pve_mapped (fm_pve s e) c)"
  have m: "pve_mapped (fm_pve s' e) = (pve_mapped (fm_pve s e))(c := xs)" by (simp add: s')
  have "(\<lambda>b. length (pve_mapped (fm_pve s' e) b)) = ?f(c := length xs)" by (auto simp: m)
  then have "Suc (pve_entries K e s') = pve_entries K e s"
    using sum_list_update_less [of "[0..<ncpus K]" c ?f "length xs"] r by (simp add: pve_entries_def)
  moreover have "x \<in> pve_set K e s" "pve_set K e s \<subseteq> insert x (pve_set K e s')" "pve_set K e s' \<subseteq> pve_set K e s"
  proof -
    have S: "pve_set K e t = set (pve_mapped (fm_pve t e) c) \<union> (\<Union>b\<in>{..<ncpus K} - {c}. set (pve_mapped (fm_pve t e) b))" for t
      using r(2) by (auto simp: pve_set_def)
    show "x \<in> pve_set K e s" "pve_set K e s \<subseteq> insert x (pve_set K e s')" "pve_set K e s' \<subseteq> pve_set K e s"
      unfolding S m using r(3) by auto
  qed
  ultimately show ?thesis using r(1) s' by auto
qed

section \<open>Releasing the entries\<close>

text \<open>What releasing entry \<open>(p, i)\<close> does to the rest of the state.\<close>

definition released :: "(pid \<times> nat) set \<Rightarrow> fm \<Rightarrow> fm \<Rightarrow> bool" where
  "released E s s' \<longleftrightarrow> fm_vma s' = fm_vma s \<and> fm_info s' = fm_info s \<and> fm_pvd s' = fm_pvd s \<and> fm_disk s' = fm_disk s \<and>
     (\<forall>x. tp_in_use (pm_pages s' x) = tp_in_use (pm_pages s x) \<and> length (tp_rmap (pm_pages s' x)) = length (tp_rmap (pm_pages s x)) \<and>
        page_content s' x = page_content s x) \<and>
     (\<forall>p i. i < length (tp_rmap (pm_pages s p)) \<longrightarrow>
        rmap_of s' p i = (if (p, i) \<in> E then pvr_mk_invalid (rmap_of s p i) else rmap_of s p i)) \<and>
     (\<forall>k. fm_pte s' k = (case fm_pte s k of None \<Rightarrow> None
        | Some e \<Rightarrow> if \<exists>i. (pte_frame e, i) \<in> E \<and> rmap_key s (pte_frame e) i = k then None else Some e)) \<and>
     (\<forall>p. pg_dirty (tp_page (pm_pages s' p)) \<longleftrightarrow> pg_dirty (tp_page (pm_pages s p)) \<or>
        (\<exists>i e. (p, i) \<in> E \<and> fm_pte s (rmap_key s p i) = Some e \<and> pte_frame e = p \<and> pte_dirty e))"

lemma release_pvr_spec:
  assumes inv: "fm_inv K s" and K: "walk_ok K" and use: "tp_in_use (pm_pages s p) = 1" and i: "i < MAX_RMAPS_PER_PAGE"
    and r: "release_pvr K p i (vma, start, stop, s) = (vma', start', stop', s')"
  shows "fm_inv K s' \<and> released {(p, i)} s s' \<and> fm_pve s' = fm_pve s"
proof -
  have len: "length (tp_rmap (pm_pages s p)) = MAX_RMAPS_PER_PAGE"
    using buf_inv_page(4) [OF _ use] inv by (auto simp: fm_inv_def buf_wf_def)
  obtain k where k: "k = rmap_key s p i" by simp
  let ?hit = "\<exists>e. fm_pte s k = Some e \<and> pte_frame e = p"
  let ?b = "pg_dirty (tp_page (pm_pages s p)) \<or> (\<exists>e. fm_pte s k = Some e \<and> pte_frame e = p \<and> pte_dirty e)"
  let ?m = "if ?hit then (fm_pte s)(k := None) else fm_pte s"
  obtain t where t: "t = upd_page p (tp_set_pg_dirty ?b) (s\<lparr>fm_pte := ?m\<rparr>)" by simp
  have rk: "rmap_of (upd_rmap p i pvr_mk_invalid s) p i = pvr_mk_invalid (rmap_of s p i)" using i len by (simp add: rmap_of_def)
  have walk: "k_walk K (fm_pte s) (vma_mm (fm_vma s (pvr_get_vma (rmap_of s p i)))) (pvr_get_vaddr (rmap_of s p i)) p =
      (case fm_pte s k of None \<Rightarrow> None | Some e \<Rightarrow> if pte_frame e = p then Some e else None)"
    by (rule option_eq_by_Some) (use K in \<open>auto simp: walk_ok_def k rmap_key_def split: option.splits\<close>)
  have s': "pm_pages s' = pm_pages (upd_rmap p i pvr_mk_invalid t)" "fm_pte s' = ?m" "pm_fl s' = pm_fl s" "pm_total s' = pm_total s"
    "fb_primary s' = fb_primary s" "fb_dirty s' = fb_dirty s" "fm_pvd s' = fm_pvd s" "fm_vma s' = fm_vma s" "fm_info s' = fm_info s"
    "fm_disk s' = fm_disk s" "fm_pve s' = fm_pve s"
  proof -
    let ?u = "upd_rmap p i pvr_mk_invalid s"
    let ?mm = "vma_mm (fm_vma s (pvr_get_vma (rmap_of s p i)))" and ?a = "pvr_get_vaddr (rmap_of s p i)"
    have ka: "k = (?mm, ?a)" by (simp add: k rmap_key_def)
    obtain W where W: "W = (case fm_pte s k of None \<Rightarrow> None | Some e \<Rightarrow> if pte_frame e = p then Some e else None)" by simp
    have s0: "s' = (case W of
        None \<Rightarrow> ?u
      | Some entry \<Rightarrow>
          (let s1 = ?u\<lparr>fm_pte := (fm_pte s)(k := None)\<rparr>;
               s2 = (if pte_dirty entry then upd_page p (tp_set_pg_dirty True) s1 else s1)
           in s2\<lparr>fm_rss := (fm_rss s2)(?mm := fm_rss s2 ?mm - 1)\<rparr>))"
    proof -
      note r' = r [unfolded release_pvr_def Let_def prod.case rk pvr_mk_invalid_simps upd_rmap_fm walk W [symmetric]]
      show ?thesis
      proof (cases W)
        case (Some e)
        then show ?thesis using r' by (cases "pte_dirty e") (simp_all add: ka)
      qed (use r' in simp)
    qed
    have s1: "s' = (case (case fm_pte s k of None \<Rightarrow> None | Some e \<Rightarrow> if pte_frame e = p then Some e else None) of
        None \<Rightarrow> upd_rmap p i pvr_mk_invalid s
      | Some entry \<Rightarrow> (if pte_dirty entry then upd_page p (tp_set_pg_dirty True) else id)
          ((upd_rmap p i pvr_mk_invalid s)\<lparr>fm_pte := (fm_pte s)(k := None)\<rparr>)
          \<lparr>fm_rss := (fm_rss s)(fst k := fm_rss s (fst k) - 1)\<rparr>)"
      unfolding s0 W [symmetric] Let_def by (cases W) (simp_all add: ka)
    show "pm_pages s' = pm_pages (upd_rmap p i pvr_mk_invalid t)" "fm_pte s' = ?m" "pm_fl s' = pm_fl s" "pm_total s' = pm_total s"
      "fb_primary s' = fb_primary s" "fb_dirty s' = fb_dirty s" "fm_pvd s' = fm_pvd s" "fm_vma s' = fm_vma s" "fm_info s' = fm_info s"
      "fm_disk s' = fm_disk s" "fm_pve s' = fm_pve s"
      by (auto simp: s1 t tp_set_defs rmap_of_def split: option.splits)
  qed
  have it: "fm_inv K t" unfolding t
    by (rule fm_inv_pg_dirty [OF fm_inv_rest [OF inv]]) (use use in auto)
  have pt: "pm_pages t = (pm_pages s)(p := tp_set_pg_dirty ?b (pm_pages s p))" "fm_pte t = ?m" "fm_vma t = fm_vma s" by (simp_all add: t)
  have rt: "rmap_of t x j = rmap_of s x j" "rmap_key t x j = rmap_key s x j" for x j by (simp_all add: rmap_of_def rmap_key_def pt)
  have nm: "\<not> maps_page ?m p k" by (auto simp: maps_page_def)
  let ?rm = "(tp_rmap (pm_pages s p))[i := pvr_mk_invalid (rmap_of s p i)]"
  have pg: "pm_pages s' = (pm_pages t)(p := (pm_pages t p)\<lparr>tp_rmap := ?rm\<rparr>)"
    by (simp add: s'(1) rt(1)) (simp add: pt)
  have "fm_inv K s'"
  proof (rule fm_inv_rmap [OF it _ pg])
    show "tp_in_use (pm_pages t p) = 1" "length ?rm = MAX_RMAPS_PER_PAGE" using use len by (simp_all add: pt)
    fix j assume j: "j < MAX_RMAPS_PER_PAGE" "maps_page (fm_pte t) p (rmap_key t p j)"
    then have "j \<noteq> i" using nm unfolding pt(2) rt(2) k by blast
    then show "?rm ! j = rmap_of t p j" by (simp add: rt(1)) (simp add: rmap_of_def)
  qed (simp_all add: s' t)
  moreover have "released {(p, i)} s s'"
  proof -
    have "fm_pte s' x = (case fm_pte s x of None \<Rightarrow> None
        | Some e \<Rightarrow> if \<exists>j. (pte_frame e, j) \<in> {(p, i)} \<and> rmap_key s (pte_frame e) j = x then None else Some e)" for x
      unfolding s'(2) by (auto simp: k split: option.splits)
    moreover have "rmap_of s' q j = (if (q, j) \<in> {(p, i)} then pvr_mk_invalid (rmap_of s q j) else rmap_of s q j)"
      if "j < length (tp_rmap (pm_pages s q))" for q j
      using that by (auto simp: rmap_of_def pg pt)
    ultimately show ?thesis unfolding released_def
      by (auto simp: s' pg pt page_content_def tp_set_defs k)
  qed
  ultimately show ?thesis using s'(11) by blast
qed

section \<open>The release of a whole region\<close>

lemma released_empty: "s' = upd_pve e f s \<Longrightarrow> released {} s s'"
  by (auto simp: released_def page_content_def rmap_of_def upd_pve_def split: option.splits)

lemma released_trans:
  assumes a: "released E s s1" and b: "released F s1 s2"
    and len: "\<And>p i. (p, i) \<in> E \<union> F \<Longrightarrow> i < length (tp_rmap (pm_pages s p))"
  shows "released (E \<union> F) s s2"
proof -
  have a': "fm_vma s1 = fm_vma s" "\<And>p. length (tp_rmap (pm_pages s1 p)) = length (tp_rmap (pm_pages s p))"
    "\<And>p i. i < length (tp_rmap (pm_pages s p)) \<Longrightarrow>
        rmap_of s1 p i = (if (p, i) \<in> E then pvr_mk_invalid (rmap_of s p i) else rmap_of s p i)"
    using a unfolding released_def by blast+
  have key: "rmap_key s1 p i = rmap_key s p i" if "(p, i) \<in> E \<union> F" for p i
    using a'(3) [OF len [OF that]] by (simp add: rmap_key_def a'(1))
  have mk: "pvr_mk_invalid (pvr_mk_invalid r) = pvr_mk_invalid r" for r
    by (simp add: pvr_mk_invalid_def and.assoc)
  have pte1: "fm_pte s1 k = (case fm_pte s k of None \<Rightarrow> None
      | Some e \<Rightarrow> if \<exists>i. (pte_frame e, i) \<in> E \<and> rmap_key s (pte_frame e) i = k then None else Some e)" for k
    using a unfolding released_def by blast
  have pte2: "fm_pte s2 k = (case fm_pte s1 k of None \<Rightarrow> None
      | Some e \<Rightarrow> if \<exists>i. (pte_frame e, i) \<in> F \<and> rmap_key s (pte_frame e) i = k then None else Some e)" for k
  proof -
    have "fm_pte s2 k = (case fm_pte s1 k of None \<Rightarrow> None
      | Some e \<Rightarrow> if \<exists>i. (pte_frame e, i) \<in> F \<and> rmap_key s1 (pte_frame e) i = k then None else Some e)"
      using b unfolding released_def by blast
    then show ?thesis using key by (auto split: option.splits)
  qed
  have pte: "fm_pte s2 k = (case fm_pte s k of None \<Rightarrow> None
      | Some e \<Rightarrow> if \<exists>i. (pte_frame e, i) \<in> E \<union> F \<and> rmap_key s (pte_frame e) i = k then None else Some e)" for k
    unfolding pte2 pte1 by (auto split: option.splits)
  have dirty: "pg_dirty (tp_page (pm_pages s2 p)) \<longleftrightarrow> pg_dirty (tp_page (pm_pages s p)) \<or>
      (\<exists>i e. (p, i) \<in> E \<union> F \<and> fm_pte s (rmap_key s p i) = Some e \<and> pte_frame e = p \<and> pte_dirty e)" for p
  proof -
    have d1: "pg_dirty (tp_page (pm_pages s1 p)) \<longleftrightarrow> pg_dirty (tp_page (pm_pages s p)) \<or>
        (\<exists>i e. (p, i) \<in> E \<and> fm_pte s (rmap_key s p i) = Some e \<and> pte_frame e = p \<and> pte_dirty e)"
      using a unfolding released_def by blast
    have d2: "pg_dirty (tp_page (pm_pages s2 p)) \<longleftrightarrow> pg_dirty (tp_page (pm_pages s1 p)) \<or>
        (\<exists>i e. (p, i) \<in> F \<and> fm_pte s1 (rmap_key s1 p i) = Some e \<and> pte_frame e = p \<and> pte_dirty e)"
      using b unfolding released_def by blast
    have S: "fm_pte s1 k = Some e \<longleftrightarrow> fm_pte s k = Some e \<and> \<not> (\<exists>i. (pte_frame e, i) \<in> E \<and> rmap_key s (pte_frame e) i = k)" for k e
      unfolding pte1 by (cases "fm_pte s k") auto
    have "(fm_pte s1 (rmap_key s1 p i) = Some e \<and> pte_frame e = p) \<longleftrightarrow> fm_pte s (rmap_key s p i) = Some e \<and> pte_frame e = p \<and>
        \<not> (\<exists>j. (p, j) \<in> E \<and> rmap_key s p j = rmap_key s p i)" if "(p, i) \<in> F" for i e
      unfolding S key [OF UnI2 [OF that]] by blast
    with d1 d2 show ?thesis by (metis Un_iff)
  qed
  have rm: "rmap_of s2 p i = (if (p, i) \<in> E \<union> F then pvr_mk_invalid (rmap_of s p i) else rmap_of s p i)"
    if "i < length (tp_rmap (pm_pages s p))" for p i
  proof -
    have "rmap_of s2 p i = (if (p, i) \<in> F then pvr_mk_invalid (rmap_of s1 p i) else rmap_of s1 p i)"
      using b that unfolding released_def a'(2) by blast
    then show ?thesis using a'(3) [OF that] mk by simp
  qed
  show ?thesis using a b pte dirty rm unfolding released_def by simp
qed

lemma pve_release_loop_spec:
  assumes "fm_inv K s" and K: "walk_ok K" and "pve_ok K e s" and "pve_entries K e s < n"
    and "pve_release_loop K e n (vma, start, stop, s) = (vma', start', stop', s')"
  shows "fm_inv K s' \<and> pve_set K e s' = {} \<and> released (pve_set K e s) s s'"
  using assms(1,3-)
proof (induction n arbitrary: vma start stop s)
  case (Suc n)
  obtain r s1 where p: "pop_one_pvr K e s = (r, s1)" by fastforce
  note pc = pop_one_pvr_cases [OF p]
  show ?case
  proof (cases r)
    case None
    then have "s' = s" "pve_set K e s = {}" using Suc.prems(4) p pc by auto
    moreover have "released {} s s" using released_empty [of s e "\<lambda>x. x" s] by (simp add: upd_pve_def)
    ultimately show ?thesis using Suc.prems(1) by simp
  next
    case (Some x)
    obtain q i where x: "x = (q, i)" by fastforce
    obtain f where s1: "s1 = upd_pve e f s" using pc Some by auto
    have E: "(q, i) \<in> pve_set K e s" "pve_set K e s \<subseteq> insert (q, i) (pve_set K e s1)" "pve_set K e s1 \<subseteq> pve_set K e s"
      "Suc (pve_entries K e s1) = pve_entries K e s" using pc Some x by simp_all
    have qi: "tp_in_use (pm_pages s q) = 1" "i < MAX_RMAPS_PER_PAGE" using E(1) Suc.prems(2) by (auto simp: pve_ok_def)
    have i1: "fm_inv K s1" by (rule fm_inv_rest [OF Suc.prems(1)]) (simp_all add: s1)
    obtain v2 a2 b2 s2 where r2: "release_pvr K q i (vma, start, stop, s1) = (v2, a2, b2, s2)" by (metis prod_cases4)
    have u1: "tp_in_use (pm_pages s1 q) = 1" using qi by (simp add: s1)
    note x2 = release_pvr_spec [OF i1 K u1 qi(2) r2]
    have set2: "pve_set K e s2 = pve_set K e s1" "pve_entries K e s2 = pve_entries K e s1"
      using x2 by (simp_all add: pve_set_def pve_entries_def)
    have same: "tp_in_use (pm_pages s2 y) = tp_in_use (pm_pages s y)" for y using x2 unfolding released_def by (simp add: s1)
    have ok2: "pve_ok K e s2" unfolding pve_ok_def set2 same
      by (rule ballI, drule subsetD [OF E(3)]) (use Suc.prems(2) in \<open>auto simp: pve_ok_def\<close>)
    have l: "pve_release_loop K e n (v2, a2, b2, s2) = (vma', start', stop', s')" using Suc.prems(4) p Some x r2 by simp
    have n: "pve_entries K e s2 < n" using Suc.prems(3) E(4) set2(2) by simp
    note IH = Suc.IH [OF _ ok2 n l]
    have len: "j < length (tp_rmap (pm_pages s y))" if "(y, j) \<in> pve_set K e s" for y j
      using that Suc.prems(1,2) buf_inv_page(4) [of K "dirty_pages s" s y] by (auto simp: pve_ok_def fm_inv_def buf_wf_def)
    have "released ({} \<union> {(q, i)}) s s2"
      by (rule released_trans [OF released_empty [OF s1]]) (use x2 len E(1) in auto)
    from released_trans [OF this, of "pve_set K e s2" s'] IH x2 len E set2
    have "released ({(q, i)} \<union> pve_set K e s1) s s'" by auto
    moreover have "{(q, i)} \<union> pve_set K e s1 = pve_set K e s" using E by auto
    ultimately show ?thesis using IH x2 by simp
  qed
qed simp

section \<open>Properties of regions\<close>

lemma pve_release_spec:
  assumes "fm_inv K s" and "walk_ok K" and "pve_ok K e s" and "s' = pve_release K e s"
  shows "fm_inv K s' \<and> pve_set K e s' = {} \<and> released (pve_set K e s) s s'"
proof -
  obtain v a b s1 where l: "pve_release_loop K e (Suc (pve_entries K e s)) (None, 0, UINT_MAX, s) = (v, a, b, s1)" by (metis prod_cases4)
  note x = pve_release_loop_spec [OF assms(1-3) _ l]
  obtain fl where s': "s' = s1\<lparr>fm_flush := fl\<rparr>"
  proof (cases v)
    case None
    then have "s' = s1\<lparr>fm_flush := fm_flush s1\<rparr>" using assms(4) l by (simp add: pve_release_def)
    then show ?thesis by (rule that)
  next
    case (Some u)
    then have "s' = s1\<lparr>fm_flush := fm_flush s1 @ [Flush_range (vma_mm (fm_vma s1 u)) a (b + PAGE_SIZE)]\<rparr>"
      using assms(4) l by (simp add: pve_release_def log_flush_def)
    then show ?thesis by (rule that)
  qed
  have "fm_inv K s'" by (rule fm_inv_rest [of K s1]) (use x in \<open>simp_all add: s'\<close>)
  moreover have "pve_set K e s' = {}" using x by (simp add: s' pve_set_def)
  moreover have "released (pve_set K e s) s s'" using x unfolding released_def by (simp add: s' rmap_of_def page_content_def)
  ultimately show ?thesis by blast
qed

text \<open>
  C17. The last close of a region. The loop over its entries ends with all lists empty; no reverse-map
  entry of the region is valid any more and no page-table entry it recorded is left, every dirty bit of
  these entries has been handed to its page, no content has changed, and the invariants hold.
\<close>

theorem perma_vma_close_spec:
  assumes "fm_inv K s" and "walk_ok K" and "e = fi_pve (fm_info s (vma_info (fm_vma s vma)))" and "pve_ok K e s"
    and "pve_refcount (fm_pve s e) = 1" and "s' = perma_vma_close K vma s"
  shows "fm_inv K s' \<and> pve_set K e s' = {} \<and> \<not> fi_is_fastmap (fm_info s' (vma_info (fm_vma s vma))) \<and>
    (\<forall>p. page_content s' p = page_content s p) \<and>
    (\<forall>p i. (p, i) \<in> pve_set K e s \<longrightarrow> \<not> pvr_is_valid (rmap_of s' p i) \<and> \<not> maps_page (fm_pte s') p (rmap_key s p i) \<and>
       (\<forall>x. fm_pte s (rmap_key s p i) = Some x \<longrightarrow> pte_frame x = p \<longrightarrow> pte_dirty x \<longrightarrow> pg_dirty (tp_page (pm_pages s' p))))"
proof -
  obtain s1 where s1: "s1 = upd_pve e (\<lambda>v. v\<lparr>pve_refcount := pve_refcount v - 1\<rparr>) s" by simp
  have i1: "fm_inv K s1" by (rule fm_inv_rest [OF assms(1)]) (simp_all add: s1)
  have S: "pve_set K e s1 = pve_set K e s" by (simp add: s1 pve_set_def)
  have ok: "pve_ok K e s1" using assms(4) unfolding pve_ok_def S by (simp add: s1)
  obtain s2 where s2: "s2 = pve_release K e s1" by simp
  note x = pve_release_spec [OF i1 assms(2) ok s2]
  let ?i = "vma_info (fm_vma s vma)"
  have s': "s' = s2\<lparr>fm_info := (fm_info s2)(?i := (fm_info s2 ?i)\<lparr>fi_is_fastmap := False\<rparr>)\<rparr>"
    using assms(3,5,6) by (simp add: perma_vma_close_def Let_def s1 s2)
  have key: "rmap_key s1 p i = rmap_key s p i" "rmap_of s1 p i = rmap_of s p i" for p i by (simp_all add: rmap_key_def rmap_of_def s1)
  have rel: "released (pve_set K e s) s1 s2" using x unfolding S by blast
  have "fm_inv K s'" by (rule fm_inv_rest [of K s2]) (use x in \<open>simp_all add: s'\<close>)
  moreover have "pve_set K e s' = {}" using x by (simp add: s' pve_set_def)
  moreover have "page_content s' p = page_content s p" for p
  proof -
    have "page_content s2 p = page_content s1 p" using rel unfolding released_def by blast
    then show ?thesis by (simp add: s' s1 page_content_def)
  qed
  moreover have "\<not> pvr_is_valid (rmap_of s' p i) \<and> \<not> maps_page (fm_pte s') p (rmap_key s p i) \<and>
      (\<forall>x. fm_pte s (rmap_key s p i) = Some x \<longrightarrow> pte_frame x = p \<longrightarrow> pte_dirty x \<longrightarrow> pg_dirty (tp_page (pm_pages s' p)))"
    if pi: "(p, i) \<in> pve_set K e s" for p i
  proof -
    have "i < length (tp_rmap (pm_pages s1 p))"
      using pi assms(1,4) buf_inv_page(4) [of K "dirty_pages s" s p] by (auto simp: pve_ok_def fm_inv_def buf_wf_def s1)
    then have "rmap_of s2 p i = pvr_mk_invalid (rmap_of s1 p i)" using rel pi unfolding released_def by auto
    moreover have "rmap_of s' p i = rmap_of s2 p i" by (simp add: s' rmap_of_def)
    moreover have pte: "fm_pte s2 (rmap_key s p i) = (case fm_pte s1 (rmap_key s p i) of None \<Rightarrow> None
        | Some x \<Rightarrow> if \<exists>j. (pte_frame x, j) \<in> pve_set K e s \<and> rmap_key s1 (pte_frame x) j = rmap_key s p i then None else Some x)"
      using rel unfolding released_def by blast
    moreover have "\<not> maps_page (fm_pte s2) p (rmap_key s p i)"
      using pi unfolding maps_page_def pte key by (auto split: option.splits if_splits)
    moreover have "pg_dirty (tp_page (pm_pages s2 p)) \<longleftrightarrow> pg_dirty (tp_page (pm_pages s1 p)) \<or>
        (\<exists>j x. (p, j) \<in> pve_set K e s \<and> fm_pte s1 (rmap_key s1 p j) = Some x \<and> pte_frame x = p \<and> pte_dirty x)"
      using rel unfolding released_def by blast
    moreover have "fm_pte s1 = fm_pte s" by (simp add: s1)
    ultimately show ?thesis using pi unfolding key by (auto simp: s')
  qed
  ultimately show ?thesis by (simp add: s')
qed

text \<open>
  Opening a region once more, as a fork or a split does, and closing it again changes nothing but
  the counters of the backing object: the entries of the region stay as long as someone holds it.
\<close>

lemma open_close_round_trip:
  assumes "fi_is_fastmap (fm_info s (vma_info (fm_vma s vma)))"
    and "0 < pve_refcount (fm_pve s (fi_pve (fm_info s (vma_info (fm_vma s vma)))))"
  shows "perma_vma_close K vma (perma_vma_open vma n s) =
    upd_pvd (fi_pvd (fm_info s (vma_info (fm_vma s vma)))) (\<lambda>d. d\<lparr>pvd_vma_count := pvd_vma_count d + 1, pvd_cnt := pvd_cnt d + 1\<rparr>) s"
proof -
  let ?i = "vma_info (fm_vma s vma)"
  let ?e = "fi_pve (fm_info s ?i)"
  let ?d = "fi_pvd (fm_info s ?i)"
  let ?f = "\<lambda>d. d\<lparr>pvd_vma_count := pvd_vma_count d + 1, pvd_cnt := pvd_cnt d + 1\<rparr>"
  let ?g = "\<lambda>e. e\<lparr>pve_refcount := pve_refcount e + 1\<rparr>"
  have op: "perma_vma_open vma n s = upd_pvd ?d ?f (upd_pve ?e ?g s)"
    using assms(1) by (simp add: perma_vma_open_def Let_def)
  have undo: "upd_pve ?e (\<lambda>e. e\<lparr>pve_refcount := pve_refcount e - 1\<rparr>) (upd_pvd ?d ?f (upd_pve ?e ?g s)) = upd_pvd ?d ?f s"
    by (simp add: upd_pve_def upd_pvd_def)
  have "fm_vma (upd_pvd ?d ?f (upd_pve ?e ?g s)) = fm_vma s" "fm_info (upd_pvd ?d ?f (upd_pve ?e ?g s)) = fm_info s" by simp_all
  moreover have "pve_refcount (fm_pve (upd_pvd ?d ?f s) ?e) \<noteq> 0" using assms(2) by simp
  ultimately show ?thesis unfolding op perma_vma_close_def Let_def by (simp add: undo)
qed

section \<open>Moving a region\<close>

lemma first_invalid_Some: "first_invalid rs i = Some k \<Longrightarrow> i \<le> k \<and> k < i + length rs \<and> \<not> pvr_is_valid (rs ! (k - i))"
proof (induction rs i rule: first_invalid.induct)
  case (2 r rs i)
  show ?case
  proof (cases "pvr_is_valid r")
    case True
    with "2.prems" have "first_invalid rs (i + 1) = Some k" by simp
    from "2.IH" [OF _ this] True have "i + 1 \<le> k" "k < i + 1 + length rs" "\<not> pvr_is_valid (rs ! (k - (i + 1)))" by simp_all
    moreover from this have "k - i = Suc (k - (i + 1))" by simp
    ultimately show ?thesis by simp
  qed (use "2.prems" in simp)
qed simp

definition same_use :: "fm \<Rightarrow> fm \<Rightarrow> bool" where
  "same_use s s' \<longleftrightarrow> (\<forall>x. tp_in_use (pm_pages s' x) = tp_in_use (pm_pages s x)) \<and> fm_pte s' = fm_pte s \<and> fm_vma s' = fm_vma s"

lemma move_pvr_spec:
  assumes inv: "fm_inv K s" and use: "tp_in_use (pm_pages s p) = 1" and s': "s' = move_pvr cpu area e hi diff (p, j) s"
  shows "fm_inv K s' \<and> same_use s s' \<and> (\<forall>d. pve_set K d s' \<subseteq> pve_set K d s \<union> {p} \<times> {..<MAX_RMAPS_PER_PAGE})"
proof (cases "first_invalid (tp_rmap (pm_pages s p)) 0")
  case None
  then have "s' = s\<lparr>fm_bug := True\<rparr>" using s' by (simp add: move_pvr_def)
  then show ?thesis using fm_inv_bug [OF inv] by (auto simp: same_use_def pve_set_def)
next
  case (Some i)
  have len: "length (tp_rmap (pm_pages s p)) = MAX_RMAPS_PER_PAGE"
    using buf_inv_page(4) [OF _ use] inv by (auto simp: fm_inv_def buf_wf_def)
  have i: "i < MAX_RMAPS_PER_PAGE" "\<not> pvr_is_valid (rmap_of s p i)" using first_invalid_Some [OF Some] len by (simp_all add: rmap_of_def)
  obtain g where g: "s' = upd_rmap p i (\<lambda>r. pvr_set_cpu r (word_of_nat cpu)) (link_mapped e cpu p i (upd_rmap p i g
      (upd_rmap p i (\<lambda>r. pvr_set_idx (pvr_mk_valid r) (word_of_nat i)) s)))"
    using s' Some by (simp add: move_pvr_def Let_def)
  let ?r = "pvr_set_cpu (g (pvr_set_idx (pvr_mk_valid (rmap_of s p i)) (word_of_nat i))) (word_of_nat cpu)"
  have pg: "pm_pages s' = (pm_pages s)(p := (pm_pages s p)\<lparr>tp_rmap := (tp_rmap (pm_pages s p))[i := ?r]\<rparr>)"
    using i(1) len by (simp add: g link_mapped_def rmap_of_def)
  have "fm_inv K s'"
    by (rule fm_inv_rmap [OF inv use pg]) (use len i in \<open>auto simp: g link_mapped_def rmap_of_def nth_list_update_if\<close>)
  moreover have "same_use s s'" by (simp add: same_use_def pg) (simp add: g link_mapped_def)
  moreover have "pve_set K d s' \<subseteq> pve_set K d s \<union> {p} \<times> {..<MAX_RMAPS_PER_PAGE}" for d
    using i(1) by (auto simp: pve_set_def g link_mapped_def split: if_splits)
  ultimately show ?thesis by blast
qed

lemma same_use_trans: "same_use s s1 \<Longrightarrow> same_use s1 s2 \<Longrightarrow> same_use s s2"
  by (simp add: same_use_def)

lemma pve_ok_step:
  assumes "pve_ok K d s" and "same_use s s'" and "pve_set K d s' \<subseteq> pve_set K d s \<union> {p} \<times> {..<MAX_RMAPS_PER_PAGE}"
    and "tp_in_use (pm_pages s p) = 1"
  shows "pve_ok K d s'"
proof -
  have "tp_in_use (pm_pages s' x) = tp_in_use (pm_pages s x)" for x using assms(2) by (simp add: same_use_def)
  then show ?thesis unfolding pve_ok_def using assms(1,3,4) by (auto simp: pve_ok_def)
qed

lemma move_list_spec:
  assumes "fm_inv K s" and "pve_ok K d s" and "\<forall>(p, i)\<in>set xs. tp_in_use (pm_pages s p) = 1"
  shows "fm_inv K (fold (move_pvr cpu area e hi diff) xs s) \<and> pve_ok K d (fold (move_pvr cpu area e hi diff) xs s) \<and>
    same_use s (fold (move_pvr cpu area e hi diff) xs s)"
  using assms
proof (induction xs arbitrary: s)
  case (Cons x xs)
  obtain p j where x: "x = (p, j)" by fastforce
  have use: "tp_in_use (pm_pages s p) = 1" using Cons.prems(3) x by simp
  obtain s1 where s1: "s1 = move_pvr cpu area e hi diff (p, j) s" by simp
  note m = move_pvr_spec [OF Cons.prems(1) use s1]
  have ok: "pve_ok K d s1" by (rule pve_ok_step [OF Cons.prems(2) _ _ use]) (use m in blast)+
  have "\<forall>(q, i)\<in>set xs. tp_in_use (pm_pages s1 q) = 1" using Cons.prems(3) m by (auto simp: same_use_def)
  from Cons.IH [OF _ ok this] m show ?case using same_use_trans x s1 by (auto simp: s1)
qed (simp add: same_use_def)


section \<open>A region with one entry\<close>

text \<open>Page 3 of the example state, linked into the list of CPU 2 of the region.\<close>

definition region_example :: fm where
  "region_example = upd_pve 0 (\<lambda>e. e\<lparr>pve_refcount := 1, pve_mapped := (\<lambda>c. if c = 2 then [(3, 1)] else [])\<rparr>) buf_example"

lemma region_example_rest:
  "fm_inv kernel_example region_example" "pve_set kernel_example 0 region_example = {(3, 1)}"
  "pve_ok kernel_example 0 region_example" "fm_info region_example = fm_info buf_example" "fm_vma region_example = fm_vma buf_example"
  "pve_refcount (fm_pve region_example 0) = 1" "fm_pte region_example = fm_pte buf_example"
proof -
  show "fm_inv kernel_example region_example"
    by (rule fm_inv_rest [OF buf_example_inv]) (simp_all add: region_example_def)
  show p: "pve_set kernel_example 0 region_example = {(3, 1)}"
    by (auto simp: pve_set_def region_example_def upd_pve_def kernel_example_topo(3) split: if_splits)
  show "pve_ok kernel_example 0 region_example"
    unfolding pve_ok_def p by (simp add: region_example_def buf_example_simps tp_set_defs fm_const_defs)
qed (simp_all add: region_example_def upd_pve_def)

lemma region_example_key: "rmap_key region_example 3 1 = (0x80, 0x15000)"
  by (simp add: rmap_key_def rmap_of_def region_example_def buf_example_rest buf_example_simps fm_mapped_def fm_example_def Let_def
      upd_rmap_def tp_set_defs reset_rmap_def fm_simps pvr_refine)

theorem perma_vma_close_spec_witness:
  "\<exists>s'. s' = perma_vma_close kernel_example 0x40 region_example \<and> \<not> pvr_is_valid (rmap_of s' 3 1) \<and>
     \<not> maps_page (fm_pte s') 3 (0x80, 0x15000) \<and> pg_dirty (tp_page (pm_pages s' 3))"
proof -
  have e: "0 = fi_pve (fm_info region_example (vma_info (fm_vma region_example 0x40)))"
    by (simp add: region_example_rest buf_example_rest)
  have "fm_pte region_example (0x80, 0x15000) = Some \<lparr>pte_frame = 3, pte_dirty = True, pte_young = True, pte_write = True\<rparr>"
    by (simp add: region_example_rest buf_example_simps fm_mapped_def Let_def)
  with perma_vma_close_spec [OF region_example_rest(1) kernel_example_ok(1) e region_example_rest(3,6) refl]
  show ?thesis by (simp add: region_example_rest(2) region_example_key [unfolded One_nat_def])
qed

lemma open_close_round_trip_witness:
  "pve_mapped (fm_pve (perma_vma_close kernel_example 0x40 (perma_vma_open 0x40 9 region_example)) 0) 2 = [(3, 1)]"
proof -
  have "fi_is_fastmap (fm_info region_example (vma_info (fm_vma region_example 0x40)))"
    "0 < pve_refcount (fm_pve region_example (fi_pve (fm_info region_example (vma_info (fm_vma region_example 0x40)))))"
    by (simp_all add: region_example_rest buf_example_rest)
  from open_close_round_trip [OF this, of kernel_example 9] show ?thesis by (simp add: region_example_def)
qed


end
