(* ===== verification/Raw_Close.thy ===== *)
theory Raw_Close
  imports Raw_Device Vma_Ops
begin

text \<open>
  What closing a device does: \<^verbatim>\<open>raw_release\<close> writes the dirty pages of the file and gives all its pages back.
\<close>

section \<open>Freeing one page\<close>

text \<open>The entry of a page in its radix tree is deleted first; it commutes with taking the page out of its queue.\<close>

lemma rem_clean_pvd: "rem_clean q p (s\<lparr>fm_pvd := v\<rparr>) = (rem_clean q p s)\<lparr>fm_pvd := v\<rparr>"
  by (simp add: rem_clean_def split: prod.splits)

lemma radix_delete_eq: "radix_delete K d i s = s\<lparr>fm_pvd := fm_pvd (radix_delete K d i s)\<rparr>"
  by (simp add: radix_delete_def upd_pvd_def)

lemma radix_delete_pvd_cong: "fm_pvd s' = fm_pvd s \<Longrightarrow> fm_pvd (radix_delete K d i s') = fm_pvd (radix_delete K d i s)"
  by (simp add: radix_delete_def upd_pvd_def)

definition page_gone :: "kernel \<Rightarrow> nat \<Rightarrow> pid \<Rightarrow> fm \<Rightarrow> fm \<Rightarrow> bool" where
  "page_gone K d p s s' \<longleftrightarrow> fm_inv K s' \<and> (\<forall>x. x \<noteq> p \<longrightarrow> pm_pages s' x = pm_pages s x) \<and> tp_in_use (pm_pages s' p) \<noteq> 1 \<and>
     (\<forall>v. fm_pvd s' v = drop_rdx {p} (fm_pvd s v)) \<and> fm_pte s' = fm_pte s \<and> fm_disk s' = fm_disk s \<and> pm_total s' = pm_total s \<and>
     free_set (k_topo K) s' = insert p (free_set (k_topo K) s)"

lemma raw_free_page_spec:
  assumes inv: "fm_inv K s" and at: "pvd_rdx (fm_pvd s d) c i = Some p"
    and p: "\<not> locked_tp (pm_pages s p)" "tp_buffer_id (pm_pages s p) = BI_CLEAN" "\<And>k. \<not> maps_page (fm_pte s) p k"
    and s1: "s1 = upd_pvd d (\<lambda>v. v\<lparr>pvd_rdx := (pvd_rdx v)(c := (pvd_rdx v c)(i := None))\<rparr>) s"
  obtains s' where "raw_free_page p s1 = Some s'" "page_gone K d p s s'"
proof -
  have b: "buf_inv K (dirty_pages s) s" "map_inv s" "flags_ok s" using inv by (simp_all add: fm_inv_def buf_wf_def)
  note fu = found_in_use [OF b(1) at]
  have "c = cpu_of_index K i" using b(1) at unfolding buf_inv_def rdx_ok_def by blast
  then have s1': "s1 = radix_delete K d (p_index s p) s" by (simp add: s1 radix_delete_def fu(3))
  obtain s2 where s2: "s2 = upd_page p (\<lambda>_. tp_set_locked True (pm_pages s p)) s" by simp
  have pg2: "pm_pages s2 = (pm_pages s)(p := tp_set_locked True (pm_pages s p))" and pvd2: "fm_pvd s2 = fm_pvd s" by (simp_all add: s2)
  have i2: "buf_inv K (dirty_pages s) s2" unfolding s2 by (rule buf_inv_flags [OF b(1)]) (use fu(1) in simp_all)
  have ix: "p_index s2 p = p_index s p" "tp_buffer_id (pm_pages s2 p) = BI_CLEAN" by (simp_all add: p_index_def pg2 p(2))
  let ?q = "clean_q (p_index s p)"
  obtain f where f: "rem_clean ?q p s2 = s2\<lparr>fb_primary := f, pm_pages := set_buffer_id BI_NONE p (pm_pages s2)\<rparr>"
    using rem_clean_eq [OF i2 ix(2)] unfolding ix(1) by metis
  obtain s3 where s3: "s3 = rem_clean ?q p s2" by simp
  have i3: "buf_inv K (dirty_pages s) s3" "held K s3 p" using rem_clean_inv [OF i2 ix(2)] by (simp_all add: ix(1) s3)
  have pg3: "pm_pages s3 = (pm_pages s)(p := (tp_set_locked True (pm_pages s p))\<lparr>tp_buffer_id := BI_NONE\<rparr>)"
    and rest3: "fm_pvd s3 = fm_pvd s" "fm_pte s3 = fm_pte s" "fm_vma s3 = fm_vma s" "fm_disk s3 = fm_disk s" "pm_total s3 = pm_total s" "pm_fl s3 = pm_fl s"
    unfolding s3 f by (simp_all add: s2 set_buffer_id_def)
  have ix3: "p_index s3 p = p_index s p" "tp_pvd (pm_pages s3 p) = Some d" by (simp_all add: p_index_def pg3 fu(2))
  obtain s4 where s4: "s4 = radix_delete K d (p_index s p) s3" by simp
  have res: "raw_free_page p s1 = Some (free_page_lock p s4)"
  proof -
    have "upd_page p (\<lambda>_. tp_set_locked True (pm_pages s p)) s1 = s2\<lparr>fm_pvd := fm_pvd s1\<rparr>"
      unfolding s1' s2 by (subst (1) radix_delete_eq) (simp add: upd_page_def)
    then have "raw_free_page p s1 = Some (free_page_lock p (rem_clean ?q p (s2\<lparr>fm_pvd := fm_pvd s1\<rparr>)))"
      using p(1,2) fu(1) ix by (simp add: raw_free_page_def s1' trylock_any_cases p_index_def)
    moreover have "rem_clean ?q p (s2\<lparr>fm_pvd := fm_pvd s1\<rparr>) = s4"
      unfolding rem_clean_pvd s4 s1' s3 f by (simp add: s2 radix_delete_def upd_pvd_def)
    ultimately show ?thesis by simp
  qed
  have "rdx_ok K s3" using i3(1) unfolding buf_inv_def by blast
  from radix_delete_drop [OF this ix3(2) i3(2)] have pvd4: "fm_pvd s4 v = drop_rdx {p} (fm_pvd s v)" for v by (simp add: ix3(1) s4 rest3(1))
  have i4: "buf_inv K (dirty_pages s) s4"
    by (rule buf_inv_drop_rdx [OF i3(1), of _ "{p}"]) (simp_all add: pvd4 rest3(1), simp_all add: s4 pg3)
  have m3: "map_inv s3"
    by (rule map_inv_page [OF b(2) pg3]) (simp_all add: rest3)
  have m4: "map_inv s4" using m3 by (simp add: s4 map_inv_def rmap_of_def rmap_key_def)
  have det: "detached K s4 p" using fu(1) p(3) by (simp add: detached_def pvd4, simp add: s4 pg3 rest3)
  have nd: "p \<notin> dirty_pages s" by (simp add: dirty_pages_def p(2))
  obtain s5 where s5: "s5 = free_page_lock p s4" by simp
  note fr = free_page_lock_inv [OF i4 m4 det nd, folded s5]
  have pg5: "pm_pages s5 = (pm_pages s)(p := release_page (pm_pages s3 p))" by (simp add: s5 s4 pg3)
  have rest5: "fm_pvd s5 v = drop_rdx {p} (fm_pvd s v)" "fm_pte s5 = fm_pte s" "fm_disk s5 = fm_disk s" "pm_total s5 = pm_total s" for v
    by (simp add: s5 pvd4) (simp_all add: s5 s4 rest3)
  have "dirty_pages s5 = dirty_pages s" using nd by (auto simp: dirty_pages_def pg5)
  moreover have use: "tp_in_use (release_page t) \<noteq> 1" for t by (simp add: fm_simps)
  then have "flags_ok s5" using b(3) by (simp add: flags_ok_def pg5)
  ultimately have "fm_inv K s5" using fr(1,2) by (simp add: fm_inv_def buf_wf_def)
  moreover have "free_set (k_topo K) s4 = free_set (k_topo K) s" by (simp add: free_set_def s4 rest3)
  ultimately have "page_gone K d p s s5" using fr(3) use rest5 by (simp add: page_gone_def pg5)
  then show ?thesis using that res s5 by blast
qed

section \<open>Emptying the radix trees\<close>

definition pages_of :: "nat \<Rightarrow> fm \<Rightarrow> pid set" where
  "pages_of d s = {p. tp_in_use (pm_pages s p) = 1 \<and> tp_pvd (pm_pages s p) = Some d}"

text \<open>All pages of the object are clean, unlocked and unmapped.\<close>

definition drainable :: "kernel \<Rightarrow> nat \<Rightarrow> fm \<Rightarrow> bool" where
  "drainable K d s \<longleftrightarrow> fm_inv K s \<and> (\<forall>p\<in>pages_of d s. \<not> locked_tp (pm_pages s p) \<and> tp_buffer_id (pm_pages s p) = BI_CLEAN \<and>
     (\<forall>k. \<not> maps_page (fm_pte s) p k))"

definition drained :: "kernel \<Rightarrow> nat \<Rightarrow> fm \<Rightarrow> fm \<Rightarrow> bool" where
  "drained K d s s' \<longleftrightarrow> fm_inv K s' \<and> pages_of d s' = {} \<and> (\<forall>p. p \<notin> pages_of d s \<longrightarrow> pm_pages s' p = pm_pages s p) \<and> fm_pte s' = fm_pte s \<and>
     fm_disk s' = fm_disk s \<and> free_set (k_topo K) s' = pages_of d s \<union> free_set (k_topo K) s"

lemma rdx_scan_None:
  assumes "rdx_first_ok (de_rdx_first E)" and "rdx_scan E rdx cs = None" and "c \<in> set cs"
  shows "rdx c i = None"
  using assms(2,3)
proof (induction cs)
  case (Cons a cs)
  have f: "case de_rdx_first E (rdx a) of None \<Rightarrow> \<forall>i. rdx a i = None | Some i \<Rightarrow> rdx a i \<noteq> None \<and> (\<forall>j<i. rdx a j = None)"
    using assms(1) unfolding rdx_first_ok_def by blast
  show ?case using Cons f by (auto split: option.splits)
qed simp

lemma rdx_scan_Some: "rdx_scan E rdx cs = Some (c, i, p) \<Longrightarrow> rdx c i = Some p"
  by (induction cs) (auto split: option.splits)

lemma pages_of_finite:
  assumes "fm_inv K s"
  shows "finite (pages_of d s)" "card (pages_of d s) \<le> pm_total s"
proof -
  have "pages_of d s \<subseteq> {..<pm_total s}" using assms by (auto simp: pages_of_def fm_inv_def buf_wf_def buf_inv_def pages_ok_def)
  then show "finite (pages_of d s)" "card (pages_of d s) \<le> pm_total s"
    using finite_subset [of _ "{..<pm_total s}"] card_mono [of "{..<pm_total s}"] by fastforce+
qed

lemma page_gone_of:
  assumes "page_gone K d p s s'" and "p \<in> pages_of d s"
  shows "pages_of d s' = pages_of d s - {p}"
proof -
  have g: "\<And>x. x \<noteq> p \<Longrightarrow> pm_pages s' x = pm_pages s x" "tp_in_use (pm_pages s' p) \<noteq> 1" using assms(1) unfolding page_gone_def by blast+
  have "x \<in> pages_of d s' \<longleftrightarrow> x \<in> pages_of d s - {p}" for x using g by (cases "x = p") (simp_all add: pages_of_def)
  then show ?thesis by blast
qed

lemma raw_drain_spec:
  assumes E: "rdx_first_ok (de_rdx_first E)" and n: "0 < ncpus K"
  shows "drainable K d s \<Longrightarrow> card (pages_of d s) < m \<Longrightarrow> \<exists>s'. raw_drain K E d m s = Some s' \<and> drained K d s s'"
proof (induction m arbitrary: s)
  case (Suc m)
  have inv: "fm_inv K s" and ok: "\<And>p. p \<in> pages_of d s \<Longrightarrow> \<not> locked_tp (pm_pages s p) \<and> tp_buffer_id (pm_pages s p) = BI_CLEAN \<and> (\<forall>k. \<not> maps_page (fm_pte s) p k)"
    using Suc.prems(1) unfolding drainable_def by blast+
  have b: "buf_inv K (dirty_pages s) s" using inv by (simp add: fm_inv_def buf_wf_def)
  show ?case
  proof (cases "rdx_scan E (pvd_rdx (fm_pvd s d)) [0..<ncpus K]")
    case None
    have "p \<notin> pages_of d s" for p
    proof
      assume p: "p \<in> pages_of d s"
      have "pvd_rdx (fm_pvd s d) (cpu_of_index K (p_index s p)) (p_index s p) = None"
        by (rule rdx_scan_None [OF E None]) (simp add: cpu_of_index_def n)
      moreover have "tp_buffer_id (pm_pages s p) \<noteq> BI_NONE" "tp_pvd (pm_pages s p) = Some d" using p ok [OF p] by (simp_all add: pages_of_def)
      then have "radix_lookup K s d (p_index s p) = Some p" by (rule buf_inv_found [OF b])
      ultimately show False by (simp add: radix_lookup_def)
    qed
    then have "pages_of d s = {}" by blast
    then show ?thesis using None inv by (simp add: drained_def)
  next
    case (Some cip)
    obtain c i p where cip: "cip = (c, i, p)" by (cases cip)
    have at: "pvd_rdx (fm_pvd s d) c i = Some p" by (rule rdx_scan_Some) (use Some cip in simp)
    note fu = found_in_use [OF b at]
    have p: "p \<in> pages_of d s" using fu by (simp add: pages_of_def)
    obtain s1 where s1: "s1 = upd_pvd d (\<lambda>v. v\<lparr>pvd_rdx := (pvd_rdx v)(c := (pvd_rdx v c)(i := None))\<rparr>) s" by simp
    obtain s2 where s2: "raw_free_page p s1 = Some s2" "page_gone K d p s s2"
      using raw_free_page_spec [OF inv at _ _ _ s1] ok [OF p] by blast
    note of = page_gone_of [OF s2(2) p]
    have g: "fm_inv K s2" "\<And>x. x \<noteq> p \<Longrightarrow> pm_pages s2 x = pm_pages s x" "fm_pte s2 = fm_pte s" "fm_disk s2 = fm_disk s"
      "free_set (k_topo K) s2 = insert p (free_set (k_topo K) s)" using s2(2) unfolding page_gone_def by blast+
    have "drainable K d s2" unfolding drainable_def of using g(1-3) ok by simp
    moreover have "card (pages_of d s2) < m" using Suc.prems(2) card_Diff1_less [OF pages_of_finite(1) [OF inv, of d] p] by (simp add: of)
    ultimately obtain s' where s': "raw_drain K E d m s2 = Some s'" "drained K d s2 s'" using Suc.IH by blast
    have res: "raw_drain K E d (Suc m) s = Some s'" using Some cip s2(1) s'(1) by (simp add: s1 Let_def)
    have dd: "fm_inv K s'" "pages_of d s' = {}" "\<And>x. x \<notin> pages_of d s2 \<Longrightarrow> pm_pages s' x = pm_pages s2 x" "fm_pte s' = fm_pte s2"
      "fm_disk s' = fm_disk s2" "free_set (k_topo K) s' = pages_of d s2 \<union> free_set (k_topo K) s2" using s'(2) unfolding drained_def by blast+
    have "pm_pages s' x = pm_pages s x" if "x \<notin> pages_of d s" for x using dd(3) [of x] g(2) [of x] p that by (auto simp: of)
    then have "drained K d s s'" using dd g p unfolding drained_def by (auto simp: of)
    then show ?thesis using res by blast
  qed
qed simp

section \<open>Closing a device\<close>

text \<open>
  What holds when the last reference to the file is gone: no address space maps its pages, and no
  thread works on one of them.
\<close>

definition quiet :: "nat \<Rightarrow> fm \<Rightarrow> bool" where
  "quiet d s \<longleftrightarrow> (\<forall>p\<in>pages_of d s. \<not> locked_tp (pm_pages s p) \<and> (\<forall>k. \<not> maps_page (fm_pte s) p k))"

lemma pages_of_wd: "pm_pages s' = wd_pages s X B W \<Longrightarrow> pages_of d s' = pages_of d s"
  by (simp add: pages_of_def)

text \<open>After the dirty pages have been written, all pages of a quiet object can be freed.\<close>

lemma written_drainable:
  assumes inv: "fm_inv K s" "fm_inv K s1" and q: "quiet d s" and pg: "pm_pages s1 = wd_pages s {} {} {p. dirty_of d s p}" and pte: "fm_pte s1 = fm_pte s"
  shows "drainable K d s1"
proof -
  have "\<not> locked_tp (pm_pages s1 p) \<and> tp_buffer_id (pm_pages s1 p) = BI_CLEAN \<and> (\<forall>k. \<not> maps_page (fm_pte s1) p k)" if "p \<in> pages_of d s1" for p
  proof -
    have p: "p \<in> pages_of d s" using that pages_of_wd [OF pg] by simp
    then have u: "\<not> locked_tp (pm_pages s p)" "\<forall>k. \<not> maps_page (fm_pte s) p k" "tp_in_use (pm_pages s p) = 1" "tp_pvd (pm_pages s p) = Some d"
      using q by (simp_all add: quiet_def pages_of_def)
    then have "settled (pm_pages s p)" using inv(1) by (auto simp: fm_inv_def flags_ok_def)
    then have "tp_buffer_id (pm_pages s p) = BI_CLEAN \<or> dirty_of d s p" using u by (auto simp: settled_def dirty_of_def lockable_def)
    then show ?thesis using u by (cases "dirty_of d s p") (simp_all add: pg pte wd_pages_def)
  qed
  then show ?thesis using inv(2) by (simp add: drainable_def)
qed

lemma raw_release_run:
  assumes "rf_private (rs_file s f) = Some fi" and "write_dirty_pages K (fi_pvd (fm_info (rs_fm s) fi)) (Some blkdev_release_cb) (rs_fm s) = Some (log, x1)"
    and "raw_drain K E (fi_pvd (fm_info (rs_fm s) fi)) (Suc (pm_total x1)) x1 = Some x"
  shows "\<exists>s'. raw_release K E f s = Some (0, s') \<and> rf_private (rs_file s' f) = None \<and>
    (\<exists>b. rs_fm s' = (upd_rdd (rf_minor (rs_file s f)) (\<lambda>r. r\<lparr>rdd_inuse := rdd_inuse r - 1\<rparr>) x)\<lparr>fm_bug := b\<rparr>)"
proof -
  obtain y where y: "y = upd_rdd (rf_minor (rs_file s f)) (\<lambda>r. r\<lparr>rdd_inuse := rdd_inuse r - 1\<rparr>) x" by simp
  obtain s' where r: "raw_release K E f s = Some (0, s')" using assms by (auto simp: raw_release_def Let_def simp del: raw_drain.simps)
  have c: "rf_private (rs_file s' f) = None" "rs_fm s' = y \<or> rs_fm s' = y\<lparr>fm_bug := True\<rparr>"
    using r assms by (auto simp: raw_release_def Let_def y simp del: raw_drain.simps split: option.splits)
  have "y = y\<lparr>fm_bug := fm_bug y\<rparr>" by simp
  with c(2) have "\<exists>b. rs_fm s' = y\<lparr>fm_bug := b\<rparr>" by blast
  then show ?thesis using r c(1) unfolding y by blast
qed


section \<open>Closing with one dirty page\<close>

text \<open>The dirty page 3 of the example is not mapped any more and the file of minor 1 is closed.\<close>

definition close_example :: raw_sys where
  "close_example = raw_example\<lparr>rs_fm := evict_example\<lparr>fm_pte := (\<lambda>k. None)\<rparr>, rs_file := (\<lambda>f. (new_file 2)\<lparr>rf_private := Some 0\<rparr>)\<rparr>"


end
