(* ===== verification/Wrapfs_State.thy ===== *)
theory Wrapfs_State
  imports Raw_Close
begin

text \<open>
  The state of the stacked file system of \<^verbatim>\<open>wrapfs.h\<close>, through which files of a lower file system are mapped: inodes, dentries and open
  files that each refer to their lower object, and the cache of backing objects by inode number of
  \<^verbatim>\<open>dmapfs_file.c\<close>. The lower file system and the VFS are parameters.
\<close>

section \<open>Inodes\<close>

text \<open>The attributes that the stacked file system keeps equal to those of the lower inode.\<close>

record iattr =
  ia_mode :: u32
  ia_uid :: u32
  ia_gid :: u32
  ia_rdev :: u32
  ia_atime :: int
  ia_mtime :: int
  ia_ctime :: int
  ia_blkbits :: u32
  ia_flags :: u32
  ia_nlink :: nat
  ia_size :: u64
  ia_blocks :: u64

abbreviation (input) S_IFMT :: "u32 \<Rightarrow> u32" where "S_IFMT m \<equiv> m AND 0xF000"
definition S_ISREG :: "u32 \<Rightarrow> bool" where "S_ISREG m \<longleftrightarrow> S_IFMT m = 0x8000"
definition S_ISDIR :: "u32 \<Rightarrow> bool" where "S_ISDIR m \<longleftrightarrow> S_IFMT m = 0x4000"
definition S_ISLNK :: "u32 \<Rightarrow> bool" where "S_ISLNK m \<longleftrightarrow> S_IFMT m = 0xA000"
definition S_ISSPECIAL :: "u32 \<Rightarrow> bool" where
  "S_ISSPECIAL m \<longleftrightarrow> S_IFMT m = 0x6000 \<or> S_IFMT m = 0x2000 \<or> S_IFMT m = 0x1000 \<or> S_IFMT m = 0xC000"

datatype inode_ops = Wrapfs_main_iops | Wrapfs_dir_iops | Wrapfs_symlink_iops
datatype file_ops = Wrapfs_main_fops | Wrapfs_dir_fops | Special_fops

text \<open>\<^verbatim>\<open>struct wrapfs_inode_info\<close> with the members of its \<^verbatim>\<open>vfs_inode\<close> that the code sets.\<close>

record wrapfs_inode_info =
  wi_lower_inode :: "nat option"
  wi_ino :: u64
  wi_attr :: iattr
  wi_iops :: inode_ops
  wi_fops :: file_ops
  wi_version :: nat

section \<open>Dentries and files\<close>

text \<open>
  \<open>wd_info\<close> is \<^verbatim>\<open>d_fsdata\<close>: a \<^verbatim>\<open>struct wrapfs_dentry_info\<close>, whose \<^verbatim>\<open>struct path\<close> may hold null pointers.
\<close>

record path =
  path_dentry :: "nat option"
  path_mnt :: "nat option"

record wrapfs_dentry =
  wd_info :: "path option"
  wd_inode :: "nat option"
  wd_parent :: nat
  wd_name :: string
  wd_hashed :: bool

text \<open>\<^verbatim>\<open>struct wrapfs_file_info\<close>; \<open>wf_pvd\<close> is \<^verbatim>\<open>fmap_info->pvd\<close>, which is null for a directory.\<close>

record wrapfs_file_info =
  wf_lower_file :: "nat option"
  wf_fmap_info :: "nat option"
  wf_pvd :: "nat option"

text \<open>An open \<^verbatim>\<open>struct file\<close>: its dentry, its position and its \<^verbatim>\<open>private_data\<close>.\<close>

record wrapfs_file =
  fl_dentry :: nat
  fl_flags :: u32
  fl_pos :: u64
  fl_private :: "wrapfs_file_info option"

section \<open>The whole state\<close>

text \<open>
  \<open>wx_low\<close> is the state of the lower file system except for the content of its files, which is in
  \<open>wx_fm\<close>. The reference counts are those that this file system holds on lower dentries, mounts, inodes
  and files. \<open>wx_icache\<close> lists the hashed inodes, \<open>wx_ino_pvd\<close> is \<^verbatim>\<open>ino_pvd_cache\<close>.
\<close>

record 'l wfs =
  wx_fm :: fm
  wx_low :: 'l
  wx_inode :: "nat \<Rightarrow> wrapfs_inode_info"
  wx_dentry :: "nat \<Rightarrow> wrapfs_dentry"
  wx_file :: "nat \<Rightarrow> wrapfs_file"
  wx_icache :: "nat list"
  wx_ino_pvd :: "u64 \<Rightarrow> nat option"
  wx_lower_sb :: "nat option"
  wx_dref :: "nat \<Rightarrow> int"
  wx_mref :: "nat \<Rightarrow> int"
  wx_iref :: "nat \<Rightarrow> int"
  wx_fref :: "nat \<Rightarrow> int"

type_synonym lower_store = "(nat \<Rightarrow> u64 \<Rightarrow> pdata) \<times> (nat \<Rightarrow> u64)"

text \<open>
  The lower file system and the functions of the VFS. An operation takes the lower dentries and inodes
  the code passes and returns its error number. Inode and super block numbers, the inode of a
  dentry, the parent of a dentry, the inode of an open file and the attributes of an inode are observations. The functions
  \<^verbatim>\<open>fsstack_copy_attr_atime\<close>, \<^verbatim>\<open>fsstack_copy_attr_times\<close>, \<^verbatim>\<open>fsstack_copy_inode_size\<close> and \<^verbatim>\<open>fsstack_copy_attr_all\<close> map the old
  attributes of the upper inode and those of the lower inode to the new ones of the upper inode. \<open>lf_accessed\<close> and \<open>lf_touch\<close> are
  \<^verbatim>\<open>file_accessed\<close> on a lower and on an upper file; reads and writes return the new position, too.
\<close>

record 'l lower_fs =
  lf_i_ino :: "nat \<Rightarrow> u64"
  lf_i_sb :: "nat \<Rightarrow> nat"
  lf_s_dev :: "nat \<Rightarrow> nat"
  lf_d_inode :: "'l \<Rightarrow> nat \<Rightarrow> nat option"
  lf_parent :: "'l \<Rightarrow> nat \<Rightarrow> nat"
  lf_f_inode :: "'l \<Rightarrow> nat \<Rightarrow> nat option"
  lf_f_pos :: "'l \<Rightarrow> nat \<Rightarrow> u64"
  lf_attr :: "'l \<Rightarrow> nat \<Rightarrow> iattr"
  lf_copy_atime :: "iattr \<Rightarrow> iattr \<Rightarrow> iattr"
  lf_copy_times :: "iattr \<Rightarrow> iattr \<Rightarrow> iattr"
  lf_copy_size :: "iattr \<Rightarrow> iattr \<Rightarrow> iattr"
  lf_copy_all :: "iattr \<Rightarrow> iattr \<Rightarrow> iattr"
  lf_open :: "path \<Rightarrow> u32 \<Rightarrow> 'l \<Rightarrow> (int + nat) \<times> 'l"
  lf_read :: "nat \<Rightarrow> u64 \<Rightarrow> u64 \<Rightarrow> lower_store \<times> 'l \<Rightarrow> (int \<times> pdata \<times> u64) \<times> 'l"
  lf_write :: "nat \<Rightarrow> pdata \<Rightarrow> u64 \<Rightarrow> lower_store \<times> 'l \<Rightarrow> (int \<times> u64) \<times> lower_store \<times> 'l"
  lf_read_iter :: "nat \<Rightarrow> (u64 \<Rightarrow> u64 \<Rightarrow> lower_store \<times> 'l \<Rightarrow> (int \<times> pdata \<times> u64) \<times> 'l) option"
  lf_write_iter :: "nat \<Rightarrow> (pdata \<Rightarrow> u64 \<Rightarrow> lower_store \<times> 'l \<Rightarrow> (int \<times> u64) \<times> lower_store \<times> 'l) option"
  lf_accessed :: "nat \<Rightarrow> 'l \<Rightarrow> 'l"
  lf_touch :: "iattr \<Rightarrow> iattr"
  lf_fallocate :: "nat \<Rightarrow> int \<Rightarrow> u64 \<Rightarrow> u64 \<Rightarrow> lower_store \<times> 'l \<Rightarrow> int \<times> lower_store \<times> 'l"
  lf_fsync_range :: "nat \<Rightarrow> u64 \<Rightarrow> u64 \<Rightarrow> bool \<Rightarrow> 'l \<Rightarrow> int \<times> 'l"
  lf_generic_fsync :: "nat \<Rightarrow> u64 \<Rightarrow> u64 \<Rightarrow> bool \<Rightarrow> int"
  lf_iterate_dir :: "nat \<Rightarrow> 'l \<Rightarrow> int \<times> 'l"
  lf_ioctl :: "nat \<Rightarrow> bool \<Rightarrow> (u32 \<Rightarrow> u64 \<Rightarrow> 'l \<Rightarrow> int \<times> 'l) option"
  lf_f_op :: "nat \<Rightarrow> bool"
  lf_flush :: "nat \<Rightarrow> ('l \<Rightarrow> int \<times> 'l) option"
  lf_fasync :: "nat \<Rightarrow> (int \<Rightarrow> int \<Rightarrow> 'l \<Rightarrow> int \<times> 'l) option"
  lf_llseek :: "nat \<Rightarrow> u64 \<Rightarrow> int \<Rightarrow> 'l \<Rightarrow> int \<times> 'l"

text \<open>What the kernel documents of the copying functions.\<close>

definition stack_copy_ok :: "('l, 'b) lower_fs_scheme \<Rightarrow> bool" where
  "stack_copy_ok L \<longleftrightarrow>
     (\<forall>d s. lf_copy_atime L d s = d\<lparr>ia_atime := ia_atime s\<rparr>) \<and>
     (\<forall>d s. lf_copy_times L d s = d\<lparr>ia_atime := ia_atime s, ia_mtime := ia_mtime s, ia_ctime := ia_ctime s\<rparr>) \<and>
     (\<forall>d s. lf_copy_size L d s = d\<lparr>ia_size := ia_size s, ia_blocks := ia_blocks s\<rparr>) \<and>
     (\<forall>d s. lf_copy_all L d s = s\<lparr>ia_size := ia_size d, ia_blocks := ia_blocks d\<rparr>)"

section \<open>Access\<close>

definition upd_inode :: "nat \<Rightarrow> (wrapfs_inode_info \<Rightarrow> wrapfs_inode_info) \<Rightarrow> ('l, 'b) wfs_scheme \<Rightarrow> ('l, 'b) wfs_scheme" where
  "upd_inode i f s = s\<lparr>wx_inode := (wx_inode s)(i := f (wx_inode s i))\<rparr>"

definition upd_dentry :: "nat \<Rightarrow> (wrapfs_dentry \<Rightarrow> wrapfs_dentry) \<Rightarrow> ('l, 'b) wfs_scheme \<Rightarrow> ('l, 'b) wfs_scheme" where
  "upd_dentry d f s = s\<lparr>wx_dentry := (wx_dentry s)(d := f (wx_dentry s d))\<rparr>"

definition upd_wfile :: "nat \<Rightarrow> (wrapfs_file \<Rightarrow> wrapfs_file) \<Rightarrow> ('l, 'b) wfs_scheme \<Rightarrow> ('l, 'b) wfs_scheme" where
  "upd_wfile f g s = s\<lparr>wx_file := (wx_file s)(f := g (wx_file s f))\<rparr>"

definition upd_wfm :: "(fm \<Rightarrow> fm) \<Rightarrow> ('l, 'b) wfs_scheme \<Rightarrow> ('l, 'b) wfs_scheme" where
  "upd_wfm g s = s\<lparr>wx_fm := g (wx_fm s)\<rparr>"

definition wbug :: "('l, 'b) wfs_scheme \<Rightarrow> ('l, 'b) wfs_scheme" where
  "wbug = upd_wfm (\<lambda>x. x\<lparr>fm_bug := True\<rparr>)"

definition set_low :: "'l \<Rightarrow> ('l, 'b) wfs_scheme \<Rightarrow> ('l, 'b) wfs_scheme" where
  "set_low l s = s\<lparr>wx_low := l\<rparr>"

definition store_of :: "('l, 'b) wfs_scheme \<Rightarrow> lower_store \<times> 'l" where
  "store_of s = ((fm_disk (wx_fm s), fm_isize (wx_fm s)), wx_low s)"

definition set_store :: "lower_store \<times> 'l \<Rightarrow> ('l, 'b) wfs_scheme \<Rightarrow> ('l, 'b) wfs_scheme" where
  "set_store = (\<lambda>((disk, size), l) s. set_low l (upd_wfm (\<lambda>x. x\<lparr>fm_disk := disk, fm_isize := size\<rparr>) s))"

text \<open>Reference counts: \<^verbatim>\<open>dget\<close>/\<^verbatim>\<open>dput\<close>, \<^verbatim>\<open>path_get\<close>/\<^verbatim>\<open>path_put\<close>, \<^verbatim>\<open>igrab\<close>/\<^verbatim>\<open>iput\<close>, \<^verbatim>\<open>get_file\<close>/\<^verbatim>\<open>fput\<close>; a null pointer is ignored.\<close>

definition add_ref :: "nat option \<Rightarrow> int \<Rightarrow> (nat \<Rightarrow> int) \<Rightarrow> nat \<Rightarrow> int" where
  "add_ref x n r = (case x of None \<Rightarrow> r | Some a \<Rightarrow> r(a := r a + n))"

definition dref :: "nat option \<Rightarrow> int \<Rightarrow> ('l, 'b) wfs_scheme \<Rightarrow> ('l, 'b) wfs_scheme" where
  "dref d n s = s\<lparr>wx_dref := add_ref d n (wx_dref s)\<rparr>"

definition pref :: "path \<Rightarrow> int \<Rightarrow> ('l, 'b) wfs_scheme \<Rightarrow> ('l, 'b) wfs_scheme" where
  "pref p n s = (dref (path_dentry p) n s)\<lparr>wx_mref := add_ref (path_mnt p) n (wx_mref s)\<rparr>"

definition iref :: "nat option \<Rightarrow> int \<Rightarrow> ('l, 'b) wfs_scheme \<Rightarrow> ('l, 'b) wfs_scheme" where
  "iref i n s = s\<lparr>wx_iref := add_ref i n (wx_iref s)\<rparr>"

definition fref :: "nat option \<Rightarrow> int \<Rightarrow> ('l, 'b) wfs_scheme \<Rightarrow> ('l, 'b) wfs_scheme" where
  "fref f n s = s\<lparr>wx_fref := add_ref f n (wx_fref s)\<rparr>"

section \<open>The helpers of wrapfs.h\<close>

definition wrapfs_lower_file :: "('l, 'b) wfs_scheme \<Rightarrow> nat \<Rightarrow> nat option" where
  "wrapfs_lower_file s f = (case fl_private (wx_file s f) of None \<Rightarrow> None | Some w \<Rightarrow> wf_lower_file w)"

definition wrapfs_set_lower_file :: "nat \<Rightarrow> nat option \<Rightarrow> ('l, 'b) wfs_scheme \<Rightarrow> ('l, 'b) wfs_scheme" where
  "wrapfs_set_lower_file f val =
     upd_wfile f (\<lambda>x. x\<lparr>fl_private := map_option (\<lambda>w. w\<lparr>wf_lower_file := val\<rparr>) (fl_private x)\<rparr>)"

definition wrapfs_lower_inode :: "('l, 'b) wfs_scheme \<Rightarrow> nat \<Rightarrow> nat option" where
  "wrapfs_lower_inode s i = wi_lower_inode (wx_inode s i)"

definition wrapfs_set_lower_inode :: "nat \<Rightarrow> nat option \<Rightarrow> ('l, 'b) wfs_scheme \<Rightarrow> ('l, 'b) wfs_scheme" where
  "wrapfs_set_lower_inode i val = upd_inode i (\<lambda>x. x\<lparr>wi_lower_inode := val\<rparr>)"

definition null_path :: path where
  "null_path = \<lparr>path_dentry = None, path_mnt = None\<rparr>"

text \<open>The lower path of a dentry; reading it without private data would follow a null pointer.\<close>

definition lower_path_of :: "('l, 'b) wfs_scheme \<Rightarrow> nat \<Rightarrow> path" where
  "lower_path_of s d = (case wd_info (wx_dentry s d) of None \<Rightarrow> null_path | Some p \<Rightarrow> p)"

definition need_info :: "nat \<Rightarrow> ('l, 'b) wfs_scheme \<Rightarrow> ('l, 'b) wfs_scheme" where
  "need_info d s = (if wd_info (wx_dentry s d) = None then wbug s else s)"

definition wrapfs_get_lower_path :: "nat \<Rightarrow> ('l, 'b) wfs_scheme \<Rightarrow> path \<times> ('l, 'b) wfs_scheme" where
  "wrapfs_get_lower_path d s = (let p = lower_path_of s d in (p, pref p 1 (need_info d s)))"

definition wrapfs_put_lower_path :: "path \<Rightarrow> ('l, 'b) wfs_scheme \<Rightarrow> ('l, 'b) wfs_scheme" where
  "wrapfs_put_lower_path p s = pref p (- 1) s"

definition wrapfs_set_lower_path :: "nat \<Rightarrow> path \<Rightarrow> ('l, 'b) wfs_scheme \<Rightarrow> ('l, 'b) wfs_scheme" where
  "wrapfs_set_lower_path d p s = upd_dentry d (\<lambda>x. x\<lparr>wd_info := map_option (\<lambda>_. p) (wd_info x)\<rparr>) (need_info d s)"

definition wrapfs_reset_lower_path :: "nat \<Rightarrow> ('l, 'b) wfs_scheme \<Rightarrow> ('l, 'b) wfs_scheme" where
  "wrapfs_reset_lower_path d s = wrapfs_set_lower_path d null_path s"

definition wrapfs_put_reset_lower_path :: "nat \<Rightarrow> ('l, 'b) wfs_scheme \<Rightarrow> ('l, 'b) wfs_scheme" where
  "wrapfs_put_reset_lower_path d s =
     (let p = lower_path_of s d in pref p (- 1) (wrapfs_set_lower_path d null_path s))"

text \<open>\<^verbatim>\<open>lock_parent\<close> and \<^verbatim>\<open>unlock_dir\<close>: the lock has no value, the reference has.\<close>

definition lock_parent :: "('l, 'b) lower_fs_scheme \<Rightarrow> nat \<Rightarrow> ('l, 'c) wfs_scheme \<Rightarrow> nat \<times> ('l, 'c) wfs_scheme" where
  "lock_parent L d s = (let dir = lf_parent L (wx_low s) d in (dir, dref (Some dir) 1 s))"

definition unlock_dir :: "nat \<Rightarrow> ('l, 'b) wfs_scheme \<Rightarrow> ('l, 'b) wfs_scheme" where
  "unlock_dir d s = dref (Some d) (- 1) s"

text \<open>Copying attributes of a lower inode to an upper one.\<close>

definition copy_attr ::
  "(iattr \<Rightarrow> iattr \<Rightarrow> iattr) \<Rightarrow> ('l, 'b) lower_fs_scheme \<Rightarrow> nat option \<Rightarrow> nat option \<Rightarrow> ('l, 'c) wfs_scheme \<Rightarrow> ('l, 'c) wfs_scheme" where
  "copy_attr f L upper lower s =
     (case (upper, lower) of
        (Some i, Some j) \<Rightarrow> upd_inode i (\<lambda>x. x\<lparr>wi_attr := f (wi_attr x) (lf_attr L (wx_low s) j)\<rparr>) s
      | _ \<Rightarrow> wbug s)"

lemma wfs_upd_simps [simp]:
  "wx_fm (upd_inode i f s) = wx_fm s" "wx_fm (upd_dentry d g s) = wx_fm s" "wx_fm (upd_wfile k h s) = wx_fm s" "wx_fm (upd_wfm u s) = u (wx_fm s)"
  "wx_low (upd_inode i f s) = wx_low s" "wx_low (upd_dentry d g s) = wx_low s" "wx_low (upd_wfile k h s) = wx_low s" "wx_low (upd_wfm u s) = wx_low s"
  "wx_inode (upd_inode i f s) = (wx_inode s)(i := f (wx_inode s i))" "wx_inode (upd_dentry d g s) = wx_inode s"
  "wx_inode (upd_wfile k h s) = wx_inode s" "wx_inode (upd_wfm u s) = wx_inode s"
  "wx_dentry (upd_inode i f s) = wx_dentry s" "wx_dentry (upd_dentry d g s) = (wx_dentry s)(d := g (wx_dentry s d))"
  "wx_dentry (upd_wfile k h s) = wx_dentry s" "wx_dentry (upd_wfm u s) = wx_dentry s"
  "wx_file (upd_inode i f s) = wx_file s" "wx_file (upd_dentry d g s) = wx_file s"
  "wx_file (upd_wfile k h s) = (wx_file s)(k := h (wx_file s k))" "wx_file (upd_wfm u s) = wx_file s"
  "wx_ino_pvd (upd_inode i f s) = wx_ino_pvd s" "wx_ino_pvd (upd_dentry d g s) = wx_ino_pvd s"
  "wx_ino_pvd (upd_wfile k h s) = wx_ino_pvd s" "wx_ino_pvd (upd_wfm u s) = wx_ino_pvd s"
  "wx_icache (upd_inode i f s) = wx_icache s" "wx_icache (upd_dentry d g s) = wx_icache s"
  "wx_icache (upd_wfile k h s) = wx_icache s" "wx_icache (upd_wfm u s) = wx_icache s"
  by (simp_all add: upd_inode_def upd_dentry_def upd_wfile_def upd_wfm_def)

lemma wfs_refs_upd [simp]:
  "wx_dref (upd_inode i f s) = wx_dref s" "wx_dref (upd_dentry d g s) = wx_dref s" "wx_dref (upd_wfile k h s) = wx_dref s" "wx_dref (upd_wfm u s) = wx_dref s"
  "wx_mref (upd_inode i f s) = wx_mref s" "wx_mref (upd_dentry d g s) = wx_mref s" "wx_mref (upd_wfile k h s) = wx_mref s" "wx_mref (upd_wfm u s) = wx_mref s"
  "wx_iref (upd_inode i f s) = wx_iref s" "wx_iref (upd_dentry d g s) = wx_iref s" "wx_iref (upd_wfile k h s) = wx_iref s" "wx_iref (upd_wfm u s) = wx_iref s"
  "wx_fref (upd_inode i f s) = wx_fref s" "wx_fref (upd_dentry d g s) = wx_fref s" "wx_fref (upd_wfile k h s) = wx_fref s" "wx_fref (upd_wfm u s) = wx_fref s"
  "wx_lower_sb (upd_inode i f s) = wx_lower_sb s" "wx_lower_sb (upd_dentry d g s) = wx_lower_sb s"
  "wx_lower_sb (upd_wfile k h s) = wx_lower_sb s" "wx_lower_sb (upd_wfm u s) = wx_lower_sb s"
  by (simp_all add: upd_inode_def upd_dentry_def upd_wfile_def upd_wfm_def)

lemma wbug_simps [simp]:
  "wx_fm (wbug s) = (wx_fm s)\<lparr>fm_bug := True\<rparr>" "wx_low (wbug s) = wx_low s" "wx_inode (wbug s) = wx_inode s" "wx_dentry (wbug s) = wx_dentry s"
  "wx_file (wbug s) = wx_file s" "wx_ino_pvd (wbug s) = wx_ino_pvd s" "wx_icache (wbug s) = wx_icache s" "wx_lower_sb (wbug s) = wx_lower_sb s"
  "wx_dref (wbug s) = wx_dref s" "wx_mref (wbug s) = wx_mref s" "wx_iref (wbug s) = wx_iref s" "wx_fref (wbug s) = wx_fref s"
  by (simp_all add: wbug_def)

lemma set_low_simps [simp]:
  "wx_fm (set_low l s) = wx_fm s" "wx_low (set_low l s) = l" "wx_inode (set_low l s) = wx_inode s" "wx_dentry (set_low l s) = wx_dentry s"
  "wx_file (set_low l s) = wx_file s" "wx_ino_pvd (set_low l s) = wx_ino_pvd s" "wx_icache (set_low l s) = wx_icache s" "wx_lower_sb (set_low l s) = wx_lower_sb s"
  "wx_dref (set_low l s) = wx_dref s" "wx_mref (set_low l s) = wx_mref s" "wx_iref (set_low l s) = wx_iref s" "wx_fref (set_low l s) = wx_fref s"
  by (simp_all add: set_low_def)

lemma dref_simps [simp]:
  "wx_fm (dref d n s) = wx_fm s" "wx_low (dref d n s) = wx_low s" "wx_inode (dref d n s) = wx_inode s" "wx_dentry (dref d n s) = wx_dentry s"
  "wx_file (dref d n s) = wx_file s" "wx_ino_pvd (dref d n s) = wx_ino_pvd s" "wx_icache (dref d n s) = wx_icache s" "wx_lower_sb (dref d n s) = wx_lower_sb s"
  "wx_dref (dref d n s) = add_ref d n (wx_dref s)" "wx_mref (dref d n s) = wx_mref s" "wx_iref (dref d n s) = wx_iref s" "wx_fref (dref d n s) = wx_fref s"
  by (simp_all add: dref_def)

lemma pref_simps [simp]:
  "wx_fm (pref p n s) = wx_fm s" "wx_low (pref p n s) = wx_low s" "wx_inode (pref p n s) = wx_inode s" "wx_dentry (pref p n s) = wx_dentry s"
  "wx_file (pref p n s) = wx_file s" "wx_ino_pvd (pref p n s) = wx_ino_pvd s" "wx_icache (pref p n s) = wx_icache s" "wx_lower_sb (pref p n s) = wx_lower_sb s"
  "wx_dref (pref p n s) = add_ref (path_dentry p) n (wx_dref s)" "wx_mref (pref p n s) = add_ref (path_mnt p) n (wx_mref s)"
  "wx_iref (pref p n s) = wx_iref s" "wx_fref (pref p n s) = wx_fref s"
  by (simp_all add: pref_def)

lemma iref_simps [simp]:
  "wx_fm (iref i n s) = wx_fm s" "wx_low (iref i n s) = wx_low s" "wx_inode (iref i n s) = wx_inode s" "wx_dentry (iref i n s) = wx_dentry s"
  "wx_file (iref i n s) = wx_file s" "wx_ino_pvd (iref i n s) = wx_ino_pvd s" "wx_icache (iref i n s) = wx_icache s" "wx_lower_sb (iref i n s) = wx_lower_sb s"
  "wx_dref (iref i n s) = wx_dref s" "wx_mref (iref i n s) = wx_mref s" "wx_iref (iref i n s) = add_ref i n (wx_iref s)" "wx_fref (iref i n s) = wx_fref s"
  by (simp_all add: iref_def)

lemma fref_simps [simp]:
  "wx_fm (fref f n s) = wx_fm s" "wx_low (fref f n s) = wx_low s" "wx_inode (fref f n s) = wx_inode s" "wx_dentry (fref f n s) = wx_dentry s"
  "wx_file (fref f n s) = wx_file s" "wx_ino_pvd (fref f n s) = wx_ino_pvd s" "wx_icache (fref f n s) = wx_icache s" "wx_lower_sb (fref f n s) = wx_lower_sb s"
  "wx_dref (fref f n s) = wx_dref s" "wx_mref (fref f n s) = wx_mref s" "wx_iref (fref f n s) = wx_iref s" "wx_fref (fref f n s) = add_ref f n (wx_fref s)"
  by (simp_all add: fref_def)

lemma need_info_simps [simp]:
  "wx_low (need_info d s) = wx_low s" "wx_inode (need_info d s) = wx_inode s" "wx_dentry (need_info d s) = wx_dentry s"
  "wx_file (need_info d s) = wx_file s" "wx_ino_pvd (need_info d s) = wx_ino_pvd s" "wx_icache (need_info d s) = wx_icache s"
  "wx_lower_sb (need_info d s) = wx_lower_sb s" "wx_dref (need_info d s) = wx_dref s" "wx_mref (need_info d s) = wx_mref s"
  "wx_iref (need_info d s) = wx_iref s" "wx_fref (need_info d s) = wx_fref s" "fm_pvd (wx_fm (need_info d s)) = fm_pvd (wx_fm s)"
  by (simp_all add: need_info_def)

lemma copy_attr_simps [simp]:
  "wx_low (copy_attr h L i j s) = wx_low s" "wx_dentry (copy_attr h L i j s) = wx_dentry s" "wx_file (copy_attr h L i j s) = wx_file s"
  "wx_ino_pvd (copy_attr h L i j s) = wx_ino_pvd s" "wx_icache (copy_attr h L i j s) = wx_icache s" "wx_lower_sb (copy_attr h L i j s) = wx_lower_sb s"
  "wx_dref (copy_attr h L i j s) = wx_dref s" "wx_mref (copy_attr h L i j s) = wx_mref s" "wx_iref (copy_attr h L i j s) = wx_iref s"
  "wx_fref (copy_attr h L i j s) = wx_fref s" "fm_pvd (wx_fm (copy_attr h L i j s)) = fm_pvd (wx_fm s)"
  by (simp_all add: copy_attr_def split: option.splits)

lemma add_ref_undo [simp]: "add_ref a (- n) (add_ref a n r) = r"
  by (cases a) (simp_all add: add_ref_def)

lemma add_ref_Some [simp]: "add_ref (Some a) n r = r(a := r a + n)" and add_ref_None [simp]: "add_ref None n r = r"
  by (simp_all add: add_ref_def)

end
