(* ===== verification/Wrapfs_File.thy ===== *)
theory Wrapfs_File
  imports Wrapfs_State
begin

text \<open>
  \<^verbatim>\<open>dmapfs_file.c\<close>: open files of the stacked file system. All files of an inode share one backing object,
  found by inode number; closing and \<^verbatim>\<open>fsync\<close> write its dirty pages. \<^verbatim>\<open>read\<close> and \<^verbatim>\<open>write\<close> go to the lower
  file, except for a read inside one cached page.
\<close>

section \<open>Backing objects of files\<close>

text \<open>The object that \<^verbatim>\<open>create_and_add_file_pvd\<close> fills in for the lower file \<open>filp\<close> with inode \<open>i\<close>.\<close>

definition create_and_add_file_pvd :: "('l, 'b) lower_fs_scheme \<Rightarrow> nat \<Rightarrow> nat \<Rightarrow> pr_vma_data" where
  "create_and_add_file_pvd L filp i = \<lparr>pvd_type = D_FILE, pvd_dev_id = lf_s_dev L (lf_i_sb L i), pvd_ino = unat (lf_i_ino L i), pvd_cnt = 0,
     pvd_mmaped = 0, pvd_bk = Some filp, pvd_open_fds = (replicate MAX_OPEN_FDS None)[0 := Some filp], pvd_dirty_tree = (\<lambda>c. Leaf), pvd_rdd = None,
     pvd_is_readonly = True, pvd_is_mmap = False, pvd_is_valid = True, pvd_rdx = (\<lambda>c i. None), pvd_vma_count = 0,
     pvd_during_unlink = 0\<rparr>"

text \<open>Entering a file into the first free slot of \<^verbatim>\<open>open_fds\<close>, if there is one, and clearing its first slot.\<close>

fun fds_add :: "nat \<Rightarrow> nat option list \<Rightarrow> nat option list" where
  "fds_add f [] = []"
| "fds_add f (None # xs) = Some f # xs"
| "fds_add f (Some g # xs) = Some g # fds_add f xs"

fun fds_clear :: "nat option \<Rightarrow> nat option list \<Rightarrow> nat option list" where
  "fds_clear f [] = []"
| "fds_clear f (x # xs) = (if x = f then None # xs else x # fds_clear f xs)"

text \<open>The slots of files whose inode is gone are cleared; the object then uses the first file that is left.\<close>

definition fds_prune :: "(nat \<Rightarrow> bool) \<Rightarrow> nat option list \<Rightarrow> nat option list" where
  "fds_prune alive xs = map (\<lambda>x. case x of Some f \<Rightarrow> if alive f then x else None | None \<Rightarrow> None) xs"

fun fds_pick :: "(nat \<Rightarrow> bool) \<Rightarrow> nat option list \<Rightarrow> nat option" where
  "fds_pick alive [] = None"
| "fds_pick alive (None # xs) = fds_pick alive xs"
| "fds_pick alive (Some f # xs) = (if alive f then Some f else fds_pick alive xs)"

section \<open>Opening\<close>

definition set_private :: "nat \<Rightarrow> wrapfs_file_info option \<Rightarrow> ('l, 'b) wfs_scheme \<Rightarrow> ('l, 'b) wfs_scheme" where
  "set_private f w = upd_wfile f (\<lambda>x. x\<lparr>fl_private := w\<rparr>)"

definition set_fmap_pvd :: "nat \<Rightarrow> nat \<Rightarrow> nat \<Rightarrow> ('l, 'b) wfs_scheme \<Rightarrow> ('l, 'b) wfs_scheme" where
  "set_fmap_pvd f fi d s =
     upd_wfile f (\<lambda>x. x\<lparr>fl_private := map_option (\<lambda>w. w\<lparr>wf_pvd := Some d\<rparr>) (fl_private x)\<rparr>)
       (upd_wfm (\<lambda>x. x\<lparr>fm_info := (fm_info x)(fi := (fm_info x fi)\<lparr>fi_pvd := d\<rparr>)\<rparr>) s)"

text \<open>
  The part of \<^verbatim>\<open>wrapfs_open\<close> for regular files. It follows \<^verbatim>\<open>lower_file->f_inode\<close> before it is known whether the lower file could be
  opened. \<open>pvd\<close> is the memory \<^verbatim>\<open>kzalloc\<close> returns.
\<close>

definition open_pvd :: "('l, 'b) lower_fs_scheme \<Rightarrow> nat \<Rightarrow> nat \<Rightarrow> int + nat \<Rightarrow> nat \<Rightarrow> 'l wfs \<Rightarrow> 'l wfs" where
  "open_pvd L f fi lower pvd s =
     (case lower of
        Inl err \<Rightarrow> wbug s
      | Inr lower_file \<Rightarrow>
          (case lf_f_inode L (wx_low s) lower_file of
             None \<Rightarrow> wbug s
           | Some i \<Rightarrow>
               (case wx_ino_pvd s (lf_i_ino L i) of
                  None \<Rightarrow>
                    (let s = upd_wfm (upd_pvd pvd (\<lambda>_. create_and_add_file_pvd L lower_file i)) s;
                         s = s\<lparr>wx_ino_pvd := (wx_ino_pvd s)(lf_i_ino L i := Some pvd)\<rparr>
                     in set_fmap_pvd f fi pvd s)
                | Some d \<Rightarrow>
                    (let s = upd_wfm (upd_pvd d (\<lambda>v. v\<lparr>pvd_open_fds := fds_add lower_file (pvd_open_fds v)\<rparr>)) s;
                         s = upd_wfm (upd_pvd d (\<lambda>v. v\<lparr>pvd_bk := Some lower_file\<rparr>)) s
                     in set_fmap_pvd f fi d s))))"

definition is_regular :: "('l, 'b) wfs_scheme \<Rightarrow> nat \<Rightarrow> bool" where
  "is_regular s d = (case wd_inode (wx_dentry s d) of None \<Rightarrow> False | Some i \<Rightarrow> S_ISREG (ia_mode (wi_attr (wx_inode s i))))"

text \<open>Opening the lower object, and what follows: the backing object of a regular file, and the attributes.\<close>

definition open_lower :: "('l, 'b) lower_fs_scheme \<Rightarrow> nat \<Rightarrow> 'l wfs \<Rightarrow> (int + nat) \<times> 'l wfs" where
  "open_lower L f s =
     (let (lower_path, s) = wrapfs_get_lower_path (fl_dentry (wx_file s f)) s;
          (lower, low) = lf_open L lower_path (fl_flags (wx_file s f)) (wx_low s);
          s = wrapfs_put_lower_path lower_path (set_low low s)
      in (lower, case lower of Inl err \<Rightarrow> s | Inr lower_file \<Rightarrow> fref (Some lower_file) 1 s))"

definition open_finish :: "('l, 'b) lower_fs_scheme \<Rightarrow> nat \<Rightarrow> nat \<Rightarrow> nat \<Rightarrow> nat \<Rightarrow> (int + nat) \<times> 'l wfs \<Rightarrow> int \<times> 'l wfs" where
  "open_finish L inode f fi pvd = (\<lambda>(lower, s).
     let s = (if is_regular s (fl_dentry (wx_file s f)) then open_pvd L f fi lower pvd s else s)
     in case lower of
          Inl err \<Rightarrow> (err, set_private f None s)
        | Inr lower_file \<Rightarrow>
            (let s = wrapfs_set_lower_file f (Some lower_file) s
             in (0, copy_attr (lf_copy_all L) L (Some inode) (wrapfs_lower_inode s inode) s)))"

text \<open>
  \<open>mem\<close> and \<open>fi\<close> are the results of the two calls of \<^verbatim>\<open>kzalloc\<close>. When the second fails the first allocation stays with the file.
\<close>

definition open_memory :: "nat \<Rightarrow> nat \<Rightarrow> 'l wfs \<Rightarrow> 'l wfs" where
  "open_memory f fi s =
     set_private f (Some \<lparr>wf_lower_file = None, wf_fmap_info = Some fi, wf_pvd = None\<rparr>)
       (upd_wfm (\<lambda>x. x\<lparr>fm_info := (fm_info x)(fi := \<lparr>fi_is_fastmap = False, fi_pvd = 0, fi_pve = 0\<rparr>)\<rparr>) s)"

definition wrapfs_open ::
  "('l, 'b) lower_fs_scheme \<Rightarrow> nat \<Rightarrow> nat \<Rightarrow> bool \<Rightarrow> nat option \<Rightarrow> nat \<Rightarrow> 'l wfs \<Rightarrow> int \<times> 'l wfs" where
  "wrapfs_open L inode f mem fi pvd s =
     (if \<not> wd_hashed (wx_dentry s (fl_dentry (wx_file s f))) then (- ENOENT, s)
      else if \<not> mem then (- ENOMEM, set_private f None s)
      else case fi of
             None \<Rightarrow> (- ENOMEM, set_private f (Some \<lparr>wf_lower_file = None, wf_fmap_info = None, wf_pvd = None\<rparr>) s)
           | Some fi \<Rightarrow> open_finish L inode f fi pvd (open_lower L f (open_memory f fi s)))"

section \<open>Closing and synchronisation\<close>

definition wrapfs_file_release_cb :: "pid \<Rightarrow> fm \<Rightarrow> fm" where
  "wrapfs_file_release_cb p s = move_page_d2c_fifo_buffer_t p s"

definition wrapfs_file_fsync_cb :: "kernel \<Rightarrow> pid \<Rightarrow> fm \<Rightarrow> fm" where
  "wrapfs_file_fsync_cb K p s = (let (et, s) = clear_mappings K p (None, s) in move_page_d2c_fifo_buffer_t p s)"

text \<open>
  Closing a file of a mapped object: the dirty pages are written through the lower file that is closed, then the
  object gets another open file, if one is left. \<open>None\<close>: a dirty page is locked by someone else and the code spins.
\<close>

definition release_mapped :: "kernel \<Rightarrow> ('l, 'b) lower_fs_scheme \<Rightarrow> nat option \<Rightarrow> nat \<Rightarrow> 'l wfs \<Rightarrow> 'l wfs option" where
  "release_mapped K L lower_file d s =
     (let s = (if lower_file = None then wbug s else upd_wfm (upd_pvd d (\<lambda>v. v\<lparr>pvd_bk := lower_file\<rparr>)) s)
      in case write_dirty_pages K d (Some wrapfs_file_release_cb) (wx_fm s) of
           None \<Rightarrow> None
         | Some (log, x) \<Rightarrow>
             (let alive = (\<lambda>g. lf_f_inode L (wx_low s) g \<noteq> None);
                  s = s\<lparr>wx_fm := x\<rparr>;
                  s = upd_wfm (upd_pvd d (\<lambda>v. v\<lparr>pvd_open_fds := fds_clear lower_file (pvd_open_fds v)\<rparr>)) s;
                  s = upd_wfm (upd_pvd d (\<lambda>v. v\<lparr>pvd_open_fds := fds_prune alive (pvd_open_fds v)\<rparr>)) s
              in Some (upd_wfm (upd_pvd d (\<lambda>v. v\<lparr>pvd_bk := (case fds_pick alive (pvd_open_fds v) of None \<Rightarrow> pvd_bk v | Some g \<Rightarrow> Some g)\<rparr>)) s)))"

definition pvd_mapped :: "pr_vma_data \<Rightarrow> bool" where
  "pvd_mapped v \<longleftrightarrow> pvd_is_mmap v \<and> pvd_is_valid v \<and> pvd_mmaped v = 1"

definition wrapfs_file_release :: "kernel \<Rightarrow> ('l, 'b) lower_fs_scheme \<Rightarrow> nat \<Rightarrow> 'l wfs \<Rightarrow> (int \<times> 'l wfs) option" where
  "wrapfs_file_release K L f s =
     (case fl_private (wx_file s f) of
        None \<Rightarrow> Some (0, wbug s)
      | Some w \<Rightarrow>
          (let lower_file = wf_lower_file w
           in case (case wf_pvd w of
                      None \<Rightarrow> Some s
                    | Some d \<Rightarrow>
                        if pvd_mapped (fm_pvd (wx_fm s) d) then release_mapped K L lower_file d s
                        else Some (upd_wfm (upd_pvd d (\<lambda>v. v\<lparr>pvd_open_fds := fds_clear lower_file (pvd_open_fds v)\<rparr>)) s)) of
                None \<Rightarrow> None
              | Some s \<Rightarrow> Some (0, set_private f None (fref lower_file (- 1) s))))"

definition wrapfs_fsync :: "kernel \<Rightarrow> ('l, 'b) lower_fs_scheme \<Rightarrow> nat \<Rightarrow> u64 \<Rightarrow> u64 \<Rightarrow> bool \<Rightarrow> 'l wfs \<Rightarrow> (int \<times> 'l wfs) option" where
  "wrapfs_fsync K L f beg fin datasync s =
     (case fl_private (wx_file s f) of
        None \<Rightarrow> Some (0, wbug s)
      | Some w \<Rightarrow>
          (case (case wf_pvd w of
                   None \<Rightarrow> Some s
                 | Some d \<Rightarrow> map_option (\<lambda>(log, x). s\<lparr>wx_fm := x\<rparr>) (write_dirty_pages K d (Some (wrapfs_file_fsync_cb K)) (wx_fm s))) of
             None \<Rightarrow> None
           | Some s \<Rightarrow>
               (let err = lf_generic_fsync L f beg fin datasync
                in if err \<noteq> 0 then Some (err, s)
                   else case wf_lower_file w of
                          None \<Rightarrow> Some (0, wbug s)
                        | Some lower_file \<Rightarrow>
                            (let (path, s) = wrapfs_get_lower_path (fl_dentry (wx_file s f)) s;
                                 (err, low) = lf_fsync_range L lower_file beg fin datasync (wx_low s)
                             in Some (err, wrapfs_put_lower_path path (set_low low s))))))"

section \<open>Reading and writing\<close>

text \<open>
  The copy adds the position in the file, and not that in the page, to the address of the cached page. Outside the page
  the memory belongs to something else.
\<close>

definition read_cached :: "pdata \<Rightarrow> u64 \<Rightarrow> u64 \<Rightarrow> pdata option" where
  "read_cached content ppos len =
     (if len = 0 \<or> unat ppos + unat len \<le> 4096 then Some (take (unat len) (drop (unat ppos) content)) else None)"

definition touch_file :: "('l, 'b) lower_fs_scheme \<Rightarrow> nat option \<Rightarrow> 'l wfs \<Rightarrow> 'l wfs" where
  "touch_file L i s = (case i of None \<Rightarrow> s | Some i \<Rightarrow> upd_inode i (\<lambda>x. x\<lparr>wi_attr := lf_touch L (wi_attr x)\<rparr>) s)"

text \<open>The result is what the call returns, the bytes that reach the caller's buffer and the new position.\<close>

definition lower_read :: "('l, 'b) lower_fs_scheme \<Rightarrow> nat \<Rightarrow> u64 \<Rightarrow> u64 \<Rightarrow> 'l wfs \<Rightarrow> (int \<times> pdata \<times> u64) \<times> 'l wfs" where
  "lower_read L f len ppos s =
     (case wrapfs_lower_file s f of
        None \<Rightarrow> ((0, [], ppos), wbug s)
      | Some lower_file \<Rightarrow>
          (let ((err, data, pos), low) = lf_read L lower_file len ppos (store_of s);
               s = set_low low s
           in ((err, data, pos), if err \<ge> 0
                 then copy_attr (lf_copy_atime L) L (wd_inode (wx_dentry s (fl_dentry (wx_file s f)))) (lf_f_inode L (wx_low s) lower_file) s else s)))"

definition wrapfs_read ::
  "kernel \<Rightarrow> ('l, 'b) lower_fs_scheme \<Rightarrow> nat \<Rightarrow> u64 \<Rightarrow> u64 \<Rightarrow> 'l wfs \<Rightarrow> (int \<times> pdata \<times> u64) \<times> 'l wfs" where
  "wrapfs_read K L f len ppos s =
     (case map_option wf_pvd (fl_private (wx_file s f)) of
        Some (Some d) \<Rightarrow>
          if pvd_mmaped (fm_pvd (wx_fm s) d) = 1 \<and> (drop_bit 12 ppos :: u64) = drop_bit 12 (ppos + len)
          then case radix_lookup K (wx_fm s) d (drop_bit 12 ppos) of
                 None \<Rightarrow> lower_read L f len ppos s
               | Some p \<Rightarrow>
                   (let data = read_cached (page_content (wx_fm s) p) ppos len;
                        s = (if data = None then wbug s else s);
                        s = (case wrapfs_lower_file s f of None \<Rightarrow> wbug s | Some g \<Rightarrow> set_low (lf_accessed L g (wx_low s)) s);
                        s = touch_file L (wd_inode (wx_dentry s (fl_dentry (wx_file s f)))) s
                    in ((uint len, case data of None \<Rightarrow> [] | Some b \<Rightarrow> b, ppos), s))
          else lower_read L f len ppos s
      | _ \<Rightarrow> lower_read L f len ppos s)"

text \<open>\<^verbatim>\<open>wrapfs_write\<close> looks the pages up only to log them.\<close>

definition copy_size_times :: "('l, 'b) lower_fs_scheme \<Rightarrow> nat option \<Rightarrow> nat option \<Rightarrow> 'l wfs \<Rightarrow> 'l wfs" where
  "copy_size_times L upper lower s = copy_attr (lf_copy_times L) L upper lower (copy_attr (lf_copy_size L) L upper lower s)"

definition wrapfs_write :: "('l, 'b) lower_fs_scheme \<Rightarrow> nat \<Rightarrow> pdata \<Rightarrow> u64 \<Rightarrow> 'l wfs \<Rightarrow> (int \<times> u64) \<times> 'l wfs" where
  "wrapfs_write L f buf ppos s =
     (case wrapfs_lower_file s f of
        None \<Rightarrow> ((0, ppos), wbug s)
      | Some lower_file \<Rightarrow>
          (let ((err, pos), st) = lf_write L lower_file buf ppos (store_of s);
               s = set_store st s
           in ((err, pos), if err \<ge> 0
                 then copy_size_times L (wd_inode (wx_dentry s (fl_dentry (wx_file s f)))) (lf_f_inode L (wx_low s) lower_file) s else s)))"

abbreviation (input) EIOCBQUEUED :: int where "EIOCBQUEUED \<equiv> 529"

definition wrapfs_read_iter :: "('l, 'b) lower_fs_scheme \<Rightarrow> nat \<Rightarrow> u64 \<Rightarrow> u64 \<Rightarrow> 'l wfs \<Rightarrow> (int \<times> pdata \<times> u64) \<times> 'l wfs" where
  "wrapfs_read_iter L f len ppos s =
     (case wrapfs_lower_file s f of
        None \<Rightarrow> ((0, [], ppos), wbug s)
      | Some lower_file \<Rightarrow>
          (case lf_read_iter L lower_file of
             None \<Rightarrow> ((- EINVAL, [], ppos), s)
           | Some rd \<Rightarrow>
               (let s = fref (Some lower_file) 1 s;
                    ((err, data, pos), low) = rd len ppos (store_of s);
                    s = fref (Some lower_file) (- 1) (set_low low s)
                in ((err, data, pos), if err \<ge> 0 \<or> err = - EIOCBQUEUED
                      then copy_attr (lf_copy_atime L) L (wd_inode (wx_dentry s (fl_dentry (wx_file s f)))) (lf_f_inode L (wx_low s) lower_file) s else s))))"

definition wrapfs_write_iter :: "('l, 'b) lower_fs_scheme \<Rightarrow> nat \<Rightarrow> pdata \<Rightarrow> u64 \<Rightarrow> 'l wfs \<Rightarrow> (int \<times> u64) \<times> 'l wfs" where
  "wrapfs_write_iter L f buf ppos s =
     (case wrapfs_lower_file s f of
        None \<Rightarrow> ((0, ppos), wbug s)
      | Some lower_file \<Rightarrow>
          (case lf_write_iter L lower_file of
             None \<Rightarrow> ((- EINVAL, ppos), s)
           | Some wr \<Rightarrow>
               (let s = fref (Some lower_file) 1 s;
                    ((err, pos), st) = wr buf ppos (store_of s);
                    s = fref (Some lower_file) (- 1) (set_store st s)
                in ((err, pos), if err \<ge> 0 \<or> err = - EIOCBQUEUED
                      then copy_size_times L (wd_inode (wx_dentry s (fl_dentry (wx_file s f)))) (lf_f_inode L (wx_low s) lower_file) s else s))))"

definition wrapfs_fallocate :: "('l, 'b) lower_fs_scheme \<Rightarrow> nat \<Rightarrow> int \<Rightarrow> u64 \<Rightarrow> u64 \<Rightarrow> 'l wfs \<Rightarrow> int \<times> 'l wfs" where
  "wrapfs_fallocate L f mode offset len s =
     (case wrapfs_lower_file s f of
        None \<Rightarrow> (0, wbug s)
      | Some lower_file \<Rightarrow>
          (let (err, st) = lf_fallocate L lower_file mode offset len (store_of s);
               s = set_store st s
           in (err, if err \<ge> 0
                 then copy_size_times L (wd_inode (wx_dentry s (fl_dentry (wx_file s f)))) (lf_f_inode L (wx_low s) lower_file) s else s)))"

section \<open>The other operations of a file\<close>

definition wrapfs_readdir :: "('l, 'b) lower_fs_scheme \<Rightarrow> nat \<Rightarrow> 'l wfs \<Rightarrow> int \<times> 'l wfs" where
  "wrapfs_readdir L f s =
     (case wrapfs_lower_file s f of
        None \<Rightarrow> (0, wbug s)
      | Some lower_file \<Rightarrow>
          (let (err, low) = lf_iterate_dir L lower_file (wx_low s);
               s = upd_wfile f (\<lambda>x. x\<lparr>fl_pos := lf_f_pos L low lower_file\<rparr>) (set_low low s)
           in (err, if err \<ge> 0
                 then copy_attr (lf_copy_atime L) L (wd_inode (wx_dentry s (fl_dentry (wx_file s f)))) (lf_f_inode L (wx_low s) lower_file) s else s)))"

text \<open>The body of \<^verbatim>\<open>dmap_priority_ioctl\<close> is compiled out: it accepts every command, so the lower file never gets one.\<close>

definition dmap_priority_ioctl :: "u32 \<Rightarrow> u64 \<Rightarrow> int" where
  "dmap_priority_ioctl cmd arg = 0"

definition wrapfs_unlocked_ioctl :: "('l, 'b) lower_fs_scheme \<Rightarrow> nat \<Rightarrow> nat \<Rightarrow> u32 \<Rightarrow> u64 \<Rightarrow> 'l wfs \<Rightarrow> int \<times> 'l wfs" where
  "wrapfs_unlocked_ioctl L inode f cmd arg s =
     (case wrapfs_lower_file s f of
        None \<Rightarrow> (- ENOTTY, s)
      | Some lower_file \<Rightarrow>
          if \<not> lf_f_op L lower_file then (- ENOTTY, s)
          else let err = dmap_priority_ioctl cmd arg
               in if err = 0 then (err, s)
                  else let (err, s) = (case lf_ioctl L lower_file False of
                                         None \<Rightarrow> (err, s)
                                       | Some h \<Rightarrow> (let (e, low) = h cmd arg (wx_low s) in (e, set_low low s)))
                       in (err, if err = 0 then copy_attr (lf_copy_all L) L (Some inode) (lf_f_inode L (wx_low s) lower_file) s else s))"

definition wrapfs_compat_ioctl :: "('l, 'b) lower_fs_scheme \<Rightarrow> nat \<Rightarrow> u32 \<Rightarrow> u64 \<Rightarrow> 'l wfs \<Rightarrow> int \<times> 'l wfs" where
  "wrapfs_compat_ioctl L f cmd arg s =
     (case wrapfs_lower_file s f of
        None \<Rightarrow> (- ENOTTY, s)
      | Some lower_file \<Rightarrow>
          if \<not> lf_f_op L lower_file then (- ENOTTY, s)
          else let err = dmap_priority_ioctl cmd arg
               in if err = 0 then (err, s)
                  else case lf_ioctl L lower_file True of
                         None \<Rightarrow> (err, s)
                       | Some h \<Rightarrow> (let (e, low) = h cmd arg (wx_low s) in (e, set_low low s)))"

definition wrapfs_flush :: "('l, 'b) lower_fs_scheme \<Rightarrow> nat \<Rightarrow> 'l wfs \<Rightarrow> int \<times> 'l wfs" where
  "wrapfs_flush L f s =
     (case wrapfs_lower_file s f of
        None \<Rightarrow> (0, s)
      | Some lower_file \<Rightarrow>
          if \<not> lf_f_op L lower_file then (0, s)
          else case lf_flush L lower_file of None \<Rightarrow> (0, s) | Some h \<Rightarrow> (let (e, low) = h (wx_low s) in (e, set_low low s)))"

definition wrapfs_fasync :: "('l, 'b) lower_fs_scheme \<Rightarrow> int \<Rightarrow> nat \<Rightarrow> int \<Rightarrow> 'l wfs \<Rightarrow> int \<times> 'l wfs" where
  "wrapfs_fasync L fd f flag s =
     (case wrapfs_lower_file s f of
        None \<Rightarrow> (0, wbug s)
      | Some lower_file \<Rightarrow>
          if \<not> lf_f_op L lower_file then (0, s)
          else case lf_fasync L lower_file of None \<Rightarrow> (0, s) | Some h \<Rightarrow> (let (e, low) = h fd flag (wx_low s) in (e, set_low low s)))"

text \<open>\<open>up\<close> is the result of \<^verbatim>\<open>generic_file_llseek\<close> on the upper file with its new position.\<close>

definition wrapfs_file_llseek :: "('l, 'b) lower_fs_scheme \<Rightarrow> nat \<Rightarrow> u64 \<Rightarrow> int \<Rightarrow> int \<times> u64 \<Rightarrow> 'l wfs \<Rightarrow> int \<times> 'l wfs" where
  "wrapfs_file_llseek L f offset whence up s =
     (let (err, pos) = up;
          s = upd_wfile f (\<lambda>x. x\<lparr>fl_pos := pos\<rparr>) s
      in if err < 0 then (err, s)
         else case wrapfs_lower_file s f of
                None \<Rightarrow> (0, wbug s)
              | Some lower_file \<Rightarrow> (let (e, low) = lf_llseek L lower_file offset whence (wx_low s) in (e, set_low low s)))"

section \<open>Emptying the cache of backing objects\<close>

text \<open>
  The loop that takes all pages out of the radix trees of an object, for any treatment \<open>g\<close> of a page. \<open>None\<close>: \<open>g\<close> waits, or
  the end of the fuel.
\<close>

fun rdx_drain :: "(pid \<Rightarrow> fm \<Rightarrow> fm option) \<Rightarrow> kernel \<Rightarrow> dev_env \<Rightarrow> nat \<Rightarrow> nat \<Rightarrow> fm \<Rightarrow> fm option" where
  "rdx_drain g K E pvd 0 s = None"
| "rdx_drain g K E pvd (Suc n) s =
     (case rdx_scan E (pvd_rdx (fm_pvd s pvd)) [0..<ncpus K] of
        None \<Rightarrow> Some s
      | Some (cpu, i, p) \<Rightarrow>
          (let s = upd_pvd pvd (\<lambda>v. v\<lparr>pvd_rdx := (pvd_rdx v)(cpu := (pvd_rdx v cpu)(i := None))\<rparr>) s
           in case g p s of None \<Rightarrow> None | Some s \<Rightarrow> rdx_drain g K E pvd n s))"

text \<open>\<^verbatim>\<open>__clear_pvd\<close> expects every page in its clean queue.\<close>

definition clear_pvd_page :: "pid \<Rightarrow> fm \<Rightarrow> fm option" where
  "clear_pvd_page p s =
     (let (r, tp) = trylock_tp (pm_pages s p) ULONG_MAX
      in if r \<noteq> 0 then None
         else let s = upd_page p (\<lambda>_. tp) s;
                  s = (if tp_buffer_id (pm_pages s p) = BI_CLEAN then s else s\<lparr>fm_bug := True\<rparr>)
              in Some (free_page_lock p (rem_clean (clean_q (p_index s p)) p s)))"

definition clear_pvd :: "kernel \<Rightarrow> dev_env \<Rightarrow> nat \<Rightarrow> fm \<Rightarrow> fm option" where
  "clear_pvd K E pvd s = rdx_drain clear_pvd_page K E pvd (Suc (pm_total s)) s"

definition ino_cache_init :: "'l wfs \<Rightarrow> 'l wfs" where
  "ino_cache_init s = s\<lparr>wx_ino_pvd := (\<lambda>i. None)\<rparr>"

text \<open>\<open>n\<close> bounds the number of cached objects.\<close>

fun ino_cache_clear :: "kernel \<Rightarrow> dev_env \<Rightarrow> nat \<Rightarrow> 'l wfs \<Rightarrow> 'l wfs option" where
  "ino_cache_clear K E 0 s = None"
| "ino_cache_clear K E (Suc n) s =
     (case de_rdx_first E (wx_ino_pvd s) of
        None \<Rightarrow> Some s
      | Some ino \<Rightarrow>
          (case wx_ino_pvd s ino of
             None \<Rightarrow> Some s
           | Some d \<Rightarrow>
               (let s = s\<lparr>wx_ino_pvd := (wx_ino_pvd s)(ino := None)\<rparr>
                in case clear_pvd K E d (wx_fm s) of
                     None \<Rightarrow> None
                   | Some x \<Rightarrow> ino_cache_clear K E n (fref (pvd_bk (fm_pvd x d)) (- 1) (s\<lparr>wx_fm := x\<rparr>)))))"

section \<open>What writing the dirty pages of a file does\<close>

lemma file_callbacks: "wrapfs_file_release_cb = blkdev_release_cb" "wrapfs_file_fsync_cb = blkdev_fsync_cb"
  by (simp_all add: fun_eq_iff wrapfs_file_release_cb_def blkdev_release_cb_def wrapfs_file_fsync_cb_def blkdev_fsync_cb_def)

interpretation file_release: page_cleanup "\<lambda>K. wrapfs_file_release_cb" "\<lambda>p m. m"
  unfolding file_callbacks by (rule release.page_cleanup_axioms)

interpretation file_fsync: page_cleanup wrapfs_file_fsync_cb "\<lambda>p. protect_of {p}"
  unfolding file_callbacks by (rule fsync.page_cleanup_axioms)

text \<open>
  The pages that were dirty are clean, unlocked and in their clean queues; the other pages are as before. \<open>dev\<close> is what
  the object writes to.
\<close>

definition written :: "kernel \<Rightarrow> nat \<Rightarrow> nat \<Rightarrow> fm \<Rightarrow> fm \<Rightarrow> bool" where
  "written K d dev s s' \<longleftrightarrow>
     (\<forall>p. if dirty_of d s p
        then \<not> locked_tp (pm_pages s' p) \<and> \<not> TaggedPageDirty (pm_pages s' p) \<and> p \<in> set (lp_buffer (fb_primary s' (clean_q (p_index s p))))
        else pm_pages s' p = pm_pages s p) \<and>
     (\<forall>p. page_content s' p = page_content s p) \<and>
     (\<forall>b j. fm_disk s' b j = fm_disk s b j \<or> b = dev \<and> (\<exists>q. dirty_of d s q \<and> p_index s q = j \<and> fm_disk s' b j = page_content s q)) \<and>
     (writes_fit K d s \<longrightarrow> (\<forall>q. dirty_of d s q \<longrightarrow> fm_disk s' dev (p_index s q) = page_content s q))"

lemma wd_pages_written:
  assumes inv: "fm_inv K s'" and pg: "pm_pages s' = wd_pages s {} {} {p. dirty_of d s p}"
    and st: "store_ok K d dev {p. dirty_of d s p} s (fm_disk s')"
  shows "written K d dev s s'"
proof -
  have "clean_ok s'" using inv by (simp add: fm_inv_def buf_wf_def buf_inv_def)
  then have "p \<in> set (lp_buffer (fb_primary s' (clean_q (p_index s p))))" if "dirty_of d s p" for p
    using fam_member [of BI_CLEAN lp_buffer lp_size lp_max_size clean_q NUM_QUEUES "pm_total s'" "fb_primary s'" "pm_pages s'" "clean_q (p_index s p)" p] that
    by (simp add: pg p_index_def) (simp add: wd_pages_def)
  moreover have "pm_pages s' p = (if dirty_of d s p then unlock_tp (clean_page (tp_set_locked True (pm_pages s p))) else pm_pages s p)" for p
    by (simp add: pg wd_pages_def)
  moreover have "page_content s' p = page_content s p" for p by (simp add: page_content_def pg)
  ultimately show ?thesis using st unfolding store_ok_def written_def by simp
qed

text \<open>Members of the object that writing does not look at.\<close>

lemma written_pvd:
  assumes "written K d dev (upd_pvd d h s) s'"
  shows "written K d dev s s'"
proof -
  have "dirty_of d (upd_pvd d h s) = dirty_of d s" "p_index (upd_pvd d h s) = p_index s" "page_content (upd_pvd d h s) = page_content s"
    by (simp_all add: fun_eq_iff dirty_of_def lockable_def p_index_def page_content_def)
  then have "writes_fit K d (upd_pvd d h s) = writes_fit K d s" by (simp add: writes_fit_def)
  with \<open>dirty_of d (upd_pvd d h s) = dirty_of d s\<close> \<open>p_index (upd_pvd d h s) = p_index s\<close> \<open>page_content (upd_pvd d h s) = page_content s\<close>
  show ?thesis using assms by (simp add: written_def cong: if_cong)
qed

lemma written_pvd':
  assumes "written K d dev s s'"
  shows "written K d dev s (upd_pvd d h s')"
  using assms by (simp add: written_def page_content_def)

section \<open>The table of open files of an object\<close>

lemma fds_pick_Some: "fds_pick alive xs = Some h \<Longrightarrow> Some h \<in> set xs \<and> alive h"
  by (induction alive xs rule: fds_pick.induct) (auto split: if_splits)

lemma fds_pick_None: "fds_pick alive xs = None \<Longrightarrow> Some h \<in> set xs \<Longrightarrow> \<not> alive h"
  by (induction alive xs rule: fds_pick.induct) (auto split: if_splits)

lemma fds_prune_set: "Some h \<in> set (fds_prune alive xs) \<longleftrightarrow> Some h \<in> set xs \<and> alive h"
  by (induction xs) (auto simp: fds_prune_def split: option.splits if_splits)

lemma fds_clear_set: "h \<noteq> g \<Longrightarrow> Some h \<in> set (fds_clear (Some g) xs) \<longleftrightarrow> Some h \<in> set xs"
  by (induction xs) auto

lemma fds_add_set: "None \<in> set xs \<Longrightarrow> Some h \<in> set (fds_add g xs) \<longleftrightarrow> h = g \<or> Some h \<in> set xs"
  by (induction g xs rule: fds_add.induct) auto



section \<open>Open files as a state machine\<close>

definition new_wfile :: "nat \<Rightarrow> u32 \<Rightarrow> wrapfs_file" where
  "new_wfile dentry flags = \<lparr>fl_dentry = dentry, fl_flags = flags, fl_pos = 0, fl_private = None\<rparr>"

text \<open>The lower file system may do anything but take the inode away from a file that is referenced.\<close>

definition low_step :: "('l, 'b) lower_fs_scheme \<Rightarrow> 'l wfs \<Rightarrow> 'l \<Rightarrow> bool" where
  "low_step L s l \<longleftrightarrow> (\<forall>g. 0 < wx_fref s g \<longrightarrow> lf_f_inode L l g = lf_f_inode L (wx_low s) g)"

text \<open>
  The steps: opening a file that is not open, closing, work on pages, and what the lower file system does. A lower
  file that has just been opened has an inode and is not in use yet. A run does not go on after an open that crashes.
\<close>

inductive wfs_step :: "kernel \<Rightarrow> ('l, 'b) lower_fs_scheme \<Rightarrow> 'l wfs \<Rightarrow> 'l wfs \<Rightarrow> bool" for K L where
  step_open: "wrapfs_lower_file s f = None \<Longrightarrow> (\<And>ino. wx_ino_pvd s ino \<noteq> Some pvd) \<Longrightarrow>
    wrapfs_open L inode f mem fi pvd (upd_wfile f (\<lambda>_. new_wfile dentry flags) s) = (r, s') \<Longrightarrow> low_step L s (wx_low s') \<Longrightarrow>
    (\<And>g. wrapfs_lower_file s' f = Some g \<Longrightarrow> wx_fref s g = 0 \<and> lf_f_inode L (wx_low s') g \<noteq> None) \<Longrightarrow>
    \<not> fm_bug (wx_fm s') \<Longrightarrow> wfs_step K L s s'"
| step_release: "wrapfs_lower_file s f \<noteq> None \<Longrightarrow> wrapfs_file_release K L f s = Some (r, s') \<Longrightarrow> wfs_step K L s s'"
| step_pages: "dev_frame (wx_fm s) x \<Longrightarrow> wfs_step K L s (s\<lparr>wx_fm := x\<rparr>)"
| step_lower: "low_step L s l \<Longrightarrow> wfs_step K L s (s\<lparr>wx_low := l\<rparr>)"

definition wfs_initial :: "'l wfs \<Rightarrow> bool" where
  "wfs_initial s \<longleftrightarrow> (\<forall>f. wrapfs_lower_file s f = None) \<and> (\<forall>ino. wx_ino_pvd s ino = None) \<and> (\<forall>g. wx_fref s g = 0)"

definition wf_pvd_of :: "'l wfs \<Rightarrow> nat \<Rightarrow> nat option" where
  "wf_pvd_of s f = (case fl_private (wx_file s f) of None \<Rightarrow> None | Some w \<Rightarrow> wf_pvd w)"

definition wfs_inv :: "('l, 'b) lower_fs_scheme \<Rightarrow> 'l wfs \<Rightarrow> bool" where
  "wfs_inv L s \<longleftrightarrow>
     (\<forall>f g. wrapfs_lower_file s f = Some g \<longrightarrow> wx_fref s g = 1 \<and>
        (\<exists>i. lf_f_inode L (wx_low s) g = Some i \<and> (\<forall>d. wf_pvd_of s f = Some d \<longrightarrow> wx_ino_pvd s (lf_i_ino L i) = Some d))) \<and>
     (\<forall>f f' g. wrapfs_lower_file s f = Some g \<longrightarrow> wrapfs_lower_file s f' = Some g \<longrightarrow> f = f') \<and>
     (\<forall>g. wx_fref s g \<noteq> 0 \<longrightarrow> (\<exists>f. wrapfs_lower_file s f = Some g)) \<and>
     (\<forall>ino d. wx_ino_pvd s ino = Some d \<longrightarrow> pvd_type (fm_pvd (wx_fm s) d) = D_FILE \<and> pvd_ino (fm_pvd (wx_fm s) d) = unat ino)"

lemma wfs_invD:
  assumes "wfs_inv L s"
  shows "wrapfs_lower_file s f = Some g \<Longrightarrow> wx_fref s g = 1"
    "wrapfs_lower_file s f = Some g \<Longrightarrow> \<exists>i. lf_f_inode L (wx_low s) g = Some i \<and> (\<forall>d. wf_pvd_of s f = Some d \<longrightarrow> wx_ino_pvd s (lf_i_ino L i) = Some d)"
    "wrapfs_lower_file s f = Some g \<Longrightarrow> wrapfs_lower_file s f' = Some g \<Longrightarrow> f = f'"
    "wx_fref s g \<noteq> 0 \<Longrightarrow> \<exists>f. wrapfs_lower_file s f = Some g"
    "wx_ino_pvd s ino = Some d \<Longrightarrow> pvd_type (fm_pvd (wx_fm s) d) = D_FILE \<and> pvd_ino (fm_pvd (wx_fm s) d) = unat ino"
  using assms unfolding wfs_inv_def by blast+

lemma wfs_invI:
  assumes "\<And>f g. wrapfs_lower_file s f = Some g \<Longrightarrow> wx_fref s g = 1"
    "\<And>f g. wrapfs_lower_file s f = Some g \<Longrightarrow>
       \<exists>i. lf_f_inode L (wx_low s) g = Some i \<and> (\<forall>d. wf_pvd_of s f = Some d \<longrightarrow> wx_ino_pvd s (lf_i_ino L i) = Some d)"
    "\<And>f f' g. wrapfs_lower_file s f = Some g \<Longrightarrow> wrapfs_lower_file s f' = Some g \<Longrightarrow> f = f'"
    "\<And>g. wx_fref s g \<noteq> 0 \<Longrightarrow> \<exists>f. wrapfs_lower_file s f = Some g"
    "\<And>ino d. wx_ino_pvd s ino = Some d \<Longrightarrow> pvd_type (fm_pvd (wx_fm s) d) = D_FILE \<and> pvd_ino (fm_pvd (wx_fm s) d) = unat ino"
  shows "wfs_inv L s"
  unfolding wfs_inv_def by (intro conjI allI impI) (use assms in blast)+

text \<open>What the invariant depends on.\<close>

lemma wfs_inv_cong:
  assumes inv: "wfs_inv L s" and "wx_file s' = wx_file s" and "wx_ino_pvd s' = wx_ino_pvd s" and "wx_fref s' = wx_fref s" and "low_step L s (wx_low s')"
    and "\<And>d. pvd_fixed (fm_pvd (wx_fm s') d) = pvd_fixed (fm_pvd (wx_fm s) d)"
  shows "wfs_inv L s'"
proof -
  note D = wfs_invD [OF inv]
  have t: "pvd_type (fm_pvd (wx_fm s') d) = pvd_type (fm_pvd (wx_fm s) d)" "pvd_ino (fm_pvd (wx_fm s') d) = pvd_ino (fm_pvd (wx_fm s) d)" for d
    using assms(6) [of d] by (simp_all add: pvd_fixed_def)
  have l: "wrapfs_lower_file s' f = wrapfs_lower_file s f" "wf_pvd_of s' f = wf_pvd_of s f" for f
    by (simp_all add: wrapfs_lower_file_def wf_pvd_of_def assms(2))
  have fi: "lf_f_inode L (wx_low s') g = lf_f_inode L (wx_low s) g" if "wrapfs_lower_file s f = Some g" for f g
    using assms(5) D(1) [OF that] by (simp add: low_step_def)
  show ?thesis
  proof (rule wfs_invI)
    fix f g assume "wrapfs_lower_file s' f = Some g"
    then have g: "wrapfs_lower_file s f = Some g" by (simp add: l)
    show "\<exists>i. lf_f_inode L (wx_low s') g = Some i \<and> (\<forall>d. wf_pvd_of s' f = Some d \<longrightarrow> wx_ino_pvd s' (lf_i_ino L i) = Some d)"
      using D(2) [OF g] by (simp add: fi [OF g] l assms(3))
    show "wx_fref s' g = 1" using D(1) [OF g] by (simp add: assms(4))
  next
    fix f f' g assume "wrapfs_lower_file s' f = Some g" "wrapfs_lower_file s' f' = Some g"
    then show "f = f'" using D(3) by (simp add: l)
  next
    fix g assume "wx_fref s' g \<noteq> 0"
    then show "\<exists>f. wrapfs_lower_file s' f = Some g" using D(4) by (simp add: l assms(4))
  next
    fix ino d assume "wx_ino_pvd s' ino = Some d"
    then show "pvd_type (fm_pvd (wx_fm s') d) = D_FILE \<and> pvd_ino (fm_pvd (wx_fm s') d) = unat ino" using D(5) by (simp add: t assms(3))
  qed
qed

text \<open>An open that fails before or after its allocations leaves the file closed; the memory of the file is all that changes.\<close>

lemma wrapfs_open_effect:
  assumes r: "wrapfs_open L inode f mem fi pvd s0 = (r, s')" and s0: "s0 = upd_wfile f (\<lambda>_. new_wfile dentry flags) s"
    and nb: "\<not> fm_bug (wx_fm s')"
  obtains (closed) "wrapfs_lower_file s' f = None" "\<And>h. h \<noteq> f \<Longrightarrow> wx_file s' h = wx_file s h" "wx_ino_pvd s' = wx_ino_pvd s" "wx_fref s' = wx_fref s"
      "\<And>d. fm_pvd (wx_fm s') d = fm_pvd (wx_fm s) d"
  | (other) g where "wrapfs_lower_file s' f = Some g" "wf_pvd_of s' f = None" "\<And>h. h \<noteq> f \<Longrightarrow> wx_file s' h = wx_file s h"
      "wx_ino_pvd s' = wx_ino_pvd s" "wx_fref s' = (wx_fref s)(g := wx_fref s g + 1)" "\<And>d. fm_pvd (wx_fm s') d = fm_pvd (wx_fm s) d"
  | (fresh) g i where "wrapfs_lower_file s' f = Some g" "wf_pvd_of s' f = Some pvd" "\<And>h. h \<noteq> f \<Longrightarrow> wx_file s' h = wx_file s h"
      "lf_f_inode L (wx_low s') g = Some i" "wx_ino_pvd s (lf_i_ino L i) = None" "wx_ino_pvd s' = (wx_ino_pvd s)(lf_i_ino L i := Some pvd)"
      "wx_fref s' = (wx_fref s)(g := wx_fref s g + 1)" "fm_pvd (wx_fm s') = (fm_pvd (wx_fm s))(pvd := create_and_add_file_pvd L g i)"
  | (shared) g i d v where "wrapfs_lower_file s' f = Some g" "wf_pvd_of s' f = Some d" "\<And>h. h \<noteq> f \<Longrightarrow> wx_file s' h = wx_file s h"
      "lf_f_inode L (wx_low s') g = Some i" "wx_ino_pvd s (lf_i_ino L i) = Some d" "wx_ino_pvd s' = wx_ino_pvd s"
      "wx_fref s' = (wx_fref s)(g := wx_fref s g + 1)" "fm_pvd (wx_fm s') = (fm_pvd (wx_fm s))(d := v)"
      "v = (fm_pvd (wx_fm s) d)\<lparr>pvd_open_fds := fds_add g (pvd_open_fds (fm_pvd (wx_fm s) d)), pvd_bk := Some g\<rparr>"
proof -
  let ?new = "\<lambda>fi. \<lparr>wf_lower_file = None, wf_fmap_info = fi, wf_pvd = None\<rparr>"
  have nw: "wrapfs_lower_file s0 f = None" by (simp add: s0 wrapfs_lower_file_def new_wfile_def)
  show ?thesis
  proof (cases "wd_hashed (wx_dentry s0 (fl_dentry (wx_file s0 f))) \<and> mem \<and> fi \<noteq> None")
    case False
    then have "s' = s0 \<or> s' = set_private f None s0 \<or> s' = set_private f (Some (?new None)) s0"
      using r by (auto simp: wrapfs_open_def split: if_splits option.splits)
    then show ?thesis using nw by (intro closed) (auto simp: s0 set_private_def wrapfs_lower_file_def)
  next
    case True
    then obtain a where a: "fi = Some a" by blast
    obtain lower s1 where o: "open_lower L f (open_memory f a s0) = (lower, s1)" by fastforce
    have f1: "wx_file s1 = (wx_file s)(f := (new_wfile dentry flags)\<lparr>fl_private := Some (?new (Some a))\<rparr>)" "wx_ino_pvd s1 = wx_ino_pvd s"
      "wx_fref s1 = (case lower of Inl e \<Rightarrow> wx_fref s | Inr g \<Rightarrow> (wx_fref s)(g := wx_fref s g + 1))" "fm_pvd (wx_fm s1) = fm_pvd (wx_fm s)"
      using o by (auto simp: open_lower_def open_memory_def Let_def wrapfs_get_lower_path_def wrapfs_put_lower_path_def set_private_def s0
          split: prod.splits sum.splits)
    have fin: "open_finish L inode f a pvd (lower, s1) = (r, s')" using r True a o by (simp add: wrapfs_open_def)
    show ?thesis
    proof (cases lower)
      case (Inl err)
      then have "s' = set_private f None s1 \<or> s' = set_private f None (wbug s1)"
        using fin by (auto simp: open_finish_def Let_def open_pvd_def split: if_splits)
      then show ?thesis by (intro closed) (auto simp: set_private_def wrapfs_lower_file_def f1 Inl)
    next
      case (Inr g)
      show ?thesis
      proof (cases "is_regular s1 (fl_dentry (wx_file s1 f))")
        case False
        show ?thesis by (rule other [of g])
            (use False fin in \<open>auto simp: Inr open_finish_def Let_def wrapfs_set_lower_file_def wrapfs_lower_file_def wf_pvd_of_def f1\<close>)
      next
        case True
        obtain s4 where s4: "s4 = wrapfs_set_lower_file f (Some g) (open_pvd L f a (Inr g) pvd s1)" by simp
        have s': "s' = copy_attr (lf_copy_all L) L (Some inode) (wrapfs_lower_inode s4 inode) s4"
          using fin True by (simp add: Inr open_finish_def Let_def s4)
        have cb: "fm_bug (wx_fm (copy_attr h L x y z))" if "fm_bug (wx_fm z)" for h x y z using that by (auto simp: copy_attr_def split: option.splits)
        have "fm_bug (wx_fm s')" if "lf_f_inode L (wx_low s1) g = None"
          unfolding s' by (rule cb) (simp add: s4 open_pvd_def that wrapfs_set_lower_file_def)
        with nb obtain i where i: "lf_f_inode L (wx_low s1) g = Some i" by fastforce
        note defs = s' s4 open_pvd_def i Let_def wrapfs_set_lower_file_def set_fmap_pvd_def wrapfs_lower_file_def wf_pvd_of_def f1 Inr
        show ?thesis
        proof (cases "wx_ino_pvd s (lf_i_ino L i)")
          case None
          show ?thesis by (rule fresh [of g i]) (use None in \<open>simp_all add: defs\<close>)
        next
          case (Some d)
          show ?thesis by (rule shared [of g d i, OF _ _ _ _ _ _ _ _ refl]) (use Some in \<open>simp_all add: defs\<close>)
        qed
      qed
    qed
  qed
qed

section \<open>Every step keeps the invariant of the open files\<close>

lemma file_eq:
  assumes "wx_file s' h = wx_file s h"
  shows "wrapfs_lower_file s' h = wrapfs_lower_file s h" "wf_pvd_of s' h = wf_pvd_of s h"
  by (simp_all add: wrapfs_lower_file_def wf_pvd_of_def assms)

lemma open_step_inv:
  assumes inv: "wfs_inv L s" and f: "wrapfs_lower_file s f = None" and other: "\<And>h. h \<noteq> f \<Longrightarrow> wx_file s' h = wx_file s h"
    and low: "low_step L s (wx_low s')" and g: "wrapfs_lower_file s' f = Some g" "wx_fref s g = 0" "wx_fref s' = (wx_fref s)(g := wx_fref s g + 1)"
    and i: "lf_f_inode L (wx_low s') g = Some i" and d: "\<And>d. wf_pvd_of s' f = Some d \<Longrightarrow> wx_ino_pvd s' (lf_i_ino L i) = Some d"
    and ino: "\<And>k d. wx_ino_pvd s k = Some d \<Longrightarrow> wx_ino_pvd s' k = Some d"
    and pvd: "\<And>k d. wx_ino_pvd s' k = Some d \<Longrightarrow> pvd_type (fm_pvd (wx_fm s') d) = D_FILE \<and> pvd_ino (fm_pvd (wx_fm s') d) = unat k"
  shows "wfs_inv L s'"
proof -
  note D = wfs_invD [OF inv]
  have nf: "wrapfs_lower_file s h \<noteq> Some g" for h using D(1) [of h g] g(2) by auto
  have old: "h \<noteq> f \<and> k \<noteq> g \<and> wrapfs_lower_file s h = Some k" if "wrapfs_lower_file s' h = Some k" "h \<noteq> f" for h k
    using that file_eq(1) [OF other [OF that(2)]] nf by auto
  have fi: "lf_f_inode L (wx_low s') k = lf_f_inode L (wx_low s) k" if "wrapfs_lower_file s h = Some k" for h k
    using low D(1) [OF that] by (simp add: low_step_def)
  show ?thesis
  proof (rule wfs_invI)
    fix h k assume k: "wrapfs_lower_file s' h = Some k"
    show "wx_fref s' k = 1"
    proof (cases "h = f")
      case False
      then show ?thesis using old [OF k] D(1) [of h k] by (simp add: g(3))
    qed (use k g in simp)
    show "\<exists>i. lf_f_inode L (wx_low s') k = Some i \<and> (\<forall>d. wf_pvd_of s' h = Some d \<longrightarrow> wx_ino_pvd s' (lf_i_ino L i) = Some d)"
    proof (cases "h = f")
      case True
      then show ?thesis using k g(1) i d by auto
    next
      case False
      then have o: "wrapfs_lower_file s h = Some k" using old [OF k] by simp
      obtain j where "lf_f_inode L (wx_low s) k = Some j" "\<And>d. wf_pvd_of s h = Some d \<Longrightarrow> wx_ino_pvd s (lf_i_ino L j) = Some d" using D(2) [OF o] by blast
      then show ?thesis using ino file_eq(2) [OF other [OF False]] by (simp add: fi [OF o])
    qed
  next
    fix h h' k assume k: "wrapfs_lower_file s' h = Some k" "wrapfs_lower_file s' h' = Some k"
    show "h = h'" using old [OF k(1)] old [OF k(2)] D(3) [of h k h'] k g(1) by (cases "h = f"; cases "h' = f") auto
  next
    fix k assume k: "wx_fref s' k \<noteq> 0"
    show "\<exists>h. wrapfs_lower_file s' h = Some k"
    proof (cases "k = g")
      case False
      then obtain h where h: "wrapfs_lower_file s h = Some k" using D(4) [of k] k by (auto simp: g(3))
      then have "h \<noteq> f" using f by auto
      then show ?thesis using h file_eq(1) [OF other] by metis
    qed (use g(1) in blast)
  next
    show "pvd_type (fm_pvd (wx_fm s') d) = D_FILE \<and> pvd_ino (fm_pvd (wx_fm s') d) = unat k" if "wx_ino_pvd s' k = Some d" for k d
      by (rule pvd [OF that])
  qed
qed

lemma closed_step_inv:
  assumes inv: "wfs_inv L s" and other: "\<And>h. h \<noteq> f \<Longrightarrow> wx_file s' h = wx_file s h" and f: "wrapfs_lower_file s' f = None"
    and low: "low_step L s (wx_low s')" and ino: "wx_ino_pvd s' = wx_ino_pvd s" and ref: "wx_fref s' = add_ref (wrapfs_lower_file s f) (- 1) (wx_fref s)"
    and pvd: "\<And>d. pvd_type (fm_pvd (wx_fm s') d) = pvd_type (fm_pvd (wx_fm s) d) \<and> pvd_ino (fm_pvd (wx_fm s') d) = pvd_ino (fm_pvd (wx_fm s) d)"
  shows "wfs_inv L s'"
proof -
  note D = wfs_invD [OF inv]
  have old: "h \<noteq> f \<and> wrapfs_lower_file s h = Some k" if "wrapfs_lower_file s' h = Some k" for h k
    using that f file_eq(1) [OF other, of h] by (cases "h = f") auto
  have ne: "wrapfs_lower_file s f \<noteq> Some k" if "h \<noteq> f" "wrapfs_lower_file s h = Some k" for h k using D(3) [of h k f] that by blast
  have fi: "lf_f_inode L (wx_low s') k = lf_f_inode L (wx_low s) k" if "wrapfs_lower_file s h = Some k" for h k
    using low D(1) [OF that] by (simp add: low_step_def)
  show ?thesis
  proof (rule wfs_invI)
    fix h k assume k: "wrapfs_lower_file s' h = Some k"
    show "wx_fref s' k = 1" using old [OF k] ne [of h k] D(1) [of h k] by (cases "wrapfs_lower_file s f") (auto simp: ref)
    show "\<exists>i. lf_f_inode L (wx_low s') k = Some i \<and> (\<forall>d. wf_pvd_of s' h = Some d \<longrightarrow> wx_ino_pvd s' (lf_i_ino L i) = Some d)"
      using D(2) [of h k] old [OF k] fi [of h k] file_eq(2) [OF other, of h] by (simp add: ino)
  next
    fix h h' k assume "wrapfs_lower_file s' h = Some k" "wrapfs_lower_file s' h' = Some k"
    then show "h = h'" using old D(3) by blast
  next
    fix k assume k: "wx_fref s' k \<noteq> 0"
    have "wrapfs_lower_file s f \<noteq> Some k" using k D(1) [of f k] by (auto simp: ref)
    then have "wx_fref s k \<noteq> 0" using k by (cases "wrapfs_lower_file s f") (auto simp: ref split: if_splits)
    then obtain h where h: "wrapfs_lower_file s h = Some k" using D(4) by blast
    then have "h \<noteq> f" using \<open>wrapfs_lower_file s f \<noteq> Some k\<close> by auto
    then show "\<exists>h. wrapfs_lower_file s' h = Some k" using h file_eq(1) [OF other] by metis
  next
    fix k d assume "wx_ino_pvd s' k = Some d"
    then show "pvd_type (fm_pvd (wx_fm s') d) = D_FILE \<and> pvd_ino (fm_pvd (wx_fm s') d) = unat k" using D(5) [of k d] pvd by (simp add: ino)
  qed
qed

lemma wrapfs_open_inv:
  assumes inv: "wfs_inv L s" and f: "wrapfs_lower_file s f = None" and fr: "\<And>ino. wx_ino_pvd s ino \<noteq> Some pvd"
    and r: "wrapfs_open L inode f mem fi pvd (upd_wfile f (\<lambda>_. new_wfile dentry flags) s) = (r, s')" and low: "low_step L s (wx_low s')"
    and g: "\<And>g. wrapfs_lower_file s' f = Some g \<Longrightarrow> wx_fref s g = 0 \<and> lf_f_inode L (wx_low s') g \<noteq> None" and nb: "\<not> fm_bug (wx_fm s')"
  shows "wfs_inv L s'"
  using r refl nb
proof (cases rule: wrapfs_open_effect)
  case closed
  show ?thesis by (rule closed_step_inv [OF inv closed(2,1) low closed(3)]) (simp_all add: closed f)
next
  case (other h)
  obtain i where i: "lf_f_inode L (wx_low s') h = Some i" using g [OF other(1)] by blast
  show ?thesis
    by (rule open_step_inv [OF inv f other(3) low other(1) _ other(5) i]) (use g [OF other(1)] wfs_invD(5) [OF inv] in \<open>simp_all add: other(2,4,6)\<close>)
next
  case (fresh h i)
  show ?thesis
  proof (rule open_step_inv [OF inv f fresh(3) low fresh(1) _ fresh(7,4)])
    show "wx_fref s h = 0" using g [OF fresh(1)] by simp
    show "wx_ino_pvd s' (lf_i_ino L i) = Some d" if "wf_pvd_of s' f = Some d" for d using that by (simp add: fresh(2,6))
    show "wx_ino_pvd s' k = Some d" if "wx_ino_pvd s k = Some d" for k d using that fresh(5) by (auto simp: fresh(6))
    show "pvd_type (fm_pvd (wx_fm s') d) = D_FILE \<and> pvd_ino (fm_pvd (wx_fm s') d) = unat k" if "wx_ino_pvd s' k = Some d" for k d
      using that fr wfs_invD(5) [OF inv, of k d] by (cases "k = lf_i_ino L i") (auto simp: fresh(6,8) create_and_add_file_pvd_def)
  qed
next
  case (shared h i d v)
  show ?thesis
  proof (rule open_step_inv [OF inv f shared(3) low shared(1) _ shared(7,4)])
    show "wx_fref s h = 0" using g [OF shared(1)] by simp
    show "wx_ino_pvd s' (lf_i_ino L i) = Some e" if "wf_pvd_of s' f = Some e" for e using that by (simp add: shared(2,5,6))
    show "pvd_type (fm_pvd (wx_fm s') e) = D_FILE \<and> pvd_ino (fm_pvd (wx_fm s') e) = unat k" if "wx_ino_pvd s' k = Some e" for k e
      using that wfs_invD(5) [OF inv, of k e] by (auto simp: shared(6,8,9))
    show "wx_ino_pvd s' k = Some e" if "wx_ino_pvd s k = Some e" for k e using that by (simp only: shared(6))
  qed
qed

text \<open>Closing a file touches only the table and the current file of its object.\<close>

lemma release_mapped_effect:
  assumes "release_mapped K L g d s = Some s'"
  shows "\<exists>x. s' = s\<lparr>wx_fm := x\<rparr> \<and> (\<forall>v. pvd_type (fm_pvd x v) = pvd_type (fm_pvd (wx_fm s) v) \<and> pvd_ino (fm_pvd x v) = pvd_ino (fm_pvd (wx_fm s) v))"
proof -
  obtain y where y: "y = (if g = None then (wx_fm s)\<lparr>fm_bug := True\<rparr> else upd_pvd d (\<lambda>v. v\<lparr>pvd_bk := g\<rparr>) (wx_fm s))" by simp
  from assms obtain log x where w: "write_dirty_pages K d (Some wrapfs_file_release_cb) y = Some (log, x)"
    by (auto simp: release_mapped_def Let_def y upd_wfm_def split: option.splits if_splits)
  obtain h where s': "s' = s\<lparr>wx_fm := upd_pvd d (\<lambda>v. v\<lparr>pvd_open_fds := fst (h v), pvd_bk := snd (h v)\<rparr>) x\<rparr>"
  proof
    let ?a = "\<lambda>h. lf_f_inode L (wx_low s) h \<noteq> None"
    let ?f = "\<lambda>v. fds_prune ?a (fds_clear g (pvd_open_fds v))"
    show "s' = s\<lparr>wx_fm := upd_pvd d (\<lambda>v. v\<lparr>pvd_open_fds := fst (?f v, case fds_pick ?a (?f v) of None \<Rightarrow> pvd_bk v | Some g \<Rightarrow> Some g),
        pvd_bk := snd (?f v, case fds_pick ?a (?f v) of None \<Rightarrow> pvd_bk v | Some g \<Rightarrow> Some g)\<rparr>) x\<rparr>"
      using assms w by (auto simp: release_mapped_def Let_def upd_wfm_def y wbug_def upd_pvd_def split: if_splits cong: option.case_cong)
  qed
  have fx: "pvd_fixed (fm_pvd x v) = pvd_fixed (fm_pvd y v)" for v
    using write_dirty_pages_frame [OF release_cb_frame w [unfolded file_callbacks]] by (simp add: wd_frame_def dev_frame_def)
  have "pvd_type (fm_pvd x v) = pvd_type (fm_pvd (wx_fm s) v) \<and> pvd_ino (fm_pvd x v) = pvd_ino (fm_pvd (wx_fm s) v)" for v
    using fx [of v] by (auto simp: y pvd_fixed_def)
  then show ?thesis by (intro exI [of _ "wx_fm s'"]) (simp add: s')
qed

lemma wrapfs_release_inv:
  assumes inv: "wfs_inv L s" and f: "wrapfs_lower_file s f \<noteq> None" and r: "wrapfs_file_release K L f s = Some (r, s')"
  shows "wfs_inv L s'"
proof -
  obtain g w where g: "fl_private (wx_file s f) = Some w" "wf_lower_file w = Some g"
    using f by (auto simp: wrapfs_lower_file_def split: option.splits)
  obtain x where x: "s' = set_private f None (fref (Some g) (- 1) (s\<lparr>wx_fm := x\<rparr>))"
    "\<And>v. pvd_type (fm_pvd x v) = pvd_type (fm_pvd (wx_fm s) v) \<and> pvd_ino (fm_pvd x v) = pvd_ino (fm_pvd (wx_fm s) v)"
  proof (cases "wf_pvd w")
    case None
    then show ?thesis using r g by (intro that [of "wx_fm s"]) (auto simp: wrapfs_file_release_def)
  next
    case (Some d)
    show ?thesis
    proof (cases "pvd_mapped (fm_pvd (wx_fm s) d)")
      case True
      then obtain s1 where s1: "release_mapped K L (Some g) d s = Some s1" "s' = set_private f None (fref (Some g) (- 1) s1)"
        using r g Some by (auto simp: wrapfs_file_release_def Let_def split: option.splits)
      then show ?thesis using release_mapped_effect [OF s1(1)] that by metis
    next
      case False
      then show ?thesis using r g Some
        by (intro that [of "upd_pvd d (\<lambda>v. v\<lparr>pvd_open_fds := fds_clear (Some g) (pvd_open_fds v)\<rparr>) (wx_fm s)"])
          (auto simp: wrapfs_file_release_def upd_wfm_def Let_def)
    qed
  qed
  have lf: "wrapfs_lower_file s f = Some g" using g by (simp add: wrapfs_lower_file_def)
  show ?thesis
    by (rule closed_step_inv [OF inv, of f])
      (use x(2) in \<open>simp_all add: x(1) set_private_def lf low_step_def\<close>, simp_all add: wrapfs_lower_file_def)
qed

interpretation files: inductive_invariant wfs_initial "wfs_step K L" "wfs_inv L" for K and L :: "('l, 'b) lower_fs_scheme"
proof
  fix s :: "'l wfs" assume "wfs_initial s"
  then show "wfs_inv L s" by (simp add: wfs_initial_def wfs_inv_def)
next
  fix s s' :: "'l wfs" assume inv: "wfs_inv L s" and "wfs_step K L s s'"
  from this(2) show "wfs_inv L s'"
  proof (cases rule: wfs_step.cases)
    case (step_open f pvd inode mem fi dentry flags r)
    then show ?thesis using wrapfs_open_inv [OF inv] by blast
  next
    case (step_release f r)
    then show ?thesis using wrapfs_release_inv [OF inv] by blast
  next
    case (step_pages x)
    show ?thesis unfolding step_pages(1)
      by (rule wfs_inv_cong [OF inv]) (use step_pages(2) in \<open>simp_all add: low_step_def dev_frame_def\<close>)
  next
    case (step_lower l)
    show ?thesis unfolding step_lower(1)
      by (rule wfs_inv_cong [OF inv]) (use step_lower(2) in \<open>simp_all add: low_step_def\<close>)
  qed
qed


end
