(* ===== verification/Wrapfs_Cache.thy ===== *)
theory Wrapfs_Cache
  imports Wrapfs_File
begin

text \<open>
  Reading and writing a mapped file through \<^verbatim>\<open>read\<close> and \<^verbatim>\<open>write\<close>, emptying the cache of backing objects when the
  module is unloaded, and the examples for the properties of files.
\<close>

section \<open>Reading and writing mapped files\<close>

lemma drop_12: "(drop_bit 12 w :: u64) = 0 \<longleftrightarrow> unat w < 4096"
proof -
  have "drop_bit 12 w = 0 \<longleftrightarrow> unat (drop_bit 12 w) = 0" by (simp add: unat_eq_0)
  also have "unat (drop_bit 12 w) = unat w div 4096" by (simp add: unat_drop_bit_eq) (simp add: drop_bit_eq_div)
  finally show ?thesis by (auto simp: div_eq_0_iff)
qed


text \<open>A write through \<^verbatim>\<open>write\<close> leaves the cached pages as they are: the mapping goes on to show the old content.\<close>

lemma wrapfs_write_stale:
  assumes "wrapfs_write L f buf ppos s = (r, s')"
  shows "page_content (wx_fm s') p = page_content (wx_fm s) p" "radix_lookup K (wx_fm s') d i = radix_lookup K (wx_fm s) d i"
proof -
  have c: "page_content (wx_fm (copy_attr h L i j x)) p = page_content (wx_fm x) p"
    "radix_lookup K (wx_fm (copy_attr h L i j x)) d k = radix_lookup K (wx_fm x) d k" for h i j k and x :: "'a wfs"
    by (auto simp: copy_attr_def page_content_def radix_lookup_def split: option.splits)
  show "page_content (wx_fm s') p = page_content (wx_fm s) p" "radix_lookup K (wx_fm s') d i = radix_lookup K (wx_fm s) d i"
    using assms c by (auto simp: wrapfs_write_def Let_def copy_size_times_def set_store_def page_content_def radix_lookup_def
        split: option.splits prod.splits if_splits)
qed

section \<open>Emptying the cache\<close>

lemma clear_pvd_page_clean:
  "tp_buffer_id (pm_pages s p) = BI_CLEAN \<Longrightarrow> clear_pvd_page p s = raw_free_page p s"
  by (auto simp: clear_pvd_page_def raw_free_page_def trylock_any_cases Let_def split: prod.splits)

text \<open>Where every page of an object is clean, \<^verbatim>\<open>__clear_pvd\<close> does what closing a device does.\<close>

lemma drainable_step:
  assumes d: "drainable K d s" and at: "rdx_scan E (pvd_rdx (fm_pvd s d)) cs = Some (c, i, p)"
    and s1: "s1 = upd_pvd d (\<lambda>v. v\<lparr>pvd_rdx := (pvd_rdx v)(c := (pvd_rdx v c)(i := None))\<rparr>) s"
  obtains s2 where "raw_free_page p s1 = Some s2" "drainable K d s2" "tp_buffer_id (pm_pages s1 p) = BI_CLEAN"
proof -
  have inv: "fm_inv K s" and ok: "\<And>p. p \<in> pages_of d s \<Longrightarrow> \<not> locked_tp (pm_pages s p) \<and> tp_buffer_id (pm_pages s p) = BI_CLEAN \<and> (\<forall>k. \<not> maps_page (fm_pte s) p k)"
    using d unfolding drainable_def by blast+
  have b: "buf_inv K (dirty_pages s) s" using inv by (simp add: fm_inv_def buf_wf_def)
  have at': "pvd_rdx (fm_pvd s d) c i = Some p" by (rule rdx_scan_Some [OF at])
  have p: "p \<in> pages_of d s" using found_in_use [OF b at'] by (simp add: pages_of_def)
  obtain s2 where s2: "raw_free_page p s1 = Some s2" "page_gone K d p s s2" using raw_free_page_spec [OF inv at' _ _ _ s1] ok [OF p] by blast
  note of = page_gone_of [OF s2(2) p]
  have g: "fm_inv K s2" "\<And>x. x \<noteq> p \<Longrightarrow> pm_pages s2 x = pm_pages s x" "fm_pte s2 = fm_pte s" using s2(2) unfolding page_gone_def by blast+
  have "drainable K d s2" unfolding drainable_def of using g(1-3) ok by simp
  moreover have "tp_buffer_id (pm_pages s1 p) = BI_CLEAN" using ok [OF p] by (simp add: s1)
  ultimately show ?thesis using that s2(1) by blast
qed

lemma rdx_drain_clean:
  assumes g: "\<And>p s. tp_buffer_id (pm_pages s p) = BI_CLEAN \<Longrightarrow> g p s = raw_free_page p s"
  shows "drainable K d s \<Longrightarrow> rdx_drain g K E d n s = raw_drain K E d n s"
proof (induction n arbitrary: s)
  case (Suc n)
  show ?case
  proof (cases "rdx_scan E (pvd_rdx (fm_pvd s d)) [0..<ncpus K]")
    case (Some cip)
    obtain c i p where cip: "cip = (c, i, p)" by (cases cip)
    obtain s1 where s1: "s1 = upd_pvd d (\<lambda>v. v\<lparr>pvd_rdx := (pvd_rdx v)(c := (pvd_rdx v c)(i := None))\<rparr>) s" by simp
    obtain s2 where s2: "raw_free_page p s1 = Some s2" "drainable K d s2" "tp_buffer_id (pm_pages s1 p) = BI_CLEAN"
      using drainable_step [OF Suc.prems Some [unfolded cip] s1] .
    show ?thesis using Some cip s2(1) g [OF s2(3)] Suc.IH [OF s2(2)] by (simp add: Let_def flip: s1)
  qed simp
qed simp

lemma clear_pvd_spec:
  assumes "rdx_first_ok (de_rdx_first E)" and "0 < ncpus K" and d: "drainable K d s"
  obtains s' where "clear_pvd K E d s = Some s'" "drained K d s s'" "dev_frame s s'"
proof -
  have inv: "fm_inv K s" using d by (simp add: drainable_def)
  have "card (pages_of d s) < Suc (pm_total s)" using pages_of_finite(2) [OF inv, of d] by simp
  from raw_drain_spec [OF assms(1,2) d this] obtain s' where s': "raw_drain K E d (Suc (pm_total s)) s = Some s'" "drained K d s s'" by blast
  moreover have "clear_pvd K E d s = Some s'"
    using s'(1) rdx_drain_clean [OF clear_pvd_page_clean d] unfolding clear_pvd_def by metis
  moreover have "dev_frame s s'" by (rule raw_drain_frame [OF s'(1)])
  ultimately show ?thesis using that by blast
qed

text \<open>Emptying one object leaves the pages of the others alone.\<close>

lemma drained_other:
  assumes dr: "drained K d s s'" and d': "d' \<noteq> d"
  shows "pages_of d' s' = pages_of d' s" and "drainable K d' s \<Longrightarrow> drainable K d' s'"
proof -
  have D: "fm_inv K s'" "\<And>p. p \<notin> pages_of d s \<Longrightarrow> pm_pages s' p = pm_pages s p" "fm_pte s' = fm_pte s"
    "free_set (k_topo K) s' = pages_of d s \<union> free_set (k_topo K) s" using dr unfolding drained_def by blast+
  have "pm_wf (k_topo K) s'" using D(1) by (simp add: fm_inv_def buf_wf_def buf_inv_def)
  then have "tp_in_use (pm_pages s' p) = 0" if "p \<in> pages_of d s" for p using that D(4) by (auto simp: pm_wf_def)
  then have "p \<in> pages_of d' s' \<longleftrightarrow> p \<in> pages_of d' s" for p
    using D(2) [of p] d' by (cases "p \<in> pages_of d s") (auto simp: pages_of_def)
  then show eq: "pages_of d' s' = pages_of d' s" by blast
  have "pm_pages s' p = pm_pages s p" if "p \<in> pages_of d' s" for p using D(2) [of p] that d' by (auto simp: pages_of_def)
  then show "drainable K d' s \<Longrightarrow> drainable K d' s'" using D(1,3) by (simp add: drainable_def eq)
qed

definition cached_pvds :: "'l wfs \<Rightarrow> nat set" where
  "cached_pvds s = ran (wx_ino_pvd s)"


section \<open>Errors of the code\<close>

text \<open>An object whose file has been closed still names the lower file; emptying the cache gives the reference back a second time.\<close>

lemma ino_cache_clear_double_put:
  fixes s :: "'l wfs"
  assumes "rdx_first_ok (de_rdx_first E)" and "0 < ncpus K" and "wx_ino_pvd s = [ino \<mapsto> d]" and "drainable K d (wx_fm s)"
    and "pvd_bk (fm_pvd (wx_fm s) d) = Some g" and "wx_fref s g = 0"
  shows "\<exists>s'. ino_cache_clear K E 2 s = Some s' \<and> wx_fref s' g = - 1"
proof -
  obtain x where x: "clear_pvd K E d (wx_fm s) = Some x" "dev_frame (wx_fm s) x" using clear_pvd_spec [OF assms(1,2,4)] .
  have bk: "pvd_bk (fm_pvd x d) = Some g" using x(2) assms(5) by (simp add: dev_frame_def pvd_fixed_def)
  have f: "case de_rdx_first E m of None \<Rightarrow> \<forall>i. m i = None | Some i \<Rightarrow> m i \<noteq> None \<and> (\<forall>j<i. m j = None)" for m
    using assms(1) unfolding rdx_first_ok_def by blast
  have "de_rdx_first E [ino \<mapsto> d] = Some ino" "de_rdx_first E Map.empty = None"
    using f [of "[ino \<mapsto> d]"] f [of Map.empty] by (auto split: option.splits if_splits)
  moreover have "[ino \<mapsto> d](ino := None) = Map.empty" by auto
  ultimately show ?thesis using x(1) assms(3,6) bk by (simp add: numeral_2_eq_2)
qed

text \<open>Closing the file an unmapped object uses leaves the object with the closed file, also when others are open.\<close>

lemma release_unmapped_dangling:
  assumes "fl_private (wx_file s f) = Some w" and "wf_pvd w = Some d" and "wf_lower_file w = Some g" and "\<not> pvd_mapped (fm_pvd (wx_fm s) d)"
    and "pvd_bk (fm_pvd (wx_fm s) d) = Some g" and "wx_fref s g = 1"
  shows "\<exists>s'. wrapfs_file_release K L f s = Some (0, s') \<and> pvd_bk (fm_pvd (wx_fm s') d) = Some g \<and> wx_fref s' g = 0"
  using assms by (simp add: wrapfs_file_release_def Let_def set_private_def)

text \<open>The error of opening the lower file of a regular file is followed as a pointer.\<close>

lemma open_error_crashes:
  assumes "lower = Inl e" and "is_regular s (fl_dentry (wx_file s f))"
  shows "fm_bug (wx_fm (snd (open_finish L inode f fi pvd (lower, s))))"
  using assms by (simp add: open_finish_def Let_def open_pvd_def set_private_def)

text \<open>Every command is accepted without effect, and none reaches the lower file.\<close>

lemma ioctl_swallowed:
  assumes "wrapfs_lower_file s f = Some g" and "lf_f_op L g"
  shows "wrapfs_unlocked_ioctl L inode f cmd arg s = (0, s)"
  using assms by (simp add: wrapfs_unlocked_ioctl_def dmap_priority_ioctl_def)

section \<open>A mapped file with a dirty page\<close>

text \<open>
  A lower file system whose open files are numbered from 7 on and all have inode 5. The object of that inode has the dirty page 3 of
  the example; it is mapped, and the lower files 0 and 7 are open. File 1 of the stacked file system is open on the lower file 0.
\<close>

definition lower_example :: "nat lower_fs" where
  "lower_example = \<lparr>lf_i_ino = word_of_nat, lf_i_sb = (\<lambda>i. 0), lf_s_dev = (\<lambda>b. 0), lf_d_inode = (\<lambda>l d. Some d), lf_parent = (\<lambda>l d. 0),
     lf_f_inode = (\<lambda>l g. Some 5), lf_f_pos = (\<lambda>l g. 0), lf_attr = (\<lambda>l i. \<lparr>ia_mode = 0x8000, ia_uid = 0, ia_gid = 0, ia_rdev = 0, ia_atime = 3,
       ia_mtime = 3, ia_ctime = 3, ia_blkbits = 12, ia_flags = 0, ia_nlink = 2, ia_size = 9, ia_blocks = 8\<rparr>),
     lf_copy_atime = (\<lambda>d s. d\<lparr>ia_atime := ia_atime s\<rparr>), lf_copy_times = (\<lambda>d s. d\<lparr>ia_atime := ia_atime s, ia_mtime := ia_mtime s, ia_ctime := ia_ctime s\<rparr>),
     lf_copy_size = (\<lambda>d s. d\<lparr>ia_size := ia_size s, ia_blocks := ia_blocks s\<rparr>), lf_copy_all = (\<lambda>d s. s\<lparr>ia_size := ia_size d, ia_blocks := ia_blocks d\<rparr>),
     lf_open = (\<lambda>p fl l. (Inr (l + 7), Suc l)), lf_read = (\<lambda>g n pos st. ((0, [], pos), snd st)), lf_write = (\<lambda>g b pos st. ((0, pos), st)),
     lf_read_iter = (\<lambda>g. None), lf_write_iter = (\<lambda>g. None), lf_accessed = (\<lambda>g l. l), lf_touch = (\<lambda>a. a),
     lf_fallocate = (\<lambda>g m off n st. (0, st)), lf_fsync_range = (\<lambda>g a b ds l. (0, l)), lf_generic_fsync = (\<lambda>f a b ds. 0),
     lf_iterate_dir = (\<lambda>g l. (0, l)), lf_ioctl = (\<lambda>g c. None), lf_f_op = (\<lambda>g. True), lf_flush = (\<lambda>g. None), lf_fasync = (\<lambda>g. None),
     lf_llseek = (\<lambda>g off w l. (0, l))\<rparr>"

definition file_pvd :: "fm \<Rightarrow> fm" where
  "file_pvd = upd_pvd 0 (\<lambda>v. v\<lparr>pvd_type := D_FILE, pvd_ino := 5, pvd_mmaped := 1, pvd_is_mmap := True, pvd_is_valid := True,
     pvd_bk := Some 0, pvd_open_fds := [Some 0, Some 7]\<rparr>)"

definition wfs_blank :: "nat wfs" where
  "wfs_blank = \<lparr>wx_fm = file_pvd evict_example, wx_low = 0,
     wx_inode = (\<lambda>i. \<lparr>wi_lower_inode = Some 5, wi_ino = 5, wi_attr = lf_attr lower_example 0 0, wi_iops = Wrapfs_main_iops, wi_fops = Wrapfs_main_fops, wi_version = 2\<rparr>),
     wx_dentry = (\<lambda>d. \<lparr>wd_info = Some \<lparr>path_dentry = Some 5, path_mnt = Some 0\<rparr>, wd_inode = Some 5, wd_parent = 0, wd_name = ''f'', wd_hashed = True\<rparr>),
     wx_file = (\<lambda>f. new_wfile 5 0), wx_icache = [5], wx_ino_pvd = (\<lambda>i. None), wx_lower_sb = Some 0,
     wx_dref = (\<lambda>d. 0), wx_mref = (\<lambda>d. 0), wx_iref = (\<lambda>d. 0), wx_fref = (\<lambda>d. 0)\<rparr>"

definition wfs_example :: "nat wfs" where
  "wfs_example = wfs_blank\<lparr>wx_file := (\<lambda>f. new_wfile 5 0)(1 := (new_wfile 5 0)\<lparr>fl_private := Some \<lparr>wf_lower_file = Some 0, wf_fmap_info = Some 0, wf_pvd = Some 0\<rparr>\<rparr>),
     wx_ino_pvd := [5 \<mapsto> 0], wx_fref := (\<lambda>g. if g = 0 then 2 else 0)\<rparr>"

lemma wfs_example_inv: "fm_inv kernel_example (wx_fm wfs_example)"
  unfolding wfs_example_def wfs_blank_def file_pvd_def by (simp, rule fm_inv_pvd_flags [OF evict_example_rest(1)]) simp_all

lemma wfs_example_file:
  "fl_private (wx_file wfs_example 1) = Some \<lparr>wf_lower_file = Some 0, wf_fmap_info = Some 0, wf_pvd = Some 0\<rparr>"
  "pvd_mapped (fm_pvd (wx_fm wfs_example) 0)" "pvd_mmaped (fm_pvd (wx_fm wfs_example) 0) = 1" "[Some 0, Some 7] = pvd_open_fds (fm_pvd (wx_fm wfs_example) 0)"
  by (simp_all add: wfs_example_def wfs_blank_def file_pvd_def pvd_mapped_def)

lemma wfs_example_pages: "pm_pages (wx_fm wfs_example) = pm_pages evict_example"
  by (simp add: wfs_example_def wfs_blank_def file_pvd_def)

lemma wfs_example_dirty:
  "dirty_of 0 (wx_fm wfs_example) 3" "p_index (wx_fm wfs_example) 3 = 3" "page_content (wx_fm wfs_example) p = page_content evict_example p"
  "writes_fit kernel_example 0 (wx_fm wfs_example)"
  using evict_example_batch(2) evict_example_rest(4) evict_example_fit writes_fit_pages [OF wfs_example_pages]
  by (simp_all add: dirty_of_def lockable_def p_index_def page_content_def wfs_example_pages)

lemma wfs_example_ready:
  "wd_ready kernel_example 0 0 (upd_pvd 0 (\<lambda>v. v\<lparr>pvd_bk := Some 0\<rparr>) (wx_fm wfs_example))" "wd_ready kernel_example 0 0 (wx_fm wfs_example)"
  using evict_example_ready
  by (simp_all add: wd_ready_def lockable_def p_index_def wfs_example_pages) (simp add: wfs_example_def wfs_blank_def file_pvd_def)



section \<open>Two files of one inode\<close>

definition two_start :: "nat wfs" where
  "two_start = wfs_blank\<lparr>wx_fm := evict_example\<lparr>fm_bug := False\<rparr>\<rparr>"

definition two_first :: "nat wfs" where
  "two_first = snd (wrapfs_open lower_example 5 2 True (Some 0) 3 (upd_wfile 2 (\<lambda>_. new_wfile 5 0) two_start))"

definition two_second :: "nat wfs" where
  "two_second = snd (wrapfs_open lower_example 5 4 True (Some 6) 9 (upd_wfile 4 (\<lambda>_. new_wfile 5 0) two_first))"

lemmas open_unfold = wrapfs_open_def open_finish_def open_lower_def open_memory_def open_pvd_def is_regular_def S_ISREG_def Let_def set_private_def
  set_fmap_pvd_def wrapfs_set_lower_file_def wrapfs_lower_inode_def wrapfs_get_lower_path_def wrapfs_put_lower_path_def lower_path_of_def need_info_def
  copy_attr_def lower_example_def new_wfile_def

lemma two_first_simps:
  "wx_file two_first = (\<lambda>f. new_wfile 5 0)(2 := (new_wfile 5 0)\<lparr>fl_private := Some \<lparr>wf_lower_file = Some 7, wf_fmap_info = Some 0, wf_pvd = Some 3\<rparr>\<rparr>)"
  "wx_ino_pvd two_first = [5 \<mapsto> 3]" "wx_fref two_first = (\<lambda>g. if g = 7 then 1 else 0)" "wx_low two_first = 1" "\<not> fm_bug (wx_fm two_first)"
  "wx_dentry two_first = wx_dentry wfs_blank" "wx_inode two_first = wx_inode wfs_blank"
  by (auto simp: two_first_def two_start_def wfs_blank_def open_unfold upd_pvd_def fun_eq_iff)

lemma two_second_simps:
  "wrapfs_lower_file two_second 2 = Some 7" "wf_pvd_of two_second 2 = Some 3" "wrapfs_lower_file two_second 4 = Some 8" "wf_pvd_of two_second 4 = Some 3"
  "\<not> fm_bug (wx_fm two_second)" "wx_low two_second = 2"
  by (auto simp: two_second_def two_first_simps wfs_blank_def open_unfold upd_pvd_def wrapfs_lower_file_def wf_pvd_of_def)

lemma two_reach: "reach wfs_initial (wfs_step kernel_example lower_example) two_second"
proof -
  have "wfs_initial two_start" by (simp add: wfs_initial_def two_start_def wfs_blank_def wrapfs_lower_file_def new_wfile_def)
  then have r0: "reach wfs_initial (wfs_step kernel_example lower_example) two_start" by (rule reach_init)
  have open_of: "wrapfs_open L i f m a p s = (fst (wrapfs_open L i f m a p s), snd (wrapfs_open L i f m a p s))" for L :: "nat lower_fs" and i f m a p s by simp
  have "wfs_step kernel_example lower_example two_start two_first"
  proof (rule step_open [OF _ _ open_of [of lower_example 5 2 True "Some 0" 3 "upd_wfile 2 (\<lambda>_. new_wfile 5 0) two_start", folded two_first_def]])
    show "wrapfs_lower_file two_start 2 = None" by (simp add: two_start_def wfs_blank_def wrapfs_lower_file_def new_wfile_def)
  qed (auto simp: two_first_simps wrapfs_lower_file_def low_step_def two_start_def wfs_blank_def lower_example_def)
  with r0 have r1: "reach wfs_initial (wfs_step kernel_example lower_example) two_first" by (rule reach_step)
  have "wfs_step kernel_example lower_example two_first two_second"
  proof (rule step_open [OF _ _ open_of [of lower_example 5 4 True "Some 6" 9 "upd_wfile 4 (\<lambda>_. new_wfile 5 0) two_first", folded two_second_def]])
    show "wrapfs_lower_file two_first 4 = None" by (simp add: two_first_simps wrapfs_lower_file_def new_wfile_def)
    show "wx_ino_pvd two_first ino \<noteq> Some 9" for ino by (simp add: two_first_simps)
    show "low_step lower_example two_first (wx_low two_second)" by (simp add: low_step_def lower_example_def)
    show "wx_fref two_first g = 0 \<and> lf_f_inode lower_example (wx_low two_second) g \<noteq> None" if "wrapfs_lower_file two_second 4 = Some g" for g
      using that by (simp add: two_second_simps two_first_simps lower_example_def)
  qed (rule two_second_simps(5))
  with r1 show ?thesis by (rule reach_step)
qed



text \<open>The module is unloaded: the clean page 3 of the object of inode 5 is not mapped any more.\<close>

definition unload_example :: "nat wfs" where
  "unload_example = wfs_blank\<lparr>wx_fm := buf_example\<lparr>fm_pte := (\<lambda>k. None)\<rparr>, wx_ino_pvd := [5 \<mapsto> 0]\<rparr>"

lemma unload_example_drainable: "drainable kernel_example 0 (wx_fm unload_example)" "pages_of 0 (wx_fm unload_example) = {3}"
proof -
  let ?x = "buf_example\<lparr>fm_pte := (\<lambda>k. None)\<rparr>"
  have pg: "pages_of 0 ?x = {3}" by (auto simp: pages_of_def buf_example_simps tp_set_defs split: if_splits)
  then show "pages_of 0 (wx_fm unload_example) = {3}" by (simp add: unload_example_def)
  have "fm_inv kernel_example ?x" by (rule fm_inv_rest [OF buf_example_inv]) simp_all
  moreover have "\<not> locked_tp (pm_pages buf_example 3)" using buf_example_clean(3) by (simp add: lockable_def)
  moreover have "tp_buffer_id (pm_pages buf_example 3) = BI_CLEAN" by (simp add: buf_example_simps tp_set_defs)
  ultimately show "drainable kernel_example 0 (wx_fm unload_example)" by (simp add: unload_example_def drainable_def pg maps_page_def)
qed


end
