(* ===== verification/Wrapfs_Inode.thy ===== *)
theory Wrapfs_Inode
  imports Wrapfs_Cache
begin

text \<open>
  \<^verbatim>\<open>dmapfs_lookup.c\<close>, \<^verbatim>\<open>dmapfs_dentry.c\<close>, \<^verbatim>\<open>dmapfs_inode.c\<close> and \<^verbatim>\<open>dmapfs_super.c\<close>: names and inodes of the stacked file system. An
  upper inode is found by its lower inode; an operation on a name runs the operation of the lower file system on the
  lower dentry and copies the attributes back. Removing the last name of a file frees its cached pages.
\<close>

section \<open>The lower file system\<close>

text \<open>
  The directory operations of the lower file system and of the VFS. \<open>ld_trap\<close> is the dentry \<^verbatim>\<open>lock_rename\<close> returns, \<open>ld_silly\<close> the flag
  \<^verbatim>\<open>DCACHE_NFSFS_RENAMED\<close>, \<open>ld_igrab\<close> whether \<^verbatim>\<open>igrab\<close> succeeds, \<open>ld_splice\<close> the alias \<^verbatim>\<open>d_splice_alias\<close> returns instead of the
  dentry, \<open>ld_ptr\<close> the value of \<^verbatim>\<open>PTR_ERR\<close> on a dentry, \<open>ld_special\<close> the file operations \<^verbatim>\<open>init_special_inode\<close> sets,
  \<open>ld_d_sb\<close> the super block of a dentry, \<open>ld_lookup\<close> \<^verbatim>\<open>vfs_path_lookup\<close>, \<open>ld_d_lookup\<close> and \<open>ld_d_alloc\<close> finding and making a
  negative lower dentry.
\<close>

record setattr_req =
  sr_valid :: u32
  sr_size :: u64
  sr_file :: "nat option"

record 'l lower_dir_fs = "'l lower_fs" +
  ld_create :: "nat option \<Rightarrow> nat \<Rightarrow> u32 \<Rightarrow> bool \<Rightarrow> 'l \<Rightarrow> int \<times> 'l"
  ld_link :: "nat \<Rightarrow> nat option \<Rightarrow> nat \<Rightarrow> 'l \<Rightarrow> int \<times> 'l"
  ld_unlink :: "nat option \<Rightarrow> nat \<Rightarrow> 'l \<Rightarrow> int \<times> 'l"
  ld_symlink :: "nat option \<Rightarrow> nat \<Rightarrow> string \<Rightarrow> 'l \<Rightarrow> int \<times> 'l"
  ld_mkdir :: "nat option \<Rightarrow> nat \<Rightarrow> u32 \<Rightarrow> 'l \<Rightarrow> int \<times> 'l"
  ld_rmdir :: "nat option \<Rightarrow> nat \<Rightarrow> 'l \<Rightarrow> int \<times> 'l"
  ld_mknod :: "nat option \<Rightarrow> nat \<Rightarrow> u32 \<Rightarrow> u32 \<Rightarrow> 'l \<Rightarrow> int \<times> 'l"
  ld_rename :: "nat option \<Rightarrow> nat \<Rightarrow> nat option \<Rightarrow> nat \<Rightarrow> 'l \<Rightarrow> int \<times> 'l"
  ld_trap :: "'l \<Rightarrow> nat \<Rightarrow> nat \<Rightarrow> nat option"
  ld_silly :: "'l \<Rightarrow> nat \<Rightarrow> bool"
  ld_igrab :: "'l \<Rightarrow> nat \<Rightarrow> bool"
  ld_splice :: "nat \<Rightarrow> nat \<Rightarrow> nat option"
  ld_d_sb :: "nat \<Rightarrow> nat"
  ld_ptr :: "nat \<Rightarrow> int"
  ld_special :: "u32 \<Rightarrow> file_ops \<Rightarrow> file_ops"
  ld_lookup :: "path \<Rightarrow> string \<Rightarrow> 'l \<Rightarrow> int + path"
  ld_d_lookup :: "'l \<Rightarrow> path \<Rightarrow> string \<Rightarrow> nat option"
  ld_d_alloc :: "path \<Rightarrow> string \<Rightarrow> 'l \<Rightarrow> (nat \<times> 'l) option"
  ld_revalidate :: "nat \<Rightarrow> (u32 \<Rightarrow> int) option"
  ld_readlink :: "nat \<Rightarrow> (nat \<Rightarrow> 'l \<Rightarrow> (int \<times> string) \<times> 'l) option"
  ld_permission :: "nat option \<Rightarrow> int \<Rightarrow> 'l \<Rightarrow> int"
  ld_prepare :: "iattr \<Rightarrow> setattr_req \<Rightarrow> int"
  ld_newsize_ok :: "iattr \<Rightarrow> u64 \<Rightarrow> int"
  ld_notify :: "nat \<Rightarrow> setattr_req \<Rightarrow> lower_store \<times> 'l \<Rightarrow> int \<times> lower_store \<times> 'l"
  ld_getattr :: "path \<Rightarrow> 'l \<Rightarrow> int \<times> u64 \<times> 'l"
  ld_xattr :: "nat option \<Rightarrow> bool"
  ld_setxattr :: "nat \<Rightarrow> string \<Rightarrow> pdata \<Rightarrow> int \<Rightarrow> 'l \<Rightarrow> int \<times> 'l"
  ld_getxattr :: "nat \<Rightarrow> string \<Rightarrow> nat \<Rightarrow> 'l \<Rightarrow> (int \<times> pdata) \<times> 'l"
  ld_listxattr :: "nat \<Rightarrow> nat \<Rightarrow> 'l \<Rightarrow> (int \<times> pdata) \<times> 'l"
  ld_removexattr :: "nat \<Rightarrow> string \<Rightarrow> 'l \<Rightarrow> int \<times> 'l"
  ld_statfs :: "path \<Rightarrow> 'l \<Rightarrow> int \<times> u64"

abbreviation (input) ENOTEMPTY :: int where "ENOTEMPTY \<equiv> 39"
abbreviation (input) EXDEV :: int where "EXDEV \<equiv> 18"
abbreviation (input) ESTALE :: int where "ESTALE \<equiv> 116"
abbreviation (input) ECHILD :: int where "ECHILD \<equiv> 10"
abbreviation (input) EOPNOTSUPP :: int where "EOPNOTSUPP \<equiv> 95"

section \<open>Inodes and dentries\<close>

definition wrapfs_inode_test :: "('l, 'b) wfs_scheme \<Rightarrow> nat \<Rightarrow> nat \<Rightarrow> bool" where
  "wrapfs_inode_test s inode candidate \<longleftrightarrow> wrapfs_lower_inode s inode = Some candidate"

text \<open>Filling in a new inode for the lower inode \<open>j\<close>.\<close>

definition iget_iops :: "u32 \<Rightarrow> inode_ops" where
  "iget_iops m = (if S_ISDIR m then Wrapfs_dir_iops else if S_ISLNK m then Wrapfs_symlink_iops else Wrapfs_main_iops)"

definition iget_fops :: "('l, 'b) lower_dir_fs_scheme \<Rightarrow> u32 \<Rightarrow> file_ops" where
  "iget_fops L m =
     (let fops = (if S_ISDIR m then Wrapfs_dir_fops else Wrapfs_main_fops)
      in if S_ISSPECIAL m then ld_special L m fops else fops)"

definition wrapfs_alloc_inode :: "wrapfs_inode_info \<Rightarrow> wrapfs_inode_info" where
  "wrapfs_alloc_inode i = i\<lparr>wi_lower_inode := None, wi_version := 1\<rparr>"

definition iget_init :: "('l, 'b) lower_dir_fs_scheme \<Rightarrow> nat \<Rightarrow> nat \<Rightarrow> 'l wfs \<Rightarrow> 'l wfs" where
  "iget_init L i j s =
     (let mode = ia_mode (lf_attr L (wx_low s) j);
          s = upd_inode i wrapfs_alloc_inode s;
          s = upd_inode i (\<lambda>x. x\<lparr>wi_ino := lf_i_ino L j\<rparr>) s;
          s = wrapfs_set_lower_inode i (Some j) s;
          s = upd_inode i (\<lambda>x. x\<lparr>wi_version := wi_version x + 1, wi_iops := iget_iops mode, wi_fops := iget_fops L mode\<rparr>) s;
          s = upd_inode i (\<lambda>x. x\<lparr>wi_attr := (wi_attr x)\<lparr>ia_atime := 0, ia_mtime := 0, ia_ctime := 0\<rparr>\<rparr>) s;
          s = copy_attr (lf_copy_all L) L (Some i) (Some j) s;
          s = copy_attr (lf_copy_size L) L (Some i) (Some j) s
      in s\<lparr>wx_icache := i # wx_icache s\<rparr>)"

text \<open>\<open>new\<close> is the inode that would be allocated.\<close>

definition wrapfs_iget :: "('l, 'b) lower_dir_fs_scheme \<Rightarrow> nat option \<Rightarrow> nat \<Rightarrow> 'l wfs \<Rightarrow> (int + nat) \<times> 'l wfs" where
  "wrapfs_iget L new lower_inode s =
     (if \<not> ld_igrab L (wx_low s) lower_inode then (Inl (- ESTALE), s)
      else let s = iref (Some lower_inode) 1 s
           in case find (\<lambda>i. wrapfs_inode_test s i lower_inode) (wx_icache s) of
                Some i \<Rightarrow> (Inr i, iref (Some lower_inode) (- 1) s)
              | None \<Rightarrow>
                  (case new of
                     None \<Rightarrow> (Inl (- ENOMEM), iref (Some lower_inode) (- 1) s)
                   | Some i \<Rightarrow> (Inr i, iget_init L i lower_inode s)))"

text \<open>\<^verbatim>\<open>__wrapfs_interpose\<close>: an error, or the alias dentry, if there is one.\<close>

definition interpose :: "('l, 'b) lower_dir_fs_scheme \<Rightarrow> nat \<Rightarrow> path \<Rightarrow> nat option \<Rightarrow> 'l wfs \<Rightarrow> (int + nat option) \<times> 'l wfs" where
  "interpose L dentry lower_path new s =
     (case Option.bind (path_dentry lower_path) (lf_d_inode L (wx_low s)) of
        None \<Rightarrow> (Inr None, wbug s)
      | Some lower_inode \<Rightarrow>
          if Some (lf_i_sb L lower_inode) \<noteq> wx_lower_sb s then (Inl (- EXDEV), s)
          else (case wrapfs_iget L new lower_inode s of
                  (Inl e, s) \<Rightarrow> (Inl e, s)
                | (Inr i, s) \<Rightarrow>
                    (case ld_splice L i dentry of
                       None \<Rightarrow> (Inr None, upd_dentry dentry (\<lambda>x. x\<lparr>wd_inode := Some i\<rparr>) s)
                     | Some a \<Rightarrow> (Inr (Some a), s))))"

definition wrapfs_interpose :: "('l, 'b) lower_dir_fs_scheme \<Rightarrow> nat \<Rightarrow> path \<Rightarrow> nat option \<Rightarrow> 'l wfs \<Rightarrow> int \<times> 'l wfs" where
  "wrapfs_interpose L dentry lower_path new s =
     (case interpose L dentry lower_path new s of
        (Inl e, s) \<Rightarrow> (e, s)
      | (Inr None, s) \<Rightarrow> (0, s)
      | (Inr (Some a), s) \<Rightarrow> (ld_ptr L a, s))"

definition new_dentry_private_data :: "nat \<Rightarrow> bool \<Rightarrow> ('l, 'b) wfs_scheme \<Rightarrow> int \<times> ('l, 'b) wfs_scheme" where
  "new_dentry_private_data d mem s =
     (if \<not> mem then (- ENOMEM, s) else (0, upd_dentry d (\<lambda>x. x\<lparr>wd_info := Some null_path\<rparr>) s))"

definition free_dentry_private_data :: "nat \<Rightarrow> ('l, 'b) wfs_scheme \<Rightarrow> ('l, 'b) wfs_scheme" where
  "free_dentry_private_data d s = upd_dentry d (\<lambda>x. x\<lparr>wd_info := None\<rparr>) s"

text \<open>
  \<^verbatim>\<open>__wrapfs_lookup\<close>: the lower name exists; it does not, and a negative lower dentry is found or made; or another error.
\<close>

definition lookup_negative :: "('l, 'b) lower_dir_fs_scheme \<Rightarrow> nat \<Rightarrow> path \<Rightarrow> 'l wfs \<Rightarrow> (int + nat option) \<times> 'l wfs" where
  "lookup_negative L dentry parent s =
     (case (case ld_d_lookup L (wx_low s) parent (wd_name (wx_dentry s dentry)) of
              Some d \<Rightarrow> Some (d, wx_low s)
            | None \<Rightarrow> ld_d_alloc L parent (wd_name (wx_dentry s dentry)) (wx_low s)) of
        None \<Rightarrow> (Inl (- ENOMEM), s)
      | Some (d, low) \<Rightarrow>
          (let lower_path = \<lparr>path_dentry = Some d, path_mnt = path_mnt parent\<rparr>
           in (Inr None, wrapfs_set_lower_path dentry lower_path (pref lower_path 1 (set_low low s)))))"

definition lookup_inner :: "('l, 'b) lower_dir_fs_scheme \<Rightarrow> nat \<Rightarrow> path \<Rightarrow> nat option \<Rightarrow> 'l wfs \<Rightarrow> (int + nat option) \<times> 'l wfs" where
  "lookup_inner L dentry lower_parent_path new s =
     (if wd_parent (wx_dentry s dentry) = dentry then (Inr None, s)
      else case ld_lookup L lower_parent_path (wd_name (wx_dentry s dentry)) (wx_low s) of
             Inr lower_path \<Rightarrow>
               (let s = wrapfs_set_lower_path dentry lower_path (pref lower_path 1 s)
                in case interpose L dentry lower_path new s of
                     (Inl e, s) \<Rightarrow> (Inl e, wrapfs_put_reset_lower_path dentry s)
                   | (Inr a, s) \<Rightarrow> (Inr a, s))
           | Inl err \<Rightarrow> if err \<noteq> - ENOENT then (Inl err, s) else lookup_negative L dentry lower_parent_path s)"

definition wrapfs_lookup :: "('l, 'b) lower_dir_fs_scheme \<Rightarrow> nat \<Rightarrow> bool \<Rightarrow> nat option \<Rightarrow> 'l wfs \<Rightarrow> (int + nat option) \<times> 'l wfs" where
  "wrapfs_lookup L dentry mem new s =
     (let parent = wd_parent (wx_dentry s dentry);
          (lower_parent_path, s) = wrapfs_get_lower_path parent s;
          (err, s) = new_dentry_private_data dentry mem s;
          (ret, s) = (if err \<noteq> 0 then (Inl err, s) else lookup_inner L dentry lower_parent_path new s);
          s = (case ret of
                 Inl e \<Rightarrow> s
               | Inr a \<Rightarrow>
                   (let dentry = (case a of None \<Rightarrow> dentry | Some d \<Rightarrow> d);
                        s = (case wd_inode (wx_dentry s dentry) of None \<Rightarrow> s | Some i \<Rightarrow> copy_attr (lf_copy_times L) L (Some i) (wrapfs_lower_inode s i) s)
                    in case wd_inode (wx_dentry s parent) of
                         None \<Rightarrow> wbug s
                       | Some i \<Rightarrow> copy_attr (lf_copy_atime L) L (Some i) (wrapfs_lower_inode s i) s))
      in (ret, wrapfs_put_lower_path lower_parent_path s))"

definition wrapfs_d_revalidate :: "('l, 'b) lower_dir_fs_scheme \<Rightarrow> nat \<Rightarrow> u32 \<Rightarrow> 'l wfs \<Rightarrow> int \<times> 'l wfs" where
  "wrapfs_d_revalidate L dentry flags s =
     (if flags AND 0x40 \<noteq> 0 then (- ECHILD, s)
      else let (lower_path, s) = wrapfs_get_lower_path dentry s
           in case path_dentry lower_path of
                None \<Rightarrow> (0, wbug s)
              | Some d \<Rightarrow> (case ld_revalidate L d of None \<Rightarrow> 1 | Some h \<Rightarrow> h flags, wrapfs_put_lower_path lower_path s))"

definition wrapfs_d_release :: "nat \<Rightarrow> ('l, 'b) wfs_scheme \<Rightarrow> ('l, 'b) wfs_scheme" where
  "wrapfs_d_release dentry s = free_dentry_private_data dentry (wrapfs_put_reset_lower_path dentry s)"

section \<open>Operations on names\<close>

text \<open>
  The frame of most operations: they take the lower path of a dentry and give it back at the end; a lower dentry's parent is locked for the
  operation. A null lower dentry would be followed.
\<close>

definition with_lower :: "nat \<Rightarrow> (path \<Rightarrow> nat \<Rightarrow> 'l wfs \<Rightarrow> int \<times> 'l wfs) \<Rightarrow> 'l wfs \<Rightarrow> int \<times> 'l wfs" where
  "with_lower dentry body s =
     (let (p, s) = wrapfs_get_lower_path dentry s;
          (r, s) = (case path_dentry p of None \<Rightarrow> (0, wbug s) | Some d \<Rightarrow> body p d s)
      in (r, wrapfs_put_lower_path p s))"

definition in_parent :: "('l, 'b) lower_dir_fs_scheme \<Rightarrow> nat \<Rightarrow> (nat \<Rightarrow> 'l wfs \<Rightarrow> int \<times> 'l wfs) \<Rightarrow> 'l wfs \<Rightarrow> int \<times> 'l wfs" where
  "in_parent L d body s = (let (dir, s) = lock_parent L d s; (r, s) = body dir s in (r, unlock_dir dir s))"

definition run_lower :: "('l \<Rightarrow> int \<times> 'l) \<Rightarrow> 'l wfs \<Rightarrow> int \<times> 'l wfs" where
  "run_lower h s = (let (err, low) = h (wx_low s) in (err, set_low low s))"

definition set_nlink :: "nat option \<Rightarrow> nat \<Rightarrow> 'l wfs \<Rightarrow> 'l wfs" where
  "set_nlink i n s = (case i of None \<Rightarrow> wbug s | Some i \<Rightarrow> upd_inode i (\<lambda>x. x\<lparr>wi_attr := (wi_attr x)\<lparr>ia_nlink := n\<rparr>\<rparr>) s)"

definition lower_nlink :: "('l, 'b) lower_dir_fs_scheme \<Rightarrow> 'l wfs \<Rightarrow> nat option \<Rightarrow> nat" where
  "lower_nlink L s j = (case j of None \<Rightarrow> 0 | Some j \<Rightarrow> ia_nlink (lf_attr L (wx_low s) j))"

definition d_inode_of :: "('l, 'b) wfs_scheme \<Rightarrow> nat \<Rightarrow> nat option" where
  "d_inode_of s d = wd_inode (wx_dentry s d)"

definition lower_of :: "('l, 'b) wfs_scheme \<Rightarrow> nat option \<Rightarrow> nat option" where
  "lower_of s i = Option.bind i (wrapfs_lower_inode s)"

text \<open>What follows a lower operation that has made a name: the new inode, and the attributes of the directory.\<close>

definition made_name :: "('l, 'b) lower_dir_fs_scheme \<Rightarrow> nat \<Rightarrow> nat \<Rightarrow> path \<Rightarrow> nat option \<Rightarrow> nat \<Rightarrow> int \<times> 'l wfs \<Rightarrow> int \<times> 'l wfs" where
  "made_name L dir dentry lower_path new lower_parent = (\<lambda>(err, s).
     if err \<noteq> 0 then (err, s)
     else let (err, s) = wrapfs_interpose L dentry lower_path new s
          in if err \<noteq> 0 then (err, s)
             else let s = copy_attr (lf_copy_times L) L (Some dir) (wrapfs_lower_inode s dir) s
                  in (0, copy_attr (lf_copy_size L) L (Some dir) (lf_d_inode L (wx_low s) lower_parent) s))"

definition wrapfs_create :: "('l, 'b) lower_dir_fs_scheme \<Rightarrow> nat \<Rightarrow> nat \<Rightarrow> u32 \<Rightarrow> bool \<Rightarrow> nat option \<Rightarrow> 'l wfs \<Rightarrow> int \<times> 'l wfs" where
  "wrapfs_create L dir dentry mode want_excl new =
     with_lower dentry (\<lambda>lower_path lower_dentry. in_parent L lower_dentry (\<lambda>parent s.
       made_name L dir dentry lower_path new parent
         (run_lower (ld_create L (lf_d_inode L (wx_low s) parent) lower_dentry mode want_excl) s)))"

definition wrapfs_symlink :: "('l, 'b) lower_dir_fs_scheme \<Rightarrow> nat \<Rightarrow> nat \<Rightarrow> string \<Rightarrow> nat option \<Rightarrow> 'l wfs \<Rightarrow> int \<times> 'l wfs" where
  "wrapfs_symlink L dir dentry symname new =
     with_lower dentry (\<lambda>lower_path lower_dentry. in_parent L lower_dentry (\<lambda>parent s.
       made_name L dir dentry lower_path new parent
         (run_lower (ld_symlink L (lf_d_inode L (wx_low s) parent) lower_dentry symname) s)))"

definition wrapfs_mknod :: "('l, 'b) lower_dir_fs_scheme \<Rightarrow> nat \<Rightarrow> nat \<Rightarrow> u32 \<Rightarrow> u32 \<Rightarrow> nat option \<Rightarrow> 'l wfs \<Rightarrow> int \<times> 'l wfs" where
  "wrapfs_mknod L dir dentry mode dev new =
     with_lower dentry (\<lambda>lower_path lower_dentry. in_parent L lower_dentry (\<lambda>parent s.
       made_name L dir dentry lower_path new parent
         (run_lower (ld_mknod L (lf_d_inode L (wx_low s) parent) lower_dentry mode dev) s)))"

definition wrapfs_mkdir :: "('l, 'b) lower_dir_fs_scheme \<Rightarrow> nat \<Rightarrow> nat \<Rightarrow> u32 \<Rightarrow> nat option \<Rightarrow> 'l wfs \<Rightarrow> int \<times> 'l wfs" where
  "wrapfs_mkdir L dir dentry mode new =
     with_lower dentry (\<lambda>lower_path lower_dentry. in_parent L lower_dentry (\<lambda>parent s.
       let (err, s) = made_name L dir dentry lower_path new parent
             (run_lower (ld_mkdir L (lf_d_inode L (wx_low s) parent) lower_dentry mode) s)
       in (err, if err \<noteq> 0 then s else set_nlink (Some dir) (lower_nlink L s (wrapfs_lower_inode s dir)) s)))"

text \<open>The attributes that \<^verbatim>\<open>wrapfs_link\<close> copies into the directory are those of the linked file.\<close>

definition wrapfs_link :: "('l, 'b) lower_dir_fs_scheme \<Rightarrow> nat \<Rightarrow> nat \<Rightarrow> nat \<Rightarrow> nat option \<Rightarrow> 'l wfs \<Rightarrow> int \<times> 'l wfs" where
  "wrapfs_link L old_dentry dir new_dentry new s =
     (let file_size_save = (case d_inode_of s old_dentry of None \<Rightarrow> 0 | Some i \<Rightarrow> ia_size (wi_attr (wx_inode s i)))
      in with_lower old_dentry (\<lambda>lower_old_path lower_old. with_lower new_dentry (\<lambda>lower_new_path lower_new.
           in_parent L lower_new (\<lambda>parent s.
             let (err, s) = run_lower (ld_link L lower_old (lf_d_inode L (wx_low s) parent) lower_new) s;
                 lower_inode = lf_d_inode L (wx_low s) lower_new
             in if err \<noteq> 0 \<or> lower_inode = None then (err, s)
                else let (err, s) = wrapfs_interpose L new_dentry lower_new_path new s
                     in if err \<noteq> 0 then (err, s)
                        else let s = copy_attr (lf_copy_times L) L (Some dir) lower_inode s;
                                 s = copy_attr (lf_copy_size L) L (Some dir) lower_inode s;
                                 s = set_nlink (d_inode_of s old_dentry) (lower_nlink L s (lower_of s (d_inode_of s old_dentry))) s
                             in (0, case d_inode_of s new_dentry of
                                      None \<Rightarrow> wbug s
                                    | Some i \<Rightarrow> upd_inode i (\<lambda>x. x\<lparr>wi_attr := (wi_attr x)\<lparr>ia_size := file_size_save\<rparr>\<rparr>) s)))) s)"

definition wrapfs_rmdir :: "('l, 'b) lower_dir_fs_scheme \<Rightarrow> nat \<Rightarrow> nat \<Rightarrow> 'l wfs \<Rightarrow> int \<times> 'l wfs" where
  "wrapfs_rmdir L dir dentry =
     with_lower dentry (\<lambda>lower_path lower_dentry. in_parent L lower_dentry (\<lambda>parent s.
       let (err, s) = run_lower (ld_rmdir L (lf_d_inode L (wx_low s) parent) lower_dentry) s
       in if err \<noteq> 0 then (err, s)
          else let s = upd_dentry dentry (\<lambda>x. x\<lparr>wd_hashed := False\<rparr>) s;
                   s = (if d_inode_of s dentry = None then s else set_nlink (d_inode_of s dentry) 0 s);
                   lower_dir = lf_d_inode L (wx_low s) parent;
                   s = copy_attr (lf_copy_times L) L (Some dir) lower_dir s;
                   s = copy_attr (lf_copy_size L) L (Some dir) lower_dir s
               in (0, set_nlink (Some dir) (lower_nlink L s lower_dir) s)))"

definition wrapfs_rename ::
  "('l, 'b) lower_dir_fs_scheme \<Rightarrow> nat \<Rightarrow> nat \<Rightarrow> nat \<Rightarrow> nat \<Rightarrow> u32 \<Rightarrow> 'l wfs \<Rightarrow> int \<times> 'l wfs" where
  "wrapfs_rename L old_dir old_dentry new_dir new_dentry flags s =
     (if flags \<noteq> 0 then (- EINVAL, s)
      else with_lower old_dentry (\<lambda>lower_old_path lower_old. with_lower new_dentry (\<lambda>lower_new_path lower_new.
             in_parent L lower_old (\<lambda>old_parent. in_parent L lower_new (\<lambda>new_parent s.
               let trap = ld_trap L (wx_low s) old_parent new_parent
               in if trap = Some lower_old then (- EINVAL, s)
                  else if trap = Some lower_new then (- ENOTEMPTY, s)
                  else let od = lf_d_inode L (wx_low s) old_parent;
                           nd = lf_d_inode L (wx_low s) new_parent;
                           (err, s) = run_lower (ld_rename L od lower_old nd lower_new) s
                       in if err \<noteq> 0 then (err, s)
                          else let nd = lf_d_inode L (wx_low s) new_parent;
                                   od = lf_d_inode L (wx_low s) old_parent;
                                   s = copy_attr (lf_copy_size L) L (Some new_dir) nd (copy_attr (lf_copy_all L) L (Some new_dir) nd s)
                               in (0, if new_dir = old_dir then s
                                      else copy_attr (lf_copy_size L) L (Some old_dir) od (copy_attr (lf_copy_all L) L (Some old_dir) od s)))))) s)"

section \<open>Removing a name\<close>

text \<open>What \<^verbatim>\<open>wrapfs_unlink\<close> does to a page it has taken out of the radix tree: a page that is not clean stays where it is.\<close>

definition unlink_page :: "pid \<Rightarrow> fm \<Rightarrow> fm option" where
  "unlink_page p s =
     (let (r, tp) = trylock_tp (pm_pages s p) ULONG_MAX
      in if r \<noteq> 0 then None
         else let s = upd_page p (\<lambda>_. tp) s
              in if tp_buffer_id (pm_pages s p) = BI_CLEAN
                 then Some (free_page_lock p (rem_clean (clean_q (p_index s p)) p s))
                 else Some (upd_page p unlock_tp s))"

definition unlink_pvd :: "kernel \<Rightarrow> dev_env \<Rightarrow> nat \<Rightarrow> fm \<Rightarrow> fm option" where
  "unlink_pvd K E d s =
     (let s = upd_pvd d (\<lambda>v. v\<lparr>pvd_during_unlink := 1\<rparr>) s
      in map_option (upd_pvd d (\<lambda>v. v\<lparr>pvd_is_valid := False\<rparr>)) (rdx_drain unlink_page K E d (Suc (pm_total s)) s))"

text \<open>The pages of the file that has lost its last name. The object is freed even if files are open on it.\<close>

definition unlink_pages :: "kernel \<Rightarrow> dev_env \<Rightarrow> ('l, 'b) lower_dir_fs_scheme \<Rightarrow> nat \<Rightarrow> 'l wfs \<Rightarrow> 'l wfs option" where
  "unlink_pages K E L lower_inode s =
     (let ino = lf_i_ino L lower_inode
      in case wx_ino_pvd s ino of
           None \<Rightarrow> Some s
         | Some d \<Rightarrow>
             (let s = s\<lparr>wx_ino_pvd := (wx_ino_pvd s)(ino := None)\<rparr>
              in map_option (\<lambda>x. s\<lparr>wx_fm := x\<rparr>) (unlink_pvd K E d (wx_fm s))))"

definition unlink_inner ::
  "kernel \<Rightarrow> dev_env \<Rightarrow> ('l, 'b) lower_dir_fs_scheme \<Rightarrow> nat \<Rightarrow> nat \<Rightarrow> nat \<Rightarrow> 'l wfs \<Rightarrow> (int \<times> 'l wfs) option" where
  "unlink_inner K E L dir dentry lower_dentry s =
     (let lower_dir_inode = wrapfs_lower_inode s dir;
          (err, s) = run_lower (ld_unlink L lower_dir_inode lower_dentry) s;
          err = (if err = - EBUSY \<and> ld_silly L (wx_low s) lower_dentry then 0 else err)
      in if err \<noteq> 0 then Some (err, s)
         else let s = copy_attr (lf_copy_times L) L (Some dir) lower_dir_inode s;
                  s = copy_attr (lf_copy_size L) L (Some dir) lower_dir_inode s;
                  i = d_inode_of s dentry;
                  nlink = lower_nlink L s (lower_of s i);
                  s = set_nlink i nlink s;
                  s = (case i of None \<Rightarrow> s
                       | Some i \<Rightarrow> upd_inode i (\<lambda>x. x\<lparr>wi_attr := (wi_attr x)\<lparr>ia_ctime := ia_ctime (wi_attr (wx_inode s dir))\<rparr>\<rparr>) s)
              in case lf_d_inode L (wx_low s) lower_dentry of
                   None \<Rightarrow> Some (0, wbug s)
                 | Some j \<Rightarrow>
                     map_option (\<lambda>s. (0, upd_dentry dentry (\<lambda>x. x\<lparr>wd_hashed := False\<rparr>) s))
                       (if S_ISREG (ia_mode (lf_attr L (wx_low s) j)) \<and> nlink = 0 then unlink_pages K E L j s else Some s))"

definition wrapfs_unlink :: "kernel \<Rightarrow> dev_env \<Rightarrow> ('l, 'b) lower_dir_fs_scheme \<Rightarrow> nat \<Rightarrow> nat \<Rightarrow> 'l wfs \<Rightarrow> (int \<times> 'l wfs) option" where
  "wrapfs_unlink K E L dir dentry s =
     (let (p, s) = wrapfs_get_lower_path dentry s
      in case path_dentry p of
           None \<Rightarrow> Some (0, wbug s)
         | Some lower_dentry \<Rightarrow>
             (let s = dref (Some lower_dentry) 1 s;
                  (parent, s) = lock_parent L lower_dentry s
              in map_option (\<lambda>(err, s). (err, wrapfs_put_lower_path p (dref (Some lower_dentry) (- 1) (unlock_dir parent s))))
                   (unlink_inner K E L dir dentry lower_dentry s)))"

section \<open>Attributes\<close>

text \<open>The result of \<^verbatim>\<open>readlink\<close> includes what reaches the caller's buffer.\<close>

definition wrapfs_readlink :: "('l, 'b) lower_dir_fs_scheme \<Rightarrow> nat \<Rightarrow> nat \<Rightarrow> 'l wfs \<Rightarrow> (int \<times> string) \<times> 'l wfs" where
  "wrapfs_readlink L dentry bufsiz s =
     (let (p, s) = wrapfs_get_lower_path dentry s;
          (r, s) = (case path_dentry p of
                      None \<Rightarrow> ((0, []), wbug s)
                    | Some d \<Rightarrow>
                        (case ld_readlink L d of
                           None \<Rightarrow> ((- EINVAL, []), s)
                         | Some h \<Rightarrow>
                             (let ((err, b), low) = h bufsiz (wx_low s);
                                  s = set_low low s
                              in ((err, b), if err < 0 then s
                                   else copy_attr (lf_copy_atime L) L (d_inode_of s dentry) (lf_d_inode L (wx_low s) d) s))))
      in (r, wrapfs_put_lower_path p s))"

text \<open>The string is terminated at the returned length, which may be the size of the buffer.\<close>

definition wrapfs_get_link :: "('l, 'b) lower_dir_fs_scheme \<Rightarrow> nat option \<Rightarrow> bool \<Rightarrow> 'l wfs \<Rightarrow> (int + string) \<times> 'l wfs" where
  "wrapfs_get_link L dentry mem s =
     (case dentry of
        None \<Rightarrow> (Inl (- ECHILD), s)
      | Some d \<Rightarrow>
          if \<not> mem then (Inl (- ENOMEM), s)
          else let ((err, b), s) = wrapfs_readlink L d 4096 s
               in if err < 0 then (Inl err, s) else (Inr (take (nat err) b), if err \<ge> 4096 then wbug s else s))"

definition wrapfs_permission :: "('l, 'b) lower_dir_fs_scheme \<Rightarrow> nat \<Rightarrow> int \<Rightarrow> 'l wfs \<Rightarrow> int" where
  "wrapfs_permission L inode msk s = ld_permission L (wrapfs_lower_inode s inode) msk (wx_low s)"

definition ATTR_MODE :: u32 where "ATTR_MODE = 0x1"
definition ATTR_SIZE :: u32 where "ATTR_SIZE = 0x8"
definition ATTR_FILE :: u32 where "ATTR_FILE = 0x2000"
definition ATTR_KILL :: u32 where "ATTR_KILL = 0x1800"

text \<open>The request for the lower inode, and the operation. The content of the lower file may be cut by \<^verbatim>\<open>notify_change\<close>.\<close>

definition lower_request :: "'l wfs \<Rightarrow> setattr_req \<Rightarrow> setattr_req" where
  "lower_request s ia =
     (let la = (if sr_valid ia AND ATTR_FILE \<noteq> 0 then ia\<lparr>sr_file := Option.bind (sr_file ia) (wrapfs_lower_file s)\<rparr> else ia)
      in if sr_valid la AND ATTR_KILL \<noteq> 0 then la\<lparr>sr_valid := sr_valid la AND NOT ATTR_MODE\<rparr> else la)"

definition wrapfs_setattr :: "('l, 'b) lower_dir_fs_scheme \<Rightarrow> nat \<Rightarrow> setattr_req \<Rightarrow> 'l wfs \<Rightarrow> int \<times> 'l wfs" where
  "wrapfs_setattr L dentry ia s =
     (case d_inode_of s dentry of
        None \<Rightarrow> (0, wbug s)
      | Some i \<Rightarrow>
          (let err = ld_prepare L (wi_attr (wx_inode s i)) ia
           in if err \<noteq> 0 then (err, s)
              else with_lower dentry (\<lambda>p lower_dentry s.
                     let err = (if sr_valid ia AND ATTR_SIZE \<noteq> 0 then ld_newsize_ok L (wi_attr (wx_inode s i)) (sr_size ia) else 0)
                     in if err \<noteq> 0 then (err, s)
                        else let s = (if sr_valid ia AND ATTR_SIZE \<noteq> 0
                                      then upd_inode i (\<lambda>x. x\<lparr>wi_attr := (wi_attr x)\<lparr>ia_size := sr_size ia\<rparr>\<rparr>) s else s);
                                 (err, st) = ld_notify L lower_dentry (lower_request s ia) (store_of s);
                                 s = set_store st s
                             in (err, if err \<noteq> 0 then s else copy_attr (lf_copy_all L) L (Some i) (wrapfs_lower_inode s i) s)) s))"

text \<open>\<^verbatim>\<open>getattr\<close> returns the attributes of the upper inode with the block count of the lower one.\<close>

definition wrapfs_getattr :: "('l, 'b) lower_dir_fs_scheme \<Rightarrow> nat \<Rightarrow> 'l wfs \<Rightarrow> (int \<times> iattr option) \<times> 'l wfs" where
  "wrapfs_getattr L dentry s =
     (let (p, s) = wrapfs_get_lower_path dentry s;
          (err, blocks, low) = ld_getattr L p (wx_low s);
          s = set_low low s;
          (r, s) = (if err \<noteq> 0 then ((err, None), s)
                    else let s = copy_attr (lf_copy_all L) L (d_inode_of s dentry) (Option.bind (path_dentry p) (lf_d_inode L (wx_low s))) s
                         in ((0, map_option (\<lambda>i. (wi_attr (wx_inode s i))\<lparr>ia_blocks := blocks\<rparr>) (d_inode_of s dentry)), s))
      in (r, wrapfs_put_lower_path p s))"

definition wrapfs_setxattr :: "('l, 'b) lower_dir_fs_scheme \<Rightarrow> nat \<Rightarrow> string \<Rightarrow> pdata \<Rightarrow> int \<Rightarrow> 'l wfs \<Rightarrow> int \<times> 'l wfs" where
  "wrapfs_setxattr L dentry name val flags =
     with_lower dentry (\<lambda>p d s.
       if \<not> ld_xattr L (lf_d_inode L (wx_low s) d) then (- EOPNOTSUPP, s)
       else let (err, s) = run_lower (ld_setxattr L d name val flags) s
            in (err, if err \<noteq> 0 then s else copy_attr (lf_copy_all L) L (d_inode_of s dentry) (lf_d_inode L (wx_low s) d) s))"

text \<open>Extended attributes are read with a length or an error; any other value than 0 leaves the access time alone.\<close>

definition read_xattr :: "('l, 'b) lower_dir_fs_scheme \<Rightarrow> nat \<Rightarrow> (nat \<Rightarrow> 'l \<Rightarrow> (int \<times> pdata) \<times> 'l) \<Rightarrow> 'l wfs \<Rightarrow> (int \<times> pdata) \<times> 'l wfs" where
  "read_xattr L dentry h s =
     (let (p, s) = wrapfs_get_lower_path dentry s;
          (r, s) = (case path_dentry p of
                      None \<Rightarrow> ((0, []), wbug s)
                    | Some d \<Rightarrow>
                        if \<not> ld_xattr L (lf_d_inode L (wx_low s) d) then ((- EOPNOTSUPP, []), s)
                        else let (r, low) = h d (wx_low s);
                                 s = set_low low s
                             in (r, if fst r \<noteq> 0 then s else copy_attr (lf_copy_atime L) L (d_inode_of s dentry) (lf_d_inode L (wx_low s) d) s))
      in (r, wrapfs_put_lower_path p s))"

definition wrapfs_getxattr :: "('l, 'b) lower_dir_fs_scheme \<Rightarrow> nat \<Rightarrow> string \<Rightarrow> nat \<Rightarrow> 'l wfs \<Rightarrow> (int \<times> pdata) \<times> 'l wfs" where
  "wrapfs_getxattr L dentry name n = read_xattr L dentry (\<lambda>d. ld_getxattr L d name n)"

definition wrapfs_listxattr :: "('l, 'b) lower_dir_fs_scheme \<Rightarrow> nat \<Rightarrow> nat \<Rightarrow> 'l wfs \<Rightarrow> (int \<times> pdata) \<times> 'l wfs" where
  "wrapfs_listxattr L dentry n = read_xattr L dentry (\<lambda>d. ld_listxattr L d n)"

definition wrapfs_removexattr :: "('l, 'b) lower_dir_fs_scheme \<Rightarrow> nat \<Rightarrow> nat \<Rightarrow> string \<Rightarrow> 'l wfs \<Rightarrow> int \<times> 'l wfs" where
  "wrapfs_removexattr L dentry inode name =
     with_lower dentry (\<lambda>p d s.
       if \<not> ld_xattr L (wrapfs_lower_inode s inode) then (- EOPNOTSUPP, s)
       else let (err, s) = run_lower (ld_removexattr L d name) s
            in (err, if err \<noteq> 0 then s else copy_attr (lf_copy_all L) L (d_inode_of s dentry) (wrapfs_lower_inode s inode) s))"

definition wrapfs_xattr_get :: "('l, 'b) lower_dir_fs_scheme \<Rightarrow> nat \<Rightarrow> string \<Rightarrow> nat \<Rightarrow> 'l wfs \<Rightarrow> (int \<times> pdata) \<times> 'l wfs" where
  "wrapfs_xattr_get L dentry name n = wrapfs_getxattr L dentry name n"

definition wrapfs_xattr_set :: "('l, 'b) lower_dir_fs_scheme \<Rightarrow> nat \<Rightarrow> nat \<Rightarrow> string \<Rightarrow> pdata option \<Rightarrow> int \<Rightarrow> 'l wfs \<Rightarrow> int \<times> 'l wfs" where
  "wrapfs_xattr_set L dentry inode name val flags s =
     (case val of
        Some b \<Rightarrow> wrapfs_setxattr L dentry name b flags s
      | None \<Rightarrow> wrapfs_removexattr L dentry inode name (if flags \<noteq> 2 then wbug s else s))"

section \<open>The super block\<close>

definition wrapfs_put_super :: "'l wfs \<Rightarrow> 'l wfs" where
  "wrapfs_put_super s = s\<lparr>wx_lower_sb := None\<rparr>"

definition WRAPFS_SUPER_MAGIC :: u64 where "WRAPFS_SUPER_MAGIC = 0xb550ca10"

text \<open>The type of the file system is replaced even when the call fails.\<close>

definition wrapfs_statfs :: "('l, 'b) lower_dir_fs_scheme \<Rightarrow> nat \<Rightarrow> 'l wfs \<Rightarrow> (int \<times> u64) \<times> 'l wfs" where
  "wrapfs_statfs L dentry s =
     (let (p, s) = wrapfs_get_lower_path dentry s;
          (err, f_type) = ld_statfs L p (wx_low s)
      in ((err, WRAPFS_SUPER_MAGIC), wrapfs_put_lower_path p s))"

definition MS_ALLOWED :: u32 where "MS_ALLOWED = 0x1 OR 0x40 OR 0x8000"

definition wrapfs_remount_fs :: "u32 \<Rightarrow> int" where
  "wrapfs_remount_fs flags = (if flags AND NOT MS_ALLOWED \<noteq> 0 then - EINVAL else 0)"

definition wrapfs_evict_inode :: "nat \<Rightarrow> 'l wfs \<Rightarrow> 'l wfs" where
  "wrapfs_evict_inode i s =
     (let lower_inode = wrapfs_lower_inode s i;
          s = wrapfs_set_lower_inode i None (s\<lparr>wx_icache := removeAll i (wx_icache s)\<rparr>)
      in iref lower_inode (- 1) s)"

text \<open>
  \<^verbatim>\<open>wrapfs_read_super\<close> of \<^verbatim>\<open>dmapfs_main.c\<close> mounts the file system. \<open>kern\<close> is the result of \<^verbatim>\<open>kern_path\<close> on the device name, \<open>mem\<close> and
  \<open>info\<close> whether the private data of the super block and of the root dentry can be allocated, \<open>root\<close> the root dentry made by
  \<^verbatim>\<open>d_make_root\<close>, which releases the inode itself when it fails. Both late error paths put the inode a second time, and the
  root dentry is released without private data.
\<close>

definition mount_undo :: "path \<Rightarrow> 'l wfs \<Rightarrow> 'l wfs" where
  "mount_undo p s = pref p (- 1) (s\<lparr>wx_lower_sb := None\<rparr>)"

definition mount_root :: "path \<Rightarrow> nat \<Rightarrow> nat \<Rightarrow> bool \<Rightarrow> 'l wfs \<Rightarrow> int \<times> 'l wfs" where
  "mount_root p i r info s =
     (let s = upd_dentry r (\<lambda>x. x\<lparr>wd_info := None, wd_inode := Some i, wd_parent := r, wd_name := ''/''\<rparr>) s;
          (err, s) = new_dentry_private_data r info s
      in if err \<noteq> 0 then (err, mount_undo p (wbug (wrapfs_evict_inode i (wrapfs_d_release r s))))
         else (0, upd_dentry r (\<lambda>x. x\<lparr>wd_hashed := True\<rparr>) (wrapfs_set_lower_path r p s)))"

definition wrapfs_read_super ::
  "('l, 'b) lower_dir_fs_scheme \<Rightarrow> (int + path) option \<Rightarrow> bool \<Rightarrow> nat option \<Rightarrow> nat option \<Rightarrow> bool \<Rightarrow> 'l wfs \<Rightarrow> int \<times> 'l wfs" where
  "wrapfs_read_super L kern mem new root info s =
     (case kern of
        None \<Rightarrow> (- EINVAL, s)
      | Some (Inl err) \<Rightarrow> (err, s)
      | Some (Inr p) \<Rightarrow>
          (let s = pref p 1 s
           in if \<not> mem then (- ENOMEM, pref p (- 1) s)
              else case Option.bind (path_dentry p) (\<lambda>d. map_option (Pair d) (lf_d_inode L (wx_low s) d)) of
                     None \<Rightarrow> (0, wbug s)
                   | Some (d, j) \<Rightarrow>
                       (case wrapfs_iget L new j (s\<lparr>wx_lower_sb := Some (ld_d_sb L d)\<rparr>) of
                          (Inl err, s) \<Rightarrow> (err, mount_undo p s)
                        | (Inr i, s) \<Rightarrow>
                            (case root of
                               None \<Rightarrow> (- ENOMEM, mount_undo p (wbug (wrapfs_evict_inode i s)))
                             | Some r \<Rightarrow> mount_root p i r info s))))"

text \<open>\<open>found\<close> is the result of \<^verbatim>\<open>ilookup\<close>; \<^verbatim>\<open>wrapfs_iget\<close> follows it even when it is null.\<close>

definition wrapfs_nfs_get_inode :: "('l, 'b) lower_dir_fs_scheme \<Rightarrow> nat option \<Rightarrow> nat option \<Rightarrow> 'l wfs \<Rightarrow> (int + nat) \<times> 'l wfs" where
  "wrapfs_nfs_get_inode L found new s =
     (case found of None \<Rightarrow> (Inl (- ESTALE), wbug s) | Some j \<Rightarrow> wrapfs_iget L new j s)"

end
