(* ===== verification/Wrapfs_Names.thy ===== *)
theory Wrapfs_Names
  imports Wrapfs_Inode
begin

text \<open>
  What the operations on names and inodes keep: every reference on a lower dentry, mount or inode belongs to an upper
  dentry or inode, and no two upper inodes share a lower one. Then what creating a name, and removing the last name of a
  mapped file, do.
\<close>

section \<open>What the operations leave alone\<close>

text \<open>Every cached inode has a lower inode of its own, and holds the only reference on it.\<close>

definition inode_ok :: "'l wfs \<Rightarrow> bool" where
  "inode_ok s \<longleftrightarrow> distinct (wx_icache s) \<and> (\<forall>i\<in>set (wx_icache s). wrapfs_lower_inode s i \<noteq> None) \<and>
     (\<forall>i\<in>set (wx_icache s). \<forall>i'\<in>set (wx_icache s). wrapfs_lower_inode s i = wrapfs_lower_inode s i' \<longrightarrow> i = i') \<and>
     (\<forall>j. wx_iref s j = (if \<exists>i\<in>set (wx_icache s). wrapfs_lower_inode s i = Some j then 1 else 0))"

definition fresh_inode :: "nat option \<Rightarrow> 'l wfs \<Rightarrow> bool" where
  "fresh_inode new s \<longleftrightarrow> (\<forall>i. new = Some i \<longrightarrow> i \<notin> set (wx_icache s))"

text \<open>\<open>same_names\<close>: nothing that counts; \<open>names_kept\<close>: at most the inode \<open>new\<close> has been added.\<close>

definition same_names :: "'l wfs \<Rightarrow> 'l wfs \<Rightarrow> bool" where
  "same_names s s' \<longleftrightarrow> (\<forall>d. wd_info (wx_dentry s' d) = wd_info (wx_dentry s d)) \<and> wx_dref s' = wx_dref s \<and> wx_mref s' = wx_mref s \<and>
     wx_icache s' = wx_icache s \<and> wx_iref s' = wx_iref s \<and> (\<forall>i. wrapfs_lower_inode s' i = wrapfs_lower_inode s i)"

definition names_kept :: "nat option \<Rightarrow> 'l wfs \<Rightarrow> 'l wfs \<Rightarrow> bool" where
  "names_kept new s s' \<longleftrightarrow> (\<forall>d. wd_info (wx_dentry s' d) = wd_info (wx_dentry s d)) \<and> wx_dref s' = wx_dref s \<and> wx_mref s' = wx_mref s \<and>
     (inode_ok s \<longrightarrow> fresh_inode new s \<longrightarrow> inode_ok s')"

lemma same_names_refl [simp]: "same_names s s"
  by (simp add: same_names_def)

lemma same_names_trans: "same_names s s1 \<Longrightarrow> same_names s1 s2 \<Longrightarrow> same_names s s2"
  by (simp add: same_names_def)

lemma same_names_inode_ok: "same_names s s' \<Longrightarrow> inode_ok s' = inode_ok s"
  by (simp add: same_names_def inode_ok_def)

lemma same_names_kept: "same_names s s' \<Longrightarrow> names_kept new s s'"
  by (simp add: names_kept_def same_names_inode_ok) (simp add: same_names_def)

lemma kept_pre: "same_names s s1 \<Longrightarrow> names_kept new s1 s2 \<Longrightarrow> names_kept new s s2"
  using same_names_inode_ok [of s s1] by (simp add: names_kept_def same_names_def fresh_inode_def)

lemma kept_post: "names_kept new s s1 \<Longrightarrow> same_names s1 s2 \<Longrightarrow> names_kept new s s2"
  using same_names_inode_ok [of s1 s2] by (simp add: names_kept_def same_names_def)

named_theorems same_names

lemma same_names_upd [same_names]:
  "same_names s (upd_wfm u s)" "same_names s (upd_wfile k h s)" "same_names s (wbug s)" "same_names s (set_low l s)" "same_names s (need_info d s)"
  by (simp_all add: same_names_def wrapfs_lower_inode_def)

lemma same_names_attr [same_names]: "same_names s (upd_inode i (\<lambda>x. x\<lparr>wi_attr := g x\<rparr>) s)"
  by (simp add: same_names_def wrapfs_lower_inode_def)

lemma same_names_dentry [same_names]:
  "same_names s (upd_dentry d (\<lambda>x. x\<lparr>wd_inode := i\<rparr>) s)" "same_names s (upd_dentry d (\<lambda>x. x\<lparr>wd_hashed := b\<rparr>) s)"
  by (simp_all add: same_names_def wrapfs_lower_inode_def)

lemma same_names_copy [same_names]: "same_names s (copy_attr h L i j s)"
  by (auto simp: copy_attr_def same_names split: option.splits)

lemma same_names_nlink [same_names]: "same_names s (set_nlink i n s)"
  by (auto simp: set_nlink_def same_names split: option.splits)

lemma same_names_store [same_names]: "same_names s (set_store st s)"
proof -
  obtain d z l where st: "st = ((d, z), l)" by (metis surj_pair)
  show ?thesis unfolding set_store_def st by (simp, rule same_names_trans [OF same_names_upd(1) same_names_upd(4)])
qed

lemma same_names_run [same_names]: "run_lower h s = (err, s') \<Longrightarrow> same_names s s'"
  by (auto simp: run_lower_def same_names split: prod.splits)

lemma lower_inode_refs [simp]:
  "wrapfs_lower_inode (dref d n s) = wrapfs_lower_inode s" "wrapfs_lower_inode (pref p n s) = wrapfs_lower_inode s"
  "wrapfs_lower_inode (iref j n s) = wrapfs_lower_inode s"
  by (simp_all add: fun_eq_iff wrapfs_lower_inode_def)

section \<open>Getting an inode\<close>

lemma iget_init_simps:
  "wx_icache (iget_init L i j s) = i # wx_icache s" "wx_dentry (iget_init L i j s) = wx_dentry s" "wx_dref (iget_init L i j s) = wx_dref s"
  "wx_mref (iget_init L i j s) = wx_mref s" "wx_iref (iget_init L i j s) = wx_iref s"
  "wrapfs_lower_inode (iget_init L i j s) = (wrapfs_lower_inode s)(i := Some j)"
  by (auto simp: iget_init_def Let_def wrapfs_set_lower_inode_def copy_attr_def wrapfs_lower_inode_def fun_eq_iff)

lemma find_inode:
  assumes "find (\<lambda>i. wrapfs_inode_test s i j) (wx_icache s) = r"
  shows "case r of None \<Rightarrow> \<forall>i\<in>set (wx_icache s). wrapfs_lower_inode s i \<noteq> Some j
    | Some i \<Rightarrow> i \<in> set (wx_icache s) \<and> wrapfs_lower_inode s i = Some j"
  using assms by (auto simp: wrapfs_inode_test_def find_None_iff find_Some_iff split: option.splits)

lemma wrapfs_iget_kept:
  assumes "wrapfs_iget L new j s = (r, s')"
  shows "names_kept new s s'"
proof -
  have undo: "same_names s (iref (Some j) (- 1) (iref (Some j) 1 s))" by (simp add: same_names_def wrapfs_lower_inode_def)
  consider "s' = s" | "s' = iref (Some j) (- 1) (iref (Some j) 1 s)"
    | i where "new = Some i" "s' = iget_init L i j (iref (Some j) 1 s)" "find (\<lambda>i. wrapfs_inode_test (iref (Some j) 1 s) i j) (wx_icache s) = None"
    using assms by (auto simp: wrapfs_iget_def Let_def split: if_splits option.splits)
  then show ?thesis
  proof cases
    case 3
    have no: "\<forall>k\<in>set (wx_icache s). wrapfs_lower_inode s k \<noteq> Some j"
      using find_inode [of "iref (Some j) 1 s" j None] 3(3) by simp
    have "inode_ok s'" if ok: "inode_ok s" and fr: "fresh_inode new s"
    proof -
      have i: "i \<notin> set (wx_icache s)" using fr 3(1) by (simp add: fresh_inode_def)
      have ref: "wx_iref s k = (if \<exists>i\<in>set (wx_icache s). wrapfs_lower_inode s i = Some k then 1 else 0)" for k using ok by (simp add: inode_ok_def)
      have old: "wrapfs_lower_inode s' k = wrapfs_lower_inode s k" if "k \<in> set (wx_icache s)" for k
        using that i by (auto simp: 3(2) iget_init_simps)
      have me: "wrapfs_lower_inode s' i = Some j" "wx_icache s' = i # wx_icache s" "wx_iref s' = (wx_iref s)(j := wx_iref s j + 1)"
        by (simp_all add: 3(2) iget_init_simps)
      have "wx_iref s' k = (if \<exists>a\<in>set (wx_icache s'). wrapfs_lower_inode s' a = Some k then 1 else 0)" for k
        using no ref [of k] old by (auto simp: me)
      moreover have "a = b" if "a \<in> set (wx_icache s')" "b \<in> set (wx_icache s')" "wrapfs_lower_inode s' a = wrapfs_lower_inode s' b" for a b
        using that ok no old me(1) by (auto simp: me(2) inode_ok_def)
      moreover have "wrapfs_lower_inode s' a \<noteq> None" if "a \<in> set (wx_icache s')" for a using that ok old by (auto simp: me inode_ok_def)
      ultimately show ?thesis using ok i unfolding inode_ok_def by (simp add: me(2))
    qed
    then show ?thesis by (simp add: names_kept_def 3(2) iget_init_simps)
  qed (auto intro: same_names_kept undo)
qed

lemma interpose_kept:
  assumes "interpose L d p new s = (r, s')"
  shows "names_kept new s s'"
proof -
  note ig = wrapfs_iget_kept and post = kept_post [OF wrapfs_iget_kept same_names_dentry(1)]
  show ?thesis using assms
    by (auto simp: interpose_def intro: same_names_kept same_names ig post split: option.splits if_splits prod.splits sum.splits)
qed

lemma wrapfs_interpose_kept:
  assumes "wrapfs_interpose L d p new s = (r, s')"
  shows "names_kept new s s'"
  using assms interpose_kept [of L d p new s] by (auto simp: wrapfs_interpose_def split: prod.splits sum.splits option.splits)

section \<open>The frame of an operation\<close>

lemma with_lower_kept:
  assumes "\<And>p e x. names_kept new x (snd (body p e x))"
  shows "names_kept new s (snd (with_lower d body s))"
proof -
  let ?p = "lower_path_of s d"
  obtain s1 where s1: "s1 = pref ?p 1 (need_info d s)" by simp
  obtain r s2 where s2: "(case path_dentry ?p of None \<Rightarrow> (0, wbug s1) | Some e \<Rightarrow> body ?p e s1) = (r, s2)" by fastforce
  have "names_kept new s1 s2"
  proof (cases "path_dentry ?p")
    case None
    with s2 have "s2 = wbug s1" by auto
    then show ?thesis using same_names_kept [OF same_names_upd(3)] by blast
  next
    case (Some e)
    with s2 show ?thesis using assms [of s1 ?p e] by simp
  qed
  moreover have "snd (with_lower d body s) = pref ?p (- 1) s2"
    using s2 by (simp add: Let_def with_lower_def wrapfs_get_lower_path_def wrapfs_put_lower_path_def flip: s1)
  moreover have "inode_ok s1 = inode_ok s" "inode_ok (pref ?p (- 1) s2) = inode_ok s2" "fresh_inode new s1 = fresh_inode new s"
    using same_names_inode_ok [OF same_names_upd(5) [of s d]] by (simp_all add: inode_ok_def s1 fresh_inode_def)
  ultimately show ?thesis by (simp add: names_kept_def) (simp add: s1)
qed

lemma in_parent_kept:
  assumes "\<And>e x. names_kept new x (snd (body e x))"
  shows "names_kept new s (snd (in_parent L d body s))"
proof -
  let ?e = "lf_parent L (wx_low s) d"
  obtain r s2 where s2: "body ?e (dref (Some ?e) 1 s) = (r, s2)" by fastforce
  have "names_kept new (dref (Some ?e) 1 s) s2" using assms [of "dref (Some ?e) 1 s" ?e] s2 by simp
  moreover have "snd (in_parent L d body s) = dref (Some ?e) (- 1) s2" using s2 by (simp add: Let_def in_parent_def lock_parent_def unlock_dir_def)
  moreover have "inode_ok (dref a n x) = inode_ok x" "fresh_inode new (dref a n x) = fresh_inode new x" for a n and x :: "'a wfs"
    by (simp_all add: inode_ok_def fresh_inode_def)
  ultimately show ?thesis by (simp add: names_kept_def)
qed

section \<open>Every operation gives its references back\<close>

text \<open>Rules for the bodies of the operations: sequences of changes that do not count, branches, and the calls of the lower file system.\<close>

lemma sn_chain:
  "same_names s x \<Longrightarrow> same_names s (copy_attr h L i j x)" "same_names s x \<Longrightarrow> same_names s (set_nlink k n x)" "same_names s x \<Longrightarrow> same_names s (wbug x)"
  "same_names s x \<Longrightarrow> same_names s (upd_inode a (\<lambda>x. x\<lparr>wi_attr := g x\<rparr>) x)" "same_names s x \<Longrightarrow> same_names s (upd_dentry d (\<lambda>x. x\<lparr>wd_hashed := b\<rparr>) x)"
  "same_names s x \<Longrightarrow> same_names s (set_store st x)" "same_names s x \<Longrightarrow> same_names s (set_low l x)"
  by (blast intro: same_names_trans same_names)+

lemma sn_if: "same_names s x \<Longrightarrow> same_names s y \<Longrightarrow> same_names s (if c then x else y)"
  by simp

lemma sn_opt: "same_names s x \<Longrightarrow> (\<And>a. same_names s (g a)) \<Longrightarrow> same_names s (case z of None \<Rightarrow> x | Some a \<Rightarrow> g a)"
  by (cases z) simp_all

lemma kept_leaf: "same_names s x \<Longrightarrow> names_kept new s (snd (r, x))"
  by (simp add: same_names_kept)

lemma kept_if: "names_kept new s (snd x) \<Longrightarrow> names_kept new s (snd y) \<Longrightarrow> names_kept new s (snd (if c then x else y))"
  by simp

lemma kept_opt: "names_kept new s (snd x) \<Longrightarrow> (\<And>a. names_kept new s (snd (g a))) \<Longrightarrow> names_kept new s (snd (case z of None \<Rightarrow> x | Some a \<Rightarrow> g a))"
  by (cases z) simp_all

lemma kept_run:
  assumes "\<And>err x. names_kept new x (snd (g err x))"
  shows "names_kept new s (snd (case run_lower h s of (err, x) \<Rightarrow> g err x))"
proof -
  obtain err x where r: "run_lower h s = (err, x)" by fastforce
  show ?thesis using kept_pre [OF same_names_run [OF r] assms [of x err]] by (simp add: r)
qed

lemma kept_interpose:
  assumes "\<And>err x. same_names x (snd (g err x))"
  shows "names_kept new s (snd (case wrapfs_interpose L d p new s of (err, x) \<Rightarrow> g err x))"
proof -
  obtain err x where r: "wrapfs_interpose L d p new s = (err, x)" by fastforce
  show ?thesis using kept_post [OF wrapfs_interpose_kept [OF r] assms [of x err]] by (simp add: r)
qed

lemma sn_leaf: "same_names s x \<Longrightarrow> same_names s (snd (r, x))"
  by simp

lemma sn_snd_if: "same_names s (snd x) \<Longrightarrow> same_names s (snd y) \<Longrightarrow> same_names s (snd (if c then x else y))"
  by simp

lemmas kept_rules = kept_leaf kept_if kept_opt kept_run kept_interpose with_lower_kept in_parent_kept sn_leaf sn_snd_if sn_chain sn_if sn_opt same_names_refl

lemma made_name_kept: "names_kept new s (snd (made_name L dir d p new parent (run_lower h s)))"
proof -
  obtain err x where r: "run_lower h s = (err, x)" by fastforce
  have "names_kept new x (snd (made_name L dir d p new parent (err, x)))"
    unfolding made_name_def prod.case Let_def by (intro kept_rules)
  then show ?thesis using kept_pre [OF same_names_run [OF r]] by (simp add: r)
qed

lemma create_kept: "names_kept new s (snd (wrapfs_create L dir d m e new s))"
  unfolding wrapfs_create_def by (intro kept_rules made_name_kept)

lemma symlink_kept: "names_kept new s (snd (wrapfs_symlink L dir d n new s))"
  unfolding wrapfs_symlink_def by (intro kept_rules made_name_kept)

lemma mknod_kept: "names_kept new s (snd (wrapfs_mknod L dir d m dev new s))"
  unfolding wrapfs_mknod_def by (intro kept_rules made_name_kept)

lemma mkdir_kept: "names_kept new s (snd (wrapfs_mkdir L dir d m new s))"
proof -
  have "names_kept new x (snd (let (err, s) = made_name L dir d p new parent (run_lower h x)
      in (err, if err \<noteq> 0 then s else set_nlink (Some dir) (lower_nlink L s (wrapfs_lower_inode s dir)) s)))" for p parent h x
  proof -
    obtain err y where r: "made_name L dir d p new parent (run_lower h x) = (err, y)" by fastforce
    have "names_kept new x y" using made_name_kept [of new x L dir d p parent h] by (simp add: r)
    from this kept_post [OF this same_names_nlink] show ?thesis by (simp add: r)
  qed
  then show ?thesis unfolding wrapfs_mkdir_def by (intro kept_rules)
qed

lemma link_kept: "names_kept new s (snd (wrapfs_link L od dir nd new s))"
  unfolding wrapfs_link_def Let_def by (intro kept_rules)

lemma rmdir_kept: "names_kept new s (snd (wrapfs_rmdir L dir d s))"
  unfolding wrapfs_rmdir_def Let_def by (intro kept_rules)

lemma rename_kept: "names_kept new s (snd (wrapfs_rename L dir d dir' d' fl s))"
  unfolding wrapfs_rename_def Let_def by (intro kept_rules)

lemma setxattr_kept: "names_kept new s (snd (wrapfs_setxattr L d n v fl s))"
  unfolding wrapfs_setxattr_def Let_def by (intro kept_rules)

lemma removexattr_kept: "names_kept new s (snd (wrapfs_removexattr L d i n s))"
  unfolding wrapfs_removexattr_def Let_def by (intro kept_rules)

lemma setattr_kept: "names_kept new s (snd (wrapfs_setattr L d ia s))"
proof -
  have nf: "names_kept new x (snd (case ld_notify L e q st of (err, st) \<Rightarrow> (err, if err \<noteq> 0 then set_store st x
      else copy_attr (lf_copy_all L) L (Some i) (wrapfs_lower_inode (set_store st x) i) (set_store st x))))" for e q st x i
  proof -
    obtain err t where "ld_notify L e q st = (err, t)" by (metis surj_pair)
    then show ?thesis by (simp add: same_names_kept sn_chain)
  qed
  have "names_kept new x (snd (let s = (if c then upd_inode i (\<lambda>y. y\<lparr>wi_attr := g y\<rparr>) x else x); (err, st) = ld_notify L e (lower_request s ia) (store_of s); s = set_store st s
      in (err, if err \<noteq> 0 then s else copy_attr (lf_copy_all L) L (Some i) (wrapfs_lower_inode s i) s)))" for c i g e x
    unfolding Let_def by (cases c) (simp_all only: if_True if_False, rule kept_pre [OF same_names_attr nf], rule nf)
  note core = this [unfolded Let_def]
  show ?thesis unfolding wrapfs_setattr_def Let_def by (intro kept_opt kept_if kept_leaf with_lower_kept core sn_chain same_names_refl)
qed

text \<open>Operations that only read, outside the two frames.\<close>

lemma with_path_kept:
  assumes "same_names (pref p 1 (need_info d s)) x" and "p = lower_path_of s d"
  shows "names_kept new s (pref p (- 1) x)"
proof -
  have "names_kept new s (snd (with_lower d (\<lambda>q e y. (0, if y = pref p 1 (need_info d s) then x else y)) s))"
    by (rule with_lower_kept) (use assms(1) in \<open>auto intro: same_names_kept\<close>)
  moreover have "same_names (pref p (- 1) (wbug (pref p 1 (need_info d s)))) (pref p (- 1) x)"
    using assms(1) by (simp add: same_names_def wrapfs_lower_inode_def)
  ultimately show ?thesis using kept_post
    by (cases "path_dentry p") (auto simp: with_lower_def wrapfs_get_lower_path_def wrapfs_put_lower_path_def Let_def assms(2))
qed

lemma readlink_kept: "names_kept new s (snd (wrapfs_readlink L d n s))"
proof -
  obtain r x where rx: "(case path_dentry (lower_path_of s d) of
      None \<Rightarrow> ((0, []), wbug (pref (lower_path_of s d) 1 (need_info d s)))
    | Some e \<Rightarrow> (case ld_readlink L e of None \<Rightarrow> ((- EINVAL, []), pref (lower_path_of s d) 1 (need_info d s))
        | Some h \<Rightarrow> (let ((err, b), low) = h n (wx_low (pref (lower_path_of s d) 1 (need_info d s))); y = set_low low (pref (lower_path_of s d) 1 (need_info d s))
            in ((err, b), if err < 0 then y else copy_attr (lf_copy_atime L) L (d_inode_of y d) (lf_d_inode L (wx_low y) e) y)))) = (r, x)" by fastforce
  have "same_names (pref (lower_path_of s d) 1 (need_info d s)) x"
    using rx by (auto simp: Let_def intro: sn_chain same_names_refl split: option.splits prod.splits if_splits)
  then show ?thesis using with_path_kept [OF _ refl] rx by (simp add: wrapfs_readlink_def wrapfs_get_lower_path_def wrapfs_put_lower_path_def Let_def)
qed

lemma getattr_kept: "names_kept new s (snd (wrapfs_getattr L d s))"
proof -
  let ?y = "pref (lower_path_of s d) 1 (need_info d s)"
  obtain err b low where g: "ld_getattr L (lower_path_of s d) (wx_low ?y) = (err, b, low)" by (metis surj_pair)
  then show ?thesis using g
    by (auto simp: wrapfs_getattr_def wrapfs_get_lower_path_def wrapfs_put_lower_path_def Let_def intro!: with_path_kept sn_chain)
qed

lemma read_xattr_kept: "names_kept new s (snd (read_xattr L d h s))"
proof -
  let ?y = "pref (lower_path_of s d) 1 (need_info d s)"
  have "same_names ?y (snd (case path_dentry (lower_path_of s d) of
      None \<Rightarrow> ((0, []), wbug ?y)
    | Some e \<Rightarrow> if \<not> ld_xattr L (lf_d_inode L (wx_low ?y) e) then ((- EOPNOTSUPP, []), ?y)
        else let (r, low) = h e (wx_low ?y); z = set_low low ?y
             in (r, if fst r \<noteq> 0 then z else copy_attr (lf_copy_atime L) L (d_inode_of z d) (lf_d_inode L (wx_low z) e) z)))"
    by (auto simp: Let_def intro: sn_chain same_names_refl split: option.splits prod.splits)
  from with_path_kept [OF this refl] show ?thesis
    by (simp add: read_xattr_def wrapfs_get_lower_path_def wrapfs_put_lower_path_def Let_def split_beta)
qed

lemma revalidate_kept: "path_dentry (lower_path_of s d) \<noteq> None \<Longrightarrow> names_kept new s (snd (wrapfs_d_revalidate L d fl s))"
  using with_path_kept [OF same_names_refl refl]
  by (auto simp: wrapfs_d_revalidate_def wrapfs_get_lower_path_def wrapfs_put_lower_path_def Let_def intro: same_names_kept)

lemma statfs_kept: "names_kept new s (snd (wrapfs_statfs L d s))"
  using with_path_kept [OF same_names_refl refl]
  by (auto simp: wrapfs_statfs_def wrapfs_get_lower_path_def wrapfs_put_lower_path_def Let_def split: prod.splits)

section \<open>Removing, looking up and forgetting names\<close>

lemma kept_map: "names_kept new s (snd x) \<Longrightarrow> names_kept new s (snd (case x of (err, y) \<Rightarrow> (g err, y)))"
  by (cases x) simp

lemma same_names_pages:
  assumes "unlink_pages K E L j s = Some s'"
  shows "same_names s s'"
  using assms by (auto simp: unlink_pages_def Let_def same_names_def wrapfs_lower_inode_def split: option.splits)

lemma unlink_inner_kept:
  assumes "unlink_inner K E L dir d e s = Some (err, s')"
  shows "same_names s s'"
proof -
  let ?h = "ld_unlink L (wrapfs_lower_inode s dir) e"
  obtain a s1 where s1: "run_lower ?h s = (a, s1)" by fastforce
  define s2 where "s2 = copy_attr (lf_copy_size L) L (Some dir) (wrapfs_lower_inode s dir) (copy_attr (lf_copy_times L) L (Some dir) (wrapfs_lower_inode s dir) s1)"
  define s3 where "s3 = set_nlink (d_inode_of s2 d) (lower_nlink L s2 (lower_of s2 (d_inode_of s2 d))) s2"
  define s4 where "s4 = (case d_inode_of s2 d of None \<Rightarrow> s3
    | Some i \<Rightarrow> upd_inode i (\<lambda>x. x\<lparr>wi_attr := (wi_attr x)\<lparr>ia_ctime := ia_ctime (wi_attr (wx_inode s3 dir))\<rparr>\<rparr>) s3)"
  have n1: "same_names s s1" by (rule same_names_run [OF s1])
  have n4: "same_names s s4" unfolding s4_def s3_def s2_def by (intro sn_opt sn_chain n1)
  have unh: "same_names s (upd_dentry d (\<lambda>x. x\<lparr>wd_hashed := False\<rparr>) x)" if "same_names s4 x" for x
    by (intro sn_chain same_names_trans [OF n4 that])
  have eq: "unlink_inner K E L dir d e s =
      (if (if a = - EBUSY \<and> ld_silly L (wx_low s1) e then 0 else a) \<noteq> 0 then Some ((if a = - EBUSY \<and> ld_silly L (wx_low s1) e then 0 else a), s1)
       else case lf_d_inode L (wx_low s4) e of None \<Rightarrow> Some (0, wbug s4)
         | Some j \<Rightarrow> map_option (\<lambda>s. (0, upd_dentry d (\<lambda>x. x\<lparr>wd_hashed := False\<rparr>) s))
             (if S_ISREG (ia_mode (lf_attr L (wx_low s4) j)) \<and> lower_nlink L s2 (lower_of s2 (d_inode_of s2 d)) = 0 then unlink_pages K E L j s4 else Some s4))"
    unfolding unlink_inner_def s1 Let_def prod.case s4_def s3_def s2_def by (rule refl)
  show ?thesis
  proof (cases "lf_d_inode L (wx_low s4) e")
    case None
    then show ?thesis using assms n1 unfolding eq by (auto intro: sn_chain n4 split: if_splits)
  next
    case (Some j)
    then show ?thesis using assms n1 same_names_pages [of K E L j s4] unfolding eq by (auto intro: unh split: if_splits)
  qed
qed

lemma unlink_kept:
  assumes u: "wrapfs_unlink K E L dir d s = Some (err, s')" and p: "path_dentry (lower_path_of s d) \<noteq> None"
  shows "names_kept new s s'"
proof -
  obtain e where e: "path_dentry (lower_path_of s d) = Some e" using p by blast
  let ?p = "lower_path_of s d" and ?q = "lf_parent L (wx_low s) e"
  let ?s = "dref (Some ?q) 1 (dref (Some e) 1 (pref ?p 1 (need_info d s)))"
  obtain x where x: "unlink_inner K E L dir d e ?s = Some (err, x)" "s' = pref ?p (- 1) (dref (Some e) (- 1) (dref (Some ?q) (- 1) x))"
    using u e by (auto simp: wrapfs_unlink_def wrapfs_get_lower_path_def wrapfs_put_lower_path_def lock_parent_def unlock_dir_def Let_def)
  have "same_names s s'" using unlink_inner_kept [OF x(1)] same_names_upd(5) [of s d] e
    by (simp add: x(2) same_names_def del: add_ref_Some)
  then show ?thesis by (rule same_names_kept)
qed

lemma open_kept: "names_kept new s (snd (wrapfs_open L i f mem fi v s))"
proof -
  have pvd: "same_names x (open_pvd L f k l v x)" for l k x
    by (auto simp: open_pvd_def set_fmap_pvd_def Let_def same_names_def wrapfs_lower_inode_def split: sum.splits option.splits)
  have fin: "same_names x (snd (open_finish L i f k v (l, x)))" for l k x
    using pvd [of x] by (auto simp: open_finish_def Let_def set_private_def wrapfs_set_lower_file_def same_names_def wrapfs_lower_inode_def
        copy_attr_def split: sum.splits option.splits)
  have low: "same_names x (snd (open_lower L f x))" for x
    by (auto simp: open_lower_def wrapfs_get_lower_path_def wrapfs_put_lower_path_def Let_def same_names_def wrapfs_lower_inode_def
        split: sum.splits prod.splits)
  have "same_names s (snd (wrapfs_open L i f mem fi v s))"
  proof (cases fi)
    case (Some k)
    let ?s = "open_memory f k s"
    have m: "same_names s ?s" by (simp add: open_memory_def set_private_def same_names_def wrapfs_lower_inode_def)
    obtain l x where "open_lower L f ?s = (l, x)" by fastforce
    with m low [of ?s] fin [of x k l] show ?thesis
      by (auto simp: wrapfs_open_def Some set_private_def same_names_def wrapfs_lower_inode_def)
  qed (simp add: wrapfs_open_def set_private_def same_names_def wrapfs_lower_inode_def)
  then show ?thesis by (rule same_names_kept)
qed

text \<open>The dentry \<open>d\<close> gets the lower path \<open>q\<close>, with a reference.\<close>

definition path_added :: "nat option \<Rightarrow> nat \<Rightarrow> path \<Rightarrow> 'l wfs \<Rightarrow> 'l wfs \<Rightarrow> bool" where
  "path_added new d q s s' \<longleftrightarrow> (\<forall>e. wd_info (wx_dentry s' e) = (if e = d then Some q else wd_info (wx_dentry s e))) \<and>
     wx_dref s' = add_ref (path_dentry q) 1 (wx_dref s) \<and> wx_mref s' = add_ref (path_mnt q) 1 (wx_mref s) \<and>
     (inode_ok s \<longrightarrow> fresh_inode new s \<longrightarrow> inode_ok s')"

lemma path_added_kept: "path_added new d q s s1 \<Longrightarrow> names_kept None s1 s2 \<Longrightarrow> path_added new d q s s2"
  by (simp add: path_added_def names_kept_def fresh_inode_def)

lemma inode_ok_refs [simp]:
  "inode_ok (pref p n s) = inode_ok s" "inode_ok (dref e n s) = inode_ok s" "inode_ok (need_info d s) = inode_ok s" "inode_ok (set_low l s) = inode_ok s"
  "inode_ok (upd_dentry d g s) = inode_ok s" "inode_ok (wbug s) = inode_ok s"
  by (simp_all add: inode_ok_def wrapfs_lower_inode_def)

lemma fresh_refs [simp]:
  "fresh_inode new (pref p n s) = fresh_inode new s" "fresh_inode new (dref e n s) = fresh_inode new s"
  "fresh_inode new (need_info d s) = fresh_inode new s" "fresh_inode new (upd_dentry d g s) = fresh_inode new s"
  by (simp_all add: fresh_inode_def)

lemma lookup_inner_added:
  assumes d: "wd_info (wx_dentry s d) = Some null_path" and l: "lookup_inner L d p new s = (r, s')"
  shows "\<exists>q. path_added new d q s s'"
proof -
  have same: "path_added new d null_path s s" by (simp add: path_added_def d null_path_def)
  have add: "path_added new d q s (wrapfs_set_lower_path d q (pref q 1 (set_low low s)))" for q low
    by (simp add: path_added_def d wrapfs_set_lower_path_def)
  have add0: "path_added new d q s (wrapfs_set_lower_path d q (pref q 1 s))" for q
    by (simp add: path_added_def d wrapfs_set_lower_path_def)
  let ?s = "\<lambda>q. wrapfs_set_lower_path d q (pref q 1 s)"
  have ip: "path_added new d q s x \<and> path_added new d null_path s (wrapfs_put_reset_lower_path d x)" if "interpose L d q new (?s q) = (a, x)" for q a x
  proof -
    have k: "names_kept new (?s q) x" by (rule interpose_kept [OF that])
    have x: "wd_info (wx_dentry x e) = (if e = d then Some q else wd_info (wx_dentry s e))" for e
      using k add0 [of q] by (simp add: names_kept_def path_added_def)
    have "fresh_inode new (?s q) = fresh_inode new s" "inode_ok (?s q) = inode_ok s" by (simp_all add: wrapfs_set_lower_path_def)
    then show ?thesis using k x d
      by (simp add: names_kept_def path_added_def wrapfs_put_reset_lower_path_def lower_path_of_def Let_def wrapfs_set_lower_path_def null_path_def)
  qed
  show ?thesis
    using l same add add0
    by (auto simp: lookup_inner_def lookup_negative_def Let_def dest: ip split: if_splits sum.splits option.splits prod.splits)
qed

lemma add_ref_comm: "add_ref a m (add_ref b n r) = add_ref b n (add_ref a m r)"
  by (auto simp: add_ref_def split: option.splits)

lemma lookup_added:
  assumes d: "wd_info (wx_dentry s d) = None" and l: "wrapfs_lookup L d mem new s = (r, s')"
  shows "names_kept new s s' \<or> (\<exists>q. path_added new d q s s')"
proof (cases mem)
  case False
  let ?p = "lower_path_of s (wd_parent (wx_dentry s d))"
  have "s' = pref ?p (- 1) (pref ?p 1 (need_info (wd_parent (wx_dentry s d)) s))"
    using l False by (simp add: wrapfs_lookup_def wrapfs_get_lower_path_def wrapfs_put_lower_path_def new_dentry_private_data_def Let_def)
  then show ?thesis by (simp add: names_kept_def)
next
  case True
  let ?p = "lower_path_of s (wd_parent (wx_dentry s d))"
  let ?s = "upd_dentry d (\<lambda>x. x\<lparr>wd_info := Some null_path\<rparr>) (pref ?p 1 (need_info (wd_parent (wx_dentry s d)) s))"
  obtain a x where ax: "lookup_inner L d ?p new ?s = (a, x)" by fastforce
  obtain q where q: "path_added new d q ?s x" using lookup_inner_added [OF _ ax] by auto
  obtain y where y: "same_names x y" "s' = pref ?p (- 1) y"
  proof (cases a)
    case (Inl e)
    show ?thesis by (rule that [of x])
        (use l True ax Inl in \<open>auto simp: wrapfs_lookup_def wrapfs_get_lower_path_def wrapfs_put_lower_path_def new_dentry_private_data_def Let_def\<close>)
  next
    case (Inr b)
    let ?e = "case b of None \<Rightarrow> d | Some d \<Rightarrow> d"
    let ?z = "case wd_inode (wx_dentry x ?e) of None \<Rightarrow> x | Some i \<Rightarrow> copy_attr (lf_copy_times L) L (Some i) (wrapfs_lower_inode x i) x"
    show ?thesis
    proof (rule that)
      show "same_names x (case wd_inode (wx_dentry ?z (wd_parent (wx_dentry s d))) of None \<Rightarrow> wbug ?z
          | Some i \<Rightarrow> copy_attr (lf_copy_atime L) L (Some i) (wrapfs_lower_inode ?z i) ?z)"
        by (intro sn_opt sn_chain same_names_refl)
    qed (use l True ax Inr in \<open>simp add: wrapfs_lookup_def wrapfs_get_lower_path_def wrapfs_put_lower_path_def new_dentry_private_data_def Let_def\<close>)
  qed
  have "path_added new d q s s'"
    using q y(1) same_names_inode_ok [OF y(1)]
    by (simp add: path_added_def same_names_def y(2) add_ref_comm [of _ "- 1" _ 1] split: if_splits)
  then show ?thesis by blast
qed

section \<open>References are balanced\<close>

text \<open>How many of the references \<open>f\<close> go to each object.\<close>

definition refs_to :: "(nat \<Rightarrow> nat option) \<Rightarrow> nat \<Rightarrow> int" where
  "refs_to f x = int (card {d. f d = Some x})"

lemma refs_to_upd:
  assumes "finite (dom f)"
  shows "refs_to (f(d := v)) = add_ref v 1 (add_ref (f d) (- 1) (refs_to f))"
proof
  fix x
  let ?A = "{e. e \<noteq> d \<and> f e = Some x}"
  have fin: "finite ?A" by (rule finite_subset [OF _ assms]) auto
  have count: "int (card {e. g e = Some x}) = int (card ?A) + (if g d = Some x then 1 else 0)" if "\<And>e. e \<noteq> d \<Longrightarrow> g e = f e" for g :: "nat \<Rightarrow> nat option"
  proof -
    have "e \<in> {e. g e = Some x} \<longleftrightarrow> e \<in> (if g d = Some x then insert d ?A else ?A)" for e using that [of e] by (cases "e = d") auto
    then have "{e. g e = Some x} = (if g d = Some x then insert d ?A else ?A)" by blast
    then show ?thesis using fin by simp
  qed
  show "refs_to (f(d := v)) x = add_ref v 1 (add_ref (f d) (- 1) (refs_to f)) x"
    using count [of f] count [of "f(d := v)"] by (simp add: refs_to_def add_ref_def split: option.split)
qed

abbreviation (input) path_dentries :: "'l wfs \<Rightarrow> nat \<Rightarrow> nat option" where
  "path_dentries s \<equiv> \<lambda>d. Option.bind (wd_info (wx_dentry s d)) path_dentry"

abbreviation (input) path_mounts :: "'l wfs \<Rightarrow> nat \<Rightarrow> nat option" where
  "path_mounts s \<equiv> \<lambda>d. Option.bind (wd_info (wx_dentry s d)) path_mnt"

definition names_inv :: "'l wfs \<Rightarrow> bool" where
  "names_inv s \<longleftrightarrow> finite {d. wd_info (wx_dentry s d) \<noteq> None} \<and> wx_dref s = refs_to (path_dentries s) \<and> wx_mref s = refs_to (path_mounts s) \<and> inode_ok s"

lemma names_kept_inv: "names_kept new s s' \<Longrightarrow> names_inv s \<Longrightarrow> fresh_inode new s \<Longrightarrow> names_inv s'"
  by (simp add: names_kept_def names_inv_def)

lemma path_finite:
  assumes "finite {d. wd_info (wx_dentry s d) \<noteq> None}"
  shows "finite (dom (path_dentries s))" "finite (dom (path_mounts s))"
proof -
  have "finite (dom (\<lambda>d. Option.bind (wd_info (wx_dentry s d)) h))" for h :: "path \<Rightarrow> nat option"
    by (rule finite_subset [OF _ assms]) (auto simp: bind_eq_Some_conv)
  then show "finite (dom (path_dentries s))" "finite (dom (path_mounts s))" by simp_all
qed

text \<open>The private data of one dentry changes, and the counts with it.\<close>

lemma info_changed_inv:
  assumes inv: "names_inv s" and info: "\<And>e. wd_info (wx_dentry s' e) = (if e = d then v else wd_info (wx_dentry s e))"
    and refs: "wx_dref s' = add_ref (Option.bind v path_dentry) 1 (add_ref (path_dentries s d) (- 1) (wx_dref s))"
      "wx_mref s' = add_ref (Option.bind v path_mnt) 1 (add_ref (path_mounts s d) (- 1) (wx_mref s))"
    and ok: "inode_ok s'"
  shows "names_inv s'"
proof -
  have fin: "finite {d. wd_info (wx_dentry s d) \<noteq> None}" using inv by (simp add: names_inv_def)
  then have fin': "finite {d. wd_info (wx_dentry s' d) \<noteq> None}"
    by (rule rev_finite_subset [OF finite.insertI [of _ d]]) (auto simp: info)
  have upd: "path_dentries s' = (path_dentries s)(d := Option.bind v path_dentry)" "path_mounts s' = (path_mounts s)(d := Option.bind v path_mnt)"
    by (simp_all add: info fun_eq_iff)
  show ?thesis using inv fin' ok unfolding names_inv_def upd refs_to_upd [OF path_finite(1) [OF fin]] refs_to_upd [OF path_finite(2) [OF fin]]
    by (simp add: refs)
qed

lemma path_added_inv:
  assumes "path_added new d q s s'" "names_inv s" "fresh_inode new s" and old: "lower_path_of s d = null_path"
  shows "names_inv s'"
proof -
  have "path_dentries s d = None" "path_mounts s d = None" using old by (auto simp: lower_path_of_def null_path_def split: option.splits)
  then show ?thesis using assms(1-3) by (intro info_changed_inv [OF assms(2), of s' d "Some q"]) (auto simp: path_added_def names_inv_def)
qed

lemma d_release_inv:
  assumes "names_inv s"
  shows "names_inv (wrapfs_d_release d s)"
proof -
  have ok: "inode_ok (wrapfs_d_release d s)"
    using assms by (simp add: wrapfs_d_release_def free_dentry_private_data_def wrapfs_put_reset_lower_path_def wrapfs_set_lower_path_def Let_def names_inv_def)
  show ?thesis
    by (rule info_changed_inv [OF assms _ _ _ ok, of d None])
      (auto simp: wrapfs_d_release_def free_dentry_private_data_def wrapfs_put_reset_lower_path_def wrapfs_set_lower_path_def lower_path_of_def
        null_path_def Let_def split: option.split)
qed

lemma evict_inode_ok:
  assumes ok: "inode_ok s" and i: "i \<in> set (wx_icache s)"
  shows "inode_ok (wrapfs_evict_inode i s)"
proof -
  obtain j where j: "wrapfs_lower_inode s i = Some j" using assms by (auto simp: inode_ok_def)
  have low: "wrapfs_lower_inode (wrapfs_evict_inode i s) = (wrapfs_lower_inode s)(i := None)"
    by (auto simp: wrapfs_evict_inode_def wrapfs_set_lower_inode_def wrapfs_lower_inode_def fun_eq_iff iref_def Let_def upd_inode_def)
  have rest: "wx_icache (wrapfs_evict_inode i s) = removeAll i (wx_icache s)" "wx_iref (wrapfs_evict_inode i s) = (wx_iref s)(j := wx_iref s j - 1)"
    using j by (simp_all add: wrapfs_evict_inode_def wrapfs_set_lower_inode_def Let_def)
  have ref: "wx_iref s k = (if \<exists>i\<in>set (wx_icache s). wrapfs_lower_inode s i = Some k then 1 else 0)" for k using ok by (simp add: inode_ok_def)
  have inj: "a = b" if "a \<in> set (wx_icache s)" "b \<in> set (wx_icache s)" "wrapfs_lower_inode s a = wrapfs_lower_inode s b" for a b
    using that ok by (simp add: inode_ok_def)
  have "((wx_iref s)(j := wx_iref s j - 1)) k = (if \<exists>a\<in>set (removeAll i (wx_icache s)). wrapfs_lower_inode s a = Some k then 1 else 0)" for k
  proof (cases "k = j")
    case True
    have "wrapfs_lower_inode s a \<noteq> Some j" if "a \<in> set (wx_icache s)" "a \<noteq> i" for a using inj [OF that(1) i] that(2) j by auto
    then show ?thesis using ref [of j] i j True by auto
  next
    case False
    then show ?thesis using ref [of k] j by auto
  qed
  then show ?thesis using ok unfolding inode_ok_def by (simp add: low rest distinct_removeAll)
qed

lemma evict_inode_frame:
  "wx_dentry (wrapfs_evict_inode i s) = wx_dentry s" "wx_dref (wrapfs_evict_inode i s) = wx_dref s" "wx_mref (wrapfs_evict_inode i s) = wx_mref s"
  by (simp_all add: wrapfs_evict_inode_def wrapfs_set_lower_inode_def Let_def)

section \<open>Mounting\<close>

lemma wrapfs_iget_result:
  assumes "wrapfs_iget L new j s = (Inr i, s')"
  shows "i \<in> set (wx_icache s')" "wrapfs_lower_inode s' i = Some j"
proof -
  have "i \<in> set (wx_icache s') \<and> wrapfs_lower_inode s' i = Some j"
    using assms find_inode [OF refl, of "iref (Some j) 1 s" j]
    by (auto simp: wrapfs_iget_def iget_init_simps Let_def split: if_splits option.splits)
  then show "i \<in> set (wx_icache s')" "wrapfs_lower_inode s' i = Some j" by simp_all
qed

lemma mount_undo_simps [simp]:
  "wx_dentry (mount_undo p s) = wx_dentry s" "wx_dref (mount_undo p s) = add_ref (path_dentry p) (- 1) (wx_dref s)"
  "wx_mref (mount_undo p s) = add_ref (path_mnt p) (- 1) (wx_mref s)" "inode_ok (mount_undo p s) = inode_ok s"
  by (simp_all add: mount_undo_def inode_ok_def wrapfs_lower_inode_def)

lemma mount_root_added:
  assumes m: "mount_root p i r info x = (err, s')" and i: "i \<in> set (wx_icache x)" and k: "names_kept new (pref p 1 s) x"
    and r: "wd_info (wx_dentry s r) = None"
  shows "names_kept new s s' \<or> path_added new r p s s'"
proof (cases info)
  case True
  then have "s' = upd_dentry r (\<lambda>x. x\<lparr>wd_hashed := True\<rparr>) (wrapfs_set_lower_path r p (upd_dentry r (\<lambda>x. x\<lparr>wd_info := Some null_path\<rparr>)
      (upd_dentry r (\<lambda>x. x\<lparr>wd_info := None, wd_inode := Some i, wd_parent := r, wd_name := ''/''\<rparr>) x)))"
    using m by (simp add: mount_root_def new_dentry_private_data_def Let_def)
  then show ?thesis using k by (simp add: names_kept_def path_added_def wrapfs_set_lower_path_def)
next
  case False
  let ?y = "wrapfs_d_release r (upd_dentry r (\<lambda>x. x\<lparr>wd_info := None, wd_inode := Some i, wd_parent := r, wd_name := ''/''\<rparr>) x)"
  have y: "wx_icache ?y = wx_icache x" "inode_ok ?y = inode_ok x" "wx_dref ?y = wx_dref x" "wx_mref ?y = wx_mref x"
    "wd_info (wx_dentry ?y e) = (if e = r then None else wd_info (wx_dentry x e))" for e
    by (simp_all add: wrapfs_d_release_def free_dentry_private_data_def wrapfs_put_reset_lower_path_def wrapfs_set_lower_path_def lower_path_of_def null_path_def Let_def)
  have "s' = mount_undo p (wbug (wrapfs_evict_inode i ?y))"
    using False m by (simp add: mount_root_def new_dentry_private_data_def Let_def)
  then show ?thesis using k r evict_inode_ok [of ?y i] i y by (simp add: names_kept_def evict_inode_frame)
qed

lemma read_super_added:
  assumes m: "wrapfs_read_super L kern mem new root info s = (err, s')" and r: "\<forall>r. root = Some r \<longrightarrow> wd_info (wx_dentry s r) = None"
    and dir: "\<forall>p. kern = Some (Inr p) \<longrightarrow> (\<exists>d j. path_dentry p = Some d \<and> lf_d_inode L (wx_low s) d = Some j)"
  shows "names_kept new s s' \<or> (\<exists>q r. root = Some r \<and> path_added new r q s s')"
proof (cases "\<exists>p. kern = Some (Inr p) \<and> mem")
  case False
  then have "same_names s s'" using m by (auto simp: wrapfs_read_super_def Let_def same_names_def split: option.splits sum.splits if_splits)
  then show ?thesis by (simp add: same_names_kept)
next
  case True
  then obtain p d j where p: "kern = Some (Inr p)" mem "path_dentry p = Some d" "lf_d_inode L (wx_low s) d = Some j" using dir by blast
  let ?s = "(pref p 1 s)\<lparr>wx_lower_sb := Some (ld_d_sb L d)\<rparr>"
  obtain a x where ax: "wrapfs_iget L new j ?s = (a, x)" by fastforce
  have "same_names (pref p 1 s) ?s" by (simp add: same_names_def wrapfs_lower_inode_def)
  from kept_pre [OF this wrapfs_iget_kept [OF ax]] have k: "names_kept new (pref p 1 s) x" .
  have m': "(err, s') = (case a of Inl e \<Rightarrow> (e, mount_undo p x) | Inr i \<Rightarrow> (case root of
      None \<Rightarrow> (- ENOMEM, mount_undo p (wbug (wrapfs_evict_inode i x))) | Some r \<Rightarrow> mount_root p i r info x))"
    using m p ax by (simp add: wrapfs_read_super_def Let_def split: sum.split)
  show ?thesis
  proof (cases a)
    case (Inl e)
    then show ?thesis using m' k by (simp add: names_kept_def)
  next
    case (Inr i)
    have i: "i \<in> set (wx_icache x)" by (rule wrapfs_iget_result [OF ax [unfolded Inr]])
    show ?thesis
    proof (cases root)
      case None
      then show ?thesis using m' Inr k evict_inode_ok [of x i] i by (simp add: names_kept_def evict_inode_frame)
    next
      case (Some q)
      then have mr: "mount_root p i q info x = (err, s')" using m' Inr by simp
      have "wd_info (wx_dentry s q) = None" using r Some by simp
      from mount_root_added [OF mr i k this] show ?thesis using Some by blast
    qed
  qed
qed

section \<open>Every sequence of operations\<close>

text \<open>
  The operations on names, as the VFS calls them: a dentry is looked up before it has private data, it has a lower dentry when it is revalidated or unlinked, an
  inode is evicted when it is cached, and an inode is new when it is not cached. The lower file system may change by itself.
\<close>

inductive names_step :: "kernel \<Rightarrow> dev_env \<Rightarrow> ('l, 'b) lower_dir_fs_scheme \<Rightarrow> 'l wfs \<Rightarrow> 'l wfs \<Rightarrow> bool" for K E L where
  step_mount: "fresh_inode new s \<Longrightarrow> \<forall>r. root = Some r \<longrightarrow> wd_info (wx_dentry s r) = None \<Longrightarrow>
    \<forall>p. kern = Some (Inr p) \<longrightarrow> (\<exists>d j. path_dentry p = Some d \<and> lf_d_inode L (wx_low s) d = Some j) \<Longrightarrow>
    wrapfs_read_super L kern mem new root info s = (err, s') \<Longrightarrow> names_step K E L s s'"
| step_lookup: "fresh_inode new s \<Longrightarrow> wd_info (wx_dentry s d) = None \<Longrightarrow> wrapfs_lookup L d mem new s = (r, s') \<Longrightarrow> names_step K E L s s'"
| step_create: "fresh_inode new s \<Longrightarrow> names_step K E L s (snd (wrapfs_create L dir d m e new s))"
| step_symlink: "fresh_inode new s \<Longrightarrow> names_step K E L s (snd (wrapfs_symlink L dir d n new s))"
| step_mknod: "fresh_inode new s \<Longrightarrow> names_step K E L s (snd (wrapfs_mknod L dir d m dev new s))"
| step_mkdir: "fresh_inode new s \<Longrightarrow> names_step K E L s (snd (wrapfs_mkdir L dir d m new s))"
| step_link: "fresh_inode new s \<Longrightarrow> names_step K E L s (snd (wrapfs_link L od dir nd new s))"
| step_rmdir: "names_step K E L s (snd (wrapfs_rmdir L dir d s))"
| step_rename: "names_step K E L s (snd (wrapfs_rename L dir d dir' d' fl s))"
| step_unlink: "path_dentry (lower_path_of s d) \<noteq> None \<Longrightarrow> wrapfs_unlink K E L dir d s = Some (err, s') \<Longrightarrow> names_step K E L s s'"
| step_revalidate: "path_dentry (lower_path_of s d) \<noteq> None \<Longrightarrow> names_step K E L s (snd (wrapfs_d_revalidate L d fl s))"
| step_d_release: "names_step K E L s (wrapfs_d_release d s)"
| step_evict_inode: "i \<in> set (wx_icache s) \<Longrightarrow> names_step K E L s (wrapfs_evict_inode i s)"
| step_setattr: "names_step K E L s (snd (wrapfs_setattr L d ia s))"
| step_getattr: "names_step K E L s (snd (wrapfs_getattr L d s))"
| step_readlink: "names_step K E L s (snd (wrapfs_readlink L d n s))"
| step_getxattr: "names_step K E L s (snd (wrapfs_getxattr L d nm n s))"
| step_listxattr: "names_step K E L s (snd (wrapfs_listxattr L d n s))"
| step_setxattr: "names_step K E L s (snd (wrapfs_setxattr L d nm v fl' s))"
| step_removexattr: "names_step K E L s (snd (wrapfs_removexattr L d i nm s))"
| step_statfs: "names_step K E L s (snd (wrapfs_statfs L d s))"
| step_file_open: "names_step K E L s (snd (wrapfs_open L i f mem fi v s))"
| step_low: "names_step K E L s (set_low l s)"

definition names_initial :: "'l wfs \<Rightarrow> bool" where
  "names_initial s \<longleftrightarrow> (\<forall>d. wd_info (wx_dentry s d) = None) \<and> wx_icache s = [] \<and> (\<forall>x. wx_dref s x = 0 \<and> wx_mref s x = 0 \<and> wx_iref s x = 0)"

lemmas names_kept_step = create_kept symlink_kept mknod_kept mkdir_kept link_kept rmdir_kept rename_kept unlink_kept revalidate_kept setattr_kept getattr_kept
  readlink_kept read_xattr_kept setxattr_kept removexattr_kept statfs_kept open_kept

lemma names_step_inv:
  assumes "names_step K E L s s'" "names_inv s"
  shows "names_inv s'"
  using assms(1)
proof cases
  case (step_mount new root kern mem info err)
  have "lower_path_of s r = null_path" if "root = Some r" for r using step_mount(2) that by (simp add: lower_path_of_def)
  then show ?thesis using read_super_added [OF step_mount(4,2,3)] names_kept_inv [OF _ assms(2) step_mount(1)] path_added_inv [OF _ assms(2) step_mount(1)] by blast
next
  case (step_lookup new d mem r)
  have "lower_path_of s d = null_path" using step_lookup(2) by (simp add: lower_path_of_def)
  then show ?thesis using lookup_added [OF step_lookup(2,3)] names_kept_inv [OF _ assms(2) step_lookup(1)] path_added_inv [OF _ assms(2) step_lookup(1)] by blast
next
  case (step_evict_inode i)
  then show ?thesis using assms(2) evict_inode_ok [of s i] by (simp add: names_inv_def evict_inode_frame)
next
  case (step_low l)
  then show ?thesis using names_kept_inv [OF same_names_kept [OF same_names_upd(4)] assms(2), of None] by (simp add: fresh_inode_def)
next
  case (step_unlink d dir err)
  then show ?thesis using names_kept_inv [OF unlink_kept [OF step_unlink(2,1)] assms(2), of None] by (simp add: fresh_inode_def)
next
  case (step_revalidate d fl)
  then show ?thesis using names_kept_inv [OF revalidate_kept [OF step_revalidate(2)] assms(2), of None] by (simp add: fresh_inode_def)
next
  case (step_d_release d)
  then show ?thesis using d_release_inv [OF assms(2)] by simp
qed (auto simp: wrapfs_getxattr_def wrapfs_listxattr_def fresh_inode_def intro: names_kept_inv [OF _ assms(2)] names_kept_inv [OF _ assms(2), of None] names_kept_step)

interpretation names: inductive_invariant names_initial "names_step K E L" names_inv for K E and L :: "('l, 'b) lower_dir_fs_scheme"
proof
  fix s :: "'l wfs" assume "names_initial s"
  then show "names_inv s" by (simp add: names_initial_def names_inv_def refs_to_def inode_ok_def fun_eq_iff)
qed (rule names_step_inv)


section \<open>A small tree of names\<close>

text \<open>
  The lower dentry \<open>n\<close> has the lower inode \<open>n\<close>, and 0 is the root of the lower file system. Looking up the name of one character \<open>c\<close> finds the
  lower dentry with the number of the character, and making a name always succeeds. The root dentry 8 is mounted on 0; then dentry 9 is looked up.
\<close>

definition lower_dir_example :: "nat lower_dir_fs" where
  "lower_dir_example = lower_fs.extend lower_example (lower_dir_fs.fields
     (\<lambda>j e m x l. (0, Suc l)) (\<lambda>a j e l. (0, l)) (\<lambda>j e l. (0, l)) (\<lambda>j e n l. (0, l)) (\<lambda>j e m l. (0, l)) (\<lambda>j e l. (0, l)) (\<lambda>j e m d l. (0, l))
     (\<lambda>a b c d l. (0, l)) (\<lambda>l a b. None) (\<lambda>l e. False) (\<lambda>l j. True) (\<lambda>i d. None) (\<lambda>e. 0) (\<lambda>d. 1) (\<lambda>m f. f)
     (\<lambda>p n l. case n of [] \<Rightarrow> Inl (- ENOENT) | c # cs \<Rightarrow> Inr \<lparr>path_dentry = Some (of_char c), path_mnt = path_mnt p\<rparr>) (\<lambda>l p n. None) (\<lambda>p n l. Some (1, l))
     (\<lambda>d. None) (\<lambda>d. None) (\<lambda>j m l. 0) (\<lambda>a r. 0) (\<lambda>a z. 0) (\<lambda>e r st. (0, st)) (\<lambda>p l. (0, 8, l)) (\<lambda>j. True) (\<lambda>e n v f l. (0, l))
     (\<lambda>e n k l. ((0, []), l)) (\<lambda>e k l. ((0, []), l)) (\<lambda>e n l. (0, l)) (\<lambda>p l. (0, 0)))"

definition names_blank :: "nat wfs" where
  "names_blank = wfs_blank\<lparr>wx_dentry := (\<lambda>d. \<lparr>wd_info = None, wd_inode = None, wd_parent = 8, wd_name = ''f'', wd_hashed = True\<rparr>), wx_icache := [], wx_lower_sb := None\<rparr>"

definition names_mounted :: "nat wfs" where
  "names_mounted = snd (wrapfs_read_super lower_dir_example (Some (Inr \<lparr>path_dentry = Some 0, path_mnt = Some 0\<rparr>)) True (Some 3) (Some 8) True names_blank)"

definition names_example :: "nat wfs" where
  "names_example = snd (wrapfs_lookup lower_dir_example 9 True (Some 4) names_mounted)"

lemma lower_dir_example_simps [simp]:
  "lf_d_inode lower_dir_example l d = Some d" "lf_i_sb lower_dir_example j = 0" "ld_igrab lower_dir_example l j" "ld_splice lower_dir_example i d = None"
  "ld_d_sb lower_dir_example d = 0" "lf_parent lower_dir_example l d = 0" "lf_i_ino lower_dir_example = word_of_nat" "lf_attr lower_dir_example = lf_attr lower_example"
  "ld_create lower_dir_example a e m x l = (0, Suc l)" "ld_unlink lower_dir_example a e l = (0, l)"
  by (simp_all add: lower_dir_example_def lower_fs.defs lower_dir_fs.defs lower_example_def)

lemmas names_unfold = wrapfs_read_super_def mount_root_def new_dentry_private_data_def wrapfs_iget_def Let_def wrapfs_set_lower_path_def
  wrapfs_lookup_def lookup_inner_def interpose_def wrapfs_get_lower_path_def wrapfs_put_lower_path_def lower_path_of_def need_info_def

lemma names_mounted_simps:
  "wx_dentry names_mounted = (wx_dentry names_blank)(8 := \<lparr>wd_info = Some \<lparr>path_dentry = Some 0, path_mnt = Some 0\<rparr>, wd_inode = Some 3, wd_parent = 8, wd_name = ''/'', wd_hashed = True\<rparr>)"
  "wx_icache names_mounted = [3]" "wrapfs_lower_inode names_mounted 3 = Some 0" "wx_lower_sb names_mounted = Some 0" "wx_low names_mounted = 0"
proof -
  have sb: "wx_lower_sb (iget_init L i j s) = wx_lower_sb s" "wx_low (iget_init L i j s) = wx_low s" for L :: "nat lower_dir_fs" and i j s
    by (simp_all add: iget_init_def wrapfs_set_lower_inode_def Let_def)
  have low: "wrapfs_lower_inode (upd_dentry d g x) = wrapfs_lower_inode x" for d g and x :: "nat wfs" by (simp add: wrapfs_lower_inode_def fun_eq_iff)
  show "wx_dentry names_mounted = (wx_dentry names_blank)(8 := \<lparr>wd_info = Some \<lparr>path_dentry = Some 0, path_mnt = Some 0\<rparr>, wd_inode = Some 3, wd_parent = 8, wd_name = ''/'', wd_hashed = True\<rparr>)"
    "wx_icache names_mounted = [3]" "wrapfs_lower_inode names_mounted 3 = Some 0" "wx_lower_sb names_mounted = Some 0" "wx_low names_mounted = 0"
    by (simp_all add: names_mounted_def names_unfold names_blank_def wfs_blank_def iget_init_simps sb low)
qed

lemma names_example_simps:
  "wd_info (wx_dentry names_example d) = (if d = 9 then Some \<lparr>path_dentry = Some 102, path_mnt = Some 0\<rparr> else wd_info (wx_dentry names_mounted d))"
  "wx_icache names_example = [4, 3]"
proof -
  have lk: "ld_lookup lower_dir_example p ''f'' l = Inr \<lparr>path_dentry = Some 102, path_mnt = path_mnt p\<rparr>" for p l
    by (simp add: lower_dir_example_def lower_fs.defs lower_dir_fs.defs)
  have sb: "wx_lower_sb (iget_init L i j s) = wx_lower_sb s" for L :: "nat lower_dir_fs" and i j s
    by (simp add: iget_init_def wrapfs_set_lower_inode_def Let_def)
  have low: "wrapfs_lower_inode (upd_dentry d g x) = wrapfs_lower_inode x" for d g and x :: "nat wfs" by (simp add: wrapfs_lower_inode_def fun_eq_iff)
  show "wd_info (wx_dentry names_example d) = (if d = 9 then Some \<lparr>path_dentry = Some 102, path_mnt = Some 0\<rparr> else wd_info (wx_dentry names_mounted d))"
    "wx_icache names_example = [4, 3]"
    by (simp_all add: names_example_def names_unfold names_mounted_simps lk iget_init_simps names_blank_def wfs_blank_def sb low wrapfs_inode_test_def null_path_def)
qed

lemma names_reach: "reach names_initial (names_step kernel_example env_example lower_dir_example) names_example"
proof -
  have i: "reach names_initial (names_step kernel_example env_example lower_dir_example) names_blank"
    by (rule reach_init) (simp add: names_initial_def names_blank_def wfs_blank_def)
  have "names_step kernel_example env_example lower_dir_example names_blank names_mounted"
    unfolding names_mounted_def
    by (rule step_mount [where new = "Some 3" and root = "Some 8", OF _ _ _ prod.collapse [symmetric]])
      (auto simp: names_blank_def fresh_inode_def)
  with i have m: "reach names_initial (names_step kernel_example env_example lower_dir_example) names_mounted" by (rule reach_step)
  have "names_step kernel_example env_example lower_dir_example names_mounted names_example"
    unfolding names_example_def
    by (rule step_lookup [where new = "Some 4" and d = 9, OF _ _ prod.collapse [symmetric]])
      (auto simp: fresh_inode_def names_mounted_simps names_blank_def)
  with m show ?thesis by (rule reach_step)
qed


end
