(* ===== verification/Wrapfs_Dir.thy ===== *)
theory Wrapfs_Dir
  imports Wrapfs_Names
begin

text \<open>
  What making a name and removing the last name of a mapped file do to the stacked file system: the inode of a new name, the attributes of its
  directory, and the cached pages of a file that is gone.
\<close>

section \<open>Making a name\<close>

lemma iget_init_attr:
  assumes "stack_copy_ok L"
  shows "wi_attr (wx_inode (iget_init L i j s) i) = lf_attr L (wx_low s) j" "wi_ino (wx_inode (iget_init L i j s) i) = lf_i_ino L j"
    "k \<noteq> i \<Longrightarrow> wx_inode (iget_init L i j s) k = wx_inode s k" "wx_low (iget_init L i j s) = wx_low s" "wx_fm (iget_init L i j s) = wx_fm s"
  using assms by (simp_all add: iget_init_def wrapfs_set_lower_inode_def copy_attr_def Let_def stack_copy_ok_def)

text \<open>Attaching an inode to a name: a cached inode for the lower inode is used, or the new one, which gets all its attributes.\<close>

lemma interpose_spec:
  assumes copy: "stack_copy_ok L" and e: "path_dentry p = Some e" "lf_d_inode L (wx_low s) e = Some j" and sb: "wx_lower_sb s = Some (lf_i_sb L j)"
    and grab: "ld_igrab L (wx_low s) j" and new: "new = Some n" "n \<notin> set (wx_icache s)" and splice: "\<And>i. ld_splice L i d = None"
  obtains i s' where "wrapfs_interpose L d p new s = (0, s')" "wx_dentry s' = (wx_dentry s)(d := (wx_dentry s d)\<lparr>wd_inode := Some i\<rparr>)"
    "wrapfs_lower_inode s' i = Some j" "i \<in> set (wx_icache s')" "wx_low s' = wx_low s" "wx_fm s' = wx_fm s" "wx_dref s' = wx_dref s" "wx_mref s' = wx_mref s"
    "\<And>k. k \<noteq> n \<Longrightarrow> wx_inode s' k = wx_inode s k"
    "i \<notin> set (wx_icache s) \<Longrightarrow> i = n \<and> wi_attr (wx_inode s' i) = lf_attr L (wx_low s) j \<and> wi_ino (wx_inode s' i) = lf_i_ino L j"
    "i \<in> set (wx_icache s) \<Longrightarrow> wx_inode s' = wx_inode s"
proof -
  obtain r x where rx: "wrapfs_iget L new j s = (r, x)" by fastforce
  have inode: "wrapfs_lower_inode (upd_dentry d g y) = wrapfs_lower_inode y" for g and y :: "'a wfs" by (simp add: wrapfs_lower_inode_def fun_eq_iff)
  have ip: "wrapfs_interpose L d p new s = (case r of Inl err \<Rightarrow> (err, x) | Inr i \<Rightarrow> (0, upd_dentry d (\<lambda>y. y\<lparr>wd_inode := Some i\<rparr>) x))"
    using e sb splice rx by (simp add: wrapfs_interpose_def interpose_def split: sum.split)
  show ?thesis
  proof (cases "find (\<lambda>i. wrapfs_inode_test (iref (Some j) 1 s) i j) (wx_icache s)")
    case None
    have r: "r = Inr n" "x = iget_init L n j (iref (Some j) 1 s)" using rx grab new None by (simp_all add: wrapfs_iget_def Let_def)
    show ?thesis
      by (rule that [of "upd_dentry d (\<lambda>y. y\<lparr>wd_inode := Some n\<rparr>) x" n])
        (use ip r new in \<open>auto simp: iget_init_simps inode iget_init_attr [OF copy]\<close>)
  next
    case (Some i)
    have r: "r = Inr i" "x = iref (Some j) (- 1) (iref (Some j) 1 s)" using rx grab Some by (simp_all add: wrapfs_iget_def Let_def)
    have i: "i \<in> set (wx_icache s)" "wrapfs_lower_inode s i = Some j" using find_inode [of "iref (Some j) 1 s" j "Some i"] Some by simp_all
    show ?thesis by (rule that [of "upd_dentry d (\<lambda>y. y\<lparr>wd_inode := Some i\<rparr>) x" i]) (use ip r i in \<open>auto simp: inode\<close>)
  qed
qed

lemma copy_attr_inode:
  "copy_attr h L (Some i) (Some j) s = upd_inode i (\<lambda>x. x\<lparr>wi_attr := h (wi_attr x) (lf_attr L (wx_low s) j)\<rparr>) s"
  by (simp add: copy_attr_def)

text \<open>
  C22. Creating a file: the error of the lower file system is passed on, and nothing changes above it. Otherwise the name refers to an inode that
  stands for the lower file; an inode made for it has all the attributes of the lower inode. The directory has the times and the size of the lower directory, and
  no reference on a lower dentry or mount is kept.
\<close>

theorem wrapfs_create_spec:
  fixes s :: "'l wfs"
  assumes copy: "stack_copy_ok L" and path: "wd_info (wx_dentry s d) = Some p" "path_dentry p = Some e"
    and call: "ld_create L (lf_d_inode L (wx_low s) (lf_parent L (wx_low s) e)) e m x (wx_low s) = (err, low)"
    and made: "err = 0 \<Longrightarrow> lf_d_inode L low e = Some j \<and> wx_lower_sb s = Some (lf_i_sb L j) \<and> ld_igrab L low j"
    and new: "new = Some n" "n \<notin> set (wx_icache s)" "\<And>i. ld_splice L i d = None"
    and dir: "wrapfs_lower_inode s dir = Some k" "dir \<in> set (wx_icache s)" "err = 0 \<Longrightarrow> lf_d_inode L low (lf_parent L (wx_low s) e) = Some k"
  shows "\<exists>s'. wrapfs_create L dir d m x new s = (err, s') \<and> wx_low s' = low \<and> wx_fm s' = wx_fm s \<and> wx_dref s' = wx_dref s \<and> wx_mref s' = wx_mref s \<and>
    (if err \<noteq> 0 then wx_dentry s' = wx_dentry s \<and> wx_inode s' = wx_inode s
     else (\<exists>i. wd_inode (wx_dentry s' d) = Some i \<and> wrapfs_lower_inode s' i = Some j \<and> (i \<notin> set (wx_icache s) \<longrightarrow> wi_attr (wx_inode s' i) = lf_attr L low j)) \<and>
       wi_attr (wx_inode s' dir) = (wi_attr (wx_inode s dir))\<lparr>ia_atime := ia_atime (lf_attr L low k), ia_mtime := ia_mtime (lf_attr L low k),
         ia_ctime := ia_ctime (lf_attr L low k), ia_size := ia_size (lf_attr L low k), ia_blocks := ia_blocks (lf_attr L low k)\<rparr>)"
proof -
  let ?q = "lf_parent L (wx_low s) e"
  define s1 where "s1 = set_low low (dref (Some ?q) 1 (pref p 1 s))"
  have frame: "wrapfs_create L dir d m x new s =
      (let (r, y) = made_name L dir d p new ?q (err, s1) in (r, pref p (- 1) (dref (Some ?q) (- 1) y)))"
    using path call by (simp add: wrapfs_create_def with_lower_def in_parent_def run_lower_def wrapfs_get_lower_path_def wrapfs_put_lower_path_def
        lower_path_of_def need_info_def lock_parent_def unlock_dir_def s1_def Let_def split: prod.split)
  show ?thesis
  proof (cases "err = 0")
    case False
    then show ?thesis using path by (simp add: frame made_name_def s1_def)
  next
    case True
    note ok = made [OF True] dir(3) [OF True]
    have low: "wx_low s1 = low" by (simp add: s1_def)
    have s1: "lf_d_inode L (wx_low s1) e = Some j" "wx_lower_sb s1 = Some (lf_i_sb L j)" "ld_igrab L (wx_low s1) j" "n \<notin> set (wx_icache s1)"
      using ok new(2) by (simp_all add: s1_def)
    obtain i y where Y: "wrapfs_interpose L d p new s1 = (0, y)" "wx_dentry y = (wx_dentry s1)(d := (wx_dentry s1 d)\<lparr>wd_inode := Some i\<rparr>)"
      "wrapfs_lower_inode y i = Some j" "i \<in> set (wx_icache y)" "wx_low y = wx_low s1" "wx_fm y = wx_fm s1" "wx_dref y = wx_dref s1" "wx_mref y = wx_mref s1"
      "\<And>k. k \<noteq> n \<Longrightarrow> wx_inode y k = wx_inode s1 k"
      "i \<notin> set (wx_icache s1) \<Longrightarrow> i = n \<and> wi_attr (wx_inode y i) = lf_attr L (wx_low s1) j \<and> wi_ino (wx_inode y i) = lf_i_ino L j"
      "i \<in> set (wx_icache s1) \<Longrightarrow> wx_inode y = wx_inode s1"
      by (rule interpose_spec [OF copy path(2) s1(1-3) new(1) s1(4) new(3)]) (rule that)
    have "dir \<noteq> n" using dir(2) new(2) by blast
    then have y: "wx_low y = low" "wx_fm y = wx_fm s" "wx_inode y dir = wx_inode s dir" "wx_dentry y = (wx_dentry s)(d := (wx_dentry s d)\<lparr>wd_inode := Some i\<rparr>)"
      "wx_dref y = add_ref (Some ?q) 1 (add_ref (path_dentry p) 1 (wx_dref s))" "wx_mref y = add_ref (path_mnt p) 1 (wx_mref s)"
      "i \<notin> set (wx_icache s) \<Longrightarrow> i \<noteq> dir \<and> wi_attr (wx_inode y i) = lf_attr L low j"
      using Y(2,5-10) by (auto simp: s1_def)
    have kd: "wrapfs_lower_inode y dir = Some k" using y(3) dir(1) by (simp add: wrapfs_lower_inode_def)
    define z where "z = copy_attr (lf_copy_size L) L (Some dir) (Some k) (copy_attr (lf_copy_times L) L (Some dir) (Some k) y)"
    have "made_name L dir d p new ?q (err, s1) = (0, z)"
      using True Y(1) y(1) kd ok(2) by (simp add: made_name_def Let_def z_def)
    then have c: "wrapfs_create L dir d m x new s = (0, pref p (- 1) (dref (Some ?q) (- 1) z))" by (simp add: frame)
    have z: "wx_low z = low" "wx_fm z = wx_fm s" "wx_dref z = wx_dref y" "wx_mref z = wx_mref y" "wx_dentry z = wx_dentry y" "wrapfs_lower_inode z = wrapfs_lower_inode y"
      "i \<noteq> dir \<Longrightarrow> wx_inode z i = wx_inode y i"
      using y by (auto simp: z_def copy_attr_inode wrapfs_lower_inode_def fun_eq_iff)
    have dz: "wi_attr (wx_inode z dir) = (wi_attr (wx_inode s dir))\<lparr>ia_atime := ia_atime (lf_attr L low k), ia_mtime := ia_mtime (lf_attr L low k),
         ia_ctime := ia_ctime (lf_attr L low k), ia_size := ia_size (lf_attr L low k), ia_blocks := ia_blocks (lf_attr L low k)\<rparr>"
      using copy y by (simp add: z_def copy_attr_inode stack_copy_ok_def)
    show ?thesis using True c z dz y Y(3)
      by (intro exI [of _ "pref p (- 1) (dref (Some ?q) (- 1) z)"]) (auto simp del: add_ref_Some simp: wrapfs_lower_inode_def)
  qed
qed

section \<open>Removing the last name of a file\<close>

lemma unlink_page_clean: "tp_buffer_id (pm_pages s p) = BI_CLEAN \<Longrightarrow> unlink_page p s = raw_free_page p s"
  by (auto simp: unlink_page_def raw_free_page_def trylock_any_cases Let_def split: prod.splits)

lemma unlink_pvd_spec:
  assumes E: "rdx_first_ok (de_rdx_first E)" "0 < ncpus K" and d: "drainable K d s"
  obtains s' where "unlink_pvd K E d s = Some s'" "fm_inv K s'" "pages_of d s' = {}" "\<not> pvd_is_valid (fm_pvd s' d)"
    "free_set (k_topo K) s' = pages_of d s \<union> free_set (k_topo K) s" "\<And>e. e \<noteq> d \<Longrightarrow> pages_of e s' = pages_of e s"
proof -
  let ?s = "upd_pvd d (\<lambda>v. v\<lparr>pvd_during_unlink := 1\<rparr>) s"
  have pg: "pages_of e (upd_pvd d h x) = pages_of e x" "free_set (k_topo K) (upd_pvd d h x) = free_set (k_topo K) x" for e h x
    by (simp_all add: pages_of_def free_set_def)
  have d': "drainable K d ?s" using d unfolding drainable_def pg by (simp add: fm_inv_pvd_flags)
  then have inv: "fm_inv K ?s" by (simp add: drainable_def)
  have "card (pages_of d ?s) < Suc (pm_total ?s)" using pages_of_finite(2) [OF inv, of d] by simp
  from raw_drain_spec [OF E d' this] obtain x where x: "raw_drain K E d (Suc (pm_total ?s)) ?s = Some x" "drained K d ?s x" by blast
  have u: "unlink_pvd K E d s = Some (upd_pvd d (\<lambda>v. v\<lparr>pvd_is_valid := False\<rparr>) x)"
    using trans [OF rdx_drain_clean [OF unlink_page_clean d'] x(1)] unfolding unlink_pvd_def Let_def by (simp del: rdx_drain.simps)
  have D: "fm_inv K x" "pages_of d x = {}" "free_set (k_topo K) x = pages_of d s \<union> free_set (k_topo K) s"
    using x(2) unfolding drained_def pg by blast+
  have "pages_of e x = pages_of e s" if "e \<noteq> d" for e using drained_other(1) [OF x(2) that] by (simp add: pg)
  with D show ?thesis by (intro that [OF u]) (simp_all add: pg fm_inv_pvd_flags)
qed

text \<open>
  C13. When the last name of a regular file is removed and the pages of its object are clean, unlocked and unmapped, the operation ends: the object leaves the
  cache, all its pages are on the free lists and none is in use, it is not valid any more, the pages of all other objects stay,
  the name is not hashed any more and its inode has no link.
\<close>

theorem wrapfs_unlink_spec:
  fixes s :: "'l wfs"
  assumes E: "rdx_first_ok (de_rdx_first E)" and n: "0 < ncpus K" and path: "wd_info (wx_dentry s d) = Some p" "path_dentry p = Some e"
    and dir: "wrapfs_lower_inode s dir = Some k" and i: "wd_inode (wx_dentry s d) = Some i" "wrapfs_lower_inode s i = Some j"
    and call: "ld_unlink L (Some k) e (wx_low s) = (0, low)" and j: "lf_d_inode L low e = Some j" "S_ISREG (ia_mode (lf_attr L low j))" "ia_nlink (lf_attr L low j) = 0"
    and v: "wx_ino_pvd s (lf_i_ino L j) = Some v" and dr: "drainable K v (wx_fm s)"
  shows "\<exists>s'. wrapfs_unlink K E L dir d s = Some (0, s') \<and> wx_ino_pvd s' = (wx_ino_pvd s)(lf_i_ino L j := None) \<and> fm_inv K (wx_fm s') \<and>
    pages_of v (wx_fm s') = {} \<and> \<not> pvd_is_valid (fm_pvd (wx_fm s') v) \<and>
    free_set (k_topo K) (wx_fm s') = pages_of v (wx_fm s) \<union> free_set (k_topo K) (wx_fm s) \<and>
    (\<forall>u. u \<noteq> v \<longrightarrow> pages_of u (wx_fm s') = pages_of u (wx_fm s)) \<and> \<not> wd_hashed (wx_dentry s' d) \<and> ia_nlink (wi_attr (wx_inode s' i)) = 0"
proof -
  let ?q = "lf_parent L (wx_low s) e"
  define s1 where "s1 = dref (Some ?q) 1 (dref (Some e) 1 (pref p 1 s))"
  define s2 where "s2 = copy_attr (lf_copy_size L) L (Some dir) (Some k) (copy_attr (lf_copy_times L) L (Some dir) (Some k) (set_low low s1))"
  define s3 where "s3 = set_nlink (Some i) 0 s2"
  define s4 where "s4 = upd_inode i (\<lambda>x. x\<lparr>wi_attr := (wi_attr x)\<lparr>ia_ctime := ia_ctime (wi_attr (wx_inode s3 dir))\<rparr>\<rparr>) s3"
  have s2: "wrapfs_lower_inode s2 = wrapfs_lower_inode s" "d_inode_of s2 d = Some i" "wx_low s2 = low"
    using i by (auto simp: s2_def s1_def copy_attr_inode wrapfs_lower_inode_def d_inode_of_def fun_eq_iff)
  have s4: "wx_fm s4 = wx_fm s" "wx_ino_pvd s4 = wx_ino_pvd s" "wx_low s4 = low" "ia_nlink (wi_attr (wx_inode s4 i)) = 0"
    by (simp_all add: s4_def s3_def s2_def s1_def set_nlink_def copy_attr_inode)
  obtain x where x: "unlink_pvd K E v (wx_fm s) = Some x" "fm_inv K x" "pages_of v x = {}" "\<not> pvd_is_valid (fm_pvd x v)"
    "free_set (k_topo K) x = pages_of v (wx_fm s) \<union> free_set (k_topo K) (wx_fm s)" "\<And>u. u \<noteq> v \<Longrightarrow> pages_of u x = pages_of u (wx_fm s)"
    by (rule unlink_pvd_spec [OF E n dr]) (rule that)
  have run: "run_lower (ld_unlink L (Some k) e) s1 = (0, set_low low s1)" "wrapfs_lower_inode s1 dir = Some k"
    using call dir by (simp_all add: run_lower_def s1_def)
  have nl: "lower_nlink L s2 (lower_of s2 (Some i)) = 0" using j(3) i(2) by (simp add: lower_nlink_def lower_of_def s2)
  obtain y where y: "y = upd_dentry d (\<lambda>x. x\<lparr>wd_hashed := False\<rparr>) (s4\<lparr>wx_ino_pvd := (wx_ino_pvd s)(lf_i_ino L j := None), wx_fm := x\<rparr>)" by simp
  have "unlink_pages K E L j s4 = Some (s4\<lparr>wx_ino_pvd := (wx_ino_pvd s)(lf_i_ino L j := None), wx_fm := x\<rparr>)"
    using v x(1) by (simp add: unlink_pages_def Let_def s4)
  moreover have "unlink_inner K E L dir d e s1 = (case lf_d_inode L (wx_low s4) e of None \<Rightarrow> Some (0, wbug s4)
      | Some j \<Rightarrow> map_option (\<lambda>s. (0, upd_dentry d (\<lambda>x. x\<lparr>wd_hashed := False\<rparr>) s))
          (if S_ISREG (ia_mode (lf_attr L (wx_low s4) j)) \<and> (0 :: nat) = 0 then unlink_pages K E L j s4 else Some s4))"
    unfolding unlink_inner_def run Let_def prod.case s2_def [symmetric] s2(2) nl s3_def [symmetric] option.case s4_def [symmetric] by simp
  ultimately have inner: "unlink_inner K E L dir d e s1 = Some (0, y)" using j(1,2) by (simp add: s4(3) y)
  have "wrapfs_unlink K E L dir d s = Some (0, pref p (- 1) (dref (Some e) (- 1) (dref (Some ?q) (- 1) y)))"
    using path inner by (simp add: wrapfs_unlink_def wrapfs_get_lower_path_def wrapfs_put_lower_path_def lower_path_of_def need_info_def lock_parent_def
        unlock_dir_def Let_def s1_def)
  then show ?thesis using x(2-6) s4(4) by (auto simp: y)
qed

section \<open>Errors of the code\<close>

text \<open>\<^verbatim>\<open>wrapfs_link\<close> gives the directory the times and the size of the file that gets the new name.\<close>

lemma wrapfs_link_attr:
  fixes s :: "'l wfs"
  assumes copy: "stack_copy_ok L" and od: "wd_info (wx_dentry s od) = Some po" "path_dentry po = Some eo"
    and nd: "wd_info (wx_dentry s nd) = Some pn" "path_dentry pn = Some en"
    and call: "ld_link L eo (lf_d_inode L (wx_low s) (lf_parent L (wx_low s) en)) en (wx_low s) = (0, low)"
    and j: "lf_d_inode L low en = Some j" "wx_lower_sb s = Some (lf_i_sb L j)" "ld_igrab L low j"
    and new: "new = Some n" "n \<notin> set (wx_icache s)" "\<And>i. ld_splice L i nd = None"
    and i: "wd_inode (wx_dentry s od) = Some i" "i \<noteq> dir" "od \<noteq> nd" and dir: "dir \<in> set (wx_icache s)" "wrapfs_lower_inode s dir \<noteq> Some j"
  shows "\<exists>s'. wrapfs_link L od dir nd new s = (0, s') \<and> ia_size (wi_attr (wx_inode s' dir)) = ia_size (lf_attr L low j) \<and>
    ia_mtime (wi_attr (wx_inode s' dir)) = ia_mtime (lf_attr L low j)"
proof -
  let ?q = "lf_parent L (wx_low s) en"
  define s1 where "s1 = set_low low (dref (Some ?q) 1 (pref pn 1 (pref po 1 s)))"
  have s1: "lf_d_inode L (wx_low s1) en = Some j" "wx_lower_sb s1 = Some (lf_i_sb L j)" "ld_igrab L (wx_low s1) j" "n \<notin> set (wx_icache s1)"
    using j new(2) by (simp_all add: s1_def)
  obtain a y where Y: "wrapfs_interpose L nd pn new s1 = (0, y)" "wx_dentry y = (wx_dentry s1)(nd := (wx_dentry s1 nd)\<lparr>wd_inode := Some a\<rparr>)"
    "wrapfs_lower_inode y a = Some j" "a \<in> set (wx_icache y)" "wx_low y = wx_low s1" "wx_fm y = wx_fm s1" "wx_dref y = wx_dref s1" "wx_mref y = wx_mref s1"
    "\<And>k. k \<noteq> n \<Longrightarrow> wx_inode y k = wx_inode s1 k"
    "a \<notin> set (wx_icache s1) \<Longrightarrow> a = n \<and> wi_attr (wx_inode y a) = lf_attr L (wx_low s1) j \<and> wi_ino (wx_inode y a) = lf_i_ino L j"
    "a \<in> set (wx_icache s1) \<Longrightarrow> wx_inode y = wx_inode s1"
    by (rule interpose_spec [OF copy nd(2) s1(1-3) new(1) s1(4) new(3)]) (rule that)
  have "dir \<noteq> n" using dir new(2) by blast
  then have "wx_inode y dir = wx_inode s dir" using Y(9) by (simp add: s1_def)
  then have a: "a \<noteq> dir" using Y(3) dir(2) by (auto simp: wrapfs_lower_inode_def)
  have inodes: "wd_inode (wx_dentry y od) = Some i" "wd_inode (wx_dentry y nd) = Some a" "wx_low y = low"
    using Y(2,5) i by (simp_all add: s1_def)
  define z where "z = copy_attr (lf_copy_size L) L (Some dir) (Some j) (copy_attr (lf_copy_times L) L (Some dir) (Some j) y)"
  define w where "w = set_nlink (Some i) (lower_nlink L z (lower_of z (Some i))) z"
  define u where "u = upd_inode a (\<lambda>x. x\<lparr>wi_attr := (wi_attr x)\<lparr>ia_size := (case d_inode_of s od of None \<Rightarrow> 0 | Some i \<Rightarrow> ia_size (wi_attr (wx_inode s i)))\<rparr>\<rparr>) w"
  have dn: "d_inode_of z od = Some i" "d_inode_of w nd = Some a"
    using inodes by (simp_all add: z_def w_def copy_attr_inode d_inode_of_def set_nlink_def)
  have "wrapfs_link L od dir nd new s = (0, pref po (- 1) (pref pn (- 1) (dref (Some ?q) (- 1) u)))"
    using od nd call s1(1) Y(1) by (simp add: wrapfs_link_def with_lower_def in_parent_def run_lower_def wrapfs_get_lower_path_def wrapfs_put_lower_path_def
        lower_path_of_def need_info_def lock_parent_def unlock_dir_def Let_def dn flip: s1_def z_def w_def u_def)
  moreover have "wi_attr (wx_inode u dir) = lf_copy_size L (lf_copy_times L (wi_attr (wx_inode y dir)) (lf_attr L low j)) (lf_attr L low j)"
    using i(2) a by (simp add: u_def w_def set_nlink_def z_def copy_attr_inode inodes)
  ultimately show ?thesis using copy by (simp add: stack_copy_ok_def)
qed

text \<open>A mount that fails to allocate the root dentry puts the inode twice.\<close>

lemma mount_double_iput:
  assumes "path_dentry p = Some d" and "lf_d_inode L (wx_low s) d = Some j" and "ld_igrab L (wx_low s) j" and "wx_icache s = []"
  shows "fm_bug (wx_fm (snd (wrapfs_read_super L (Some (Inr p)) True (Some i) None info s)))"
  using assms by (simp add: wrapfs_read_super_def wrapfs_iget_def mount_undo_def Let_def)

text \<open>Removing a name does not free a page that is not clean: it stays in use for an object that is freed.\<close>

lemma unlink_page_dirty:
  assumes "lockable s p" and "tp_buffer_id (pm_pages s p) \<noteq> BI_CLEAN"
  shows "\<exists>s'. unlink_page p s = Some s' \<and> tp_in_use (pm_pages s' p) = tp_in_use (pm_pages s p) \<and> tp_pvd (pm_pages s' p) = tp_pvd (pm_pages s p)"
  using assms by (auto simp: unlink_page_def trylock_any_cases lockable_def Let_def unlock_tp_def split: prod.splits)

section \<open>Examples\<close>

lemma lower_dir_example_copy: "stack_copy_ok lower_dir_example"
  by (simp add: stack_copy_ok_def lower_dir_example_def lower_fs.defs lower_dir_fs.defs lower_example_def)

text \<open>The inode 2 is the directory, dentry 9 has the lower dentry 6.\<close>

definition create_example :: "nat wfs" where
  "create_example = wfs_blank\<lparr>wx_inode := (wx_inode wfs_blank)(2 := (wx_inode wfs_blank 2)\<lparr>wi_lower_inode := Some 0\<rparr>), wx_icache := [2, 5],
     wx_dentry := (wx_dentry wfs_blank)(9 := (wx_dentry wfs_blank 9)\<lparr>wd_info := Some \<lparr>path_dentry = Some 6, path_mnt = Some 0\<rparr>, wd_inode := None\<rparr>)\<rparr>"

theorem wrapfs_create_spec_witness:
  "\<exists>s' i. wrapfs_create lower_dir_example 2 9 0x81A4 True (Some 3) create_example = (0, s') \<and> wd_inode (wx_dentry s' 9) = Some i \<and> wrapfs_lower_inode s' i = Some 6"
proof -
  have "wrapfs_lower_inode create_example 2 = Some 0" "wx_lower_sb create_example = Some 0" "2 \<in> set (wx_icache create_example)" "(3 :: nat) \<notin> set (wx_icache create_example)"
    "wd_info (wx_dentry create_example 9) = Some \<lparr>path_dentry = Some 6, path_mnt = Some 0\<rparr>"
    by (simp_all add: create_example_def wfs_blank_def wrapfs_lower_inode_def)
  then show ?thesis
    using wrapfs_create_spec [OF lower_dir_example_copy, of create_example 9 "\<lparr>path_dentry = Some 6, path_mnt = Some 0\<rparr>" 6 "0x81A4" True 0 "Suc (wx_low create_example)" 6 "Some 3" 3 2 0]
    by auto
qed

definition lower_unlinked :: "nat lower_dir_fs" where
  "lower_unlinked = lower_dir_example\<lparr>lf_attr := (\<lambda>l i. (lf_attr lower_example l i)\<lparr>ia_nlink := 0\<rparr>)\<rparr>"

theorem wrapfs_unlink_spec_witness:
  "\<exists>s'. wrapfs_unlink kernel_example env_example lower_unlinked 0 9 unload_example = Some (0, s') \<and> 3 \<in> free_set (k_topo kernel_example) (wx_fm s')"
proof -
  have E: "rdx_first_ok (de_rdx_first env_example)" using first_slot_ok by (simp add: env_example_def)
  have n: "0 < ncpus kernel_example" by (simp add: kernel_example_topo)
  have st: "wd_info (wx_dentry unload_example 9) = Some \<lparr>path_dentry = Some 5, path_mnt = Some 0\<rparr>" "wd_inode (wx_dentry unload_example 9) = Some 5"
    "wrapfs_lower_inode unload_example a = Some 5" "wx_ino_pvd unload_example 5 = Some 0" for a
    by (simp_all add: unload_example_def wfs_blank_def wrapfs_lower_inode_def)
  have L: "ld_unlink lower_unlinked a e l = (0, l)" "lf_d_inode lower_unlinked l e = Some e" "S_ISREG (ia_mode (lf_attr lower_unlinked l i))"
    "ia_nlink (lf_attr lower_unlinked l i) = 0" "lf_i_ino lower_unlinked 5 = 5" for a e l i
    by (simp_all add: lower_unlinked_def lower_dir_example_def lower_fs.defs lower_dir_fs.defs lower_example_def S_ISREG_def)
  show ?thesis
    using wrapfs_unlink_spec [OF E n st(1) _ st(3) st(2) st(3) L(1) L(2) L(3) L(4), where dir = 0 and v = 0] unload_example_drainable st(4) L(5) by auto
qed

end
