(* ===== verification/Spec2Isabelle.thy ===== *)
theory Spec2Isabelle
  imports Wrapfs_Dir
begin

text \<open>
  FastMap is a Linux kernel module that replaces the kernel's memory-mapped I/O path. Block devices
  (\<^verbatim>\<open>driver/main.c\<close>) and files of a stacked file system (\<^verbatim>\<open>driver/dmapfs_*.c\<close>) are mapped through a cache of 4 KiB
  pages that the module allocates once and manages itself.

  \<^bold>\<open>How the parts interact.\<close> A page fault (\<^verbatim>\<open>mmap_fault_handler.c\<close>) looks the page number up in the radix trees
  of the backing object (\<^verbatim>\<open>struct pr_vma_data\<close>). On a miss it takes a page from the per-CPU free lists
  (\<^verbatim>\<open>mmap_buffer_hash_table.c\<close>), or purges clean pages from the FIFO queues (\<^verbatim>\<open>lpfifo_non_atomic.c\<close>), reads the
  content from the device or the lower file and records the mapping in the page's reverse map
  (\<^verbatim>\<open>tagged_page.c\<close>). The first write to a page moves it to a dirty queue (\<^verbatim>\<open>dfifo_non_atomic.c\<close>) and into
  one of the per-CPU red-black trees of the object (\<^verbatim>\<open>mmap_buffer_rbtree.c\<close>). Dirty pages are written by
  the evictor threads (\<^verbatim>\<open>mmap_generational_fifo_buffer.c\<close>) and by \<^verbatim>\<open>fsync\<close> and \<^verbatim>\<open>close\<close>, which merge the
  trees with a bounded heap (\<^verbatim>\<open>write_dirty_pages.c\<close>); both write-protect the page, write the batch with
  merged requests and put the page back into its clean queue.

  \<^bold>\<open>Theories, in the order of their imports.\<close>

  \<^item> \<open>FM_Prelude\<close>: machine types, the constants of \<^verbatim>\<open>shared_defines.h\<close>, error numbers, generic lemmas, and
    the locale of inductive invariants of a transition system.
  \<^item> \<open>Tagged_Page\<close> (\<^verbatim>\<open>tagged_page.h\<close>, \<^verbatim>\<open>tagged_page.c\<close>): the packed reverse-map words at 64 bits, the page
    descriptor and its try-lock. The setters refine updates of an abstract record of fields.
  \<^item> \<open>Page_Map\<close> (\<^verbatim>\<open>mmap_buffer_hash_table.c\<close>): free lists, NUMA distance table, allocation and release.
  \<^item> \<open>Page_Fifo\<close>, \<open>Queue_Family\<close>: both kinds of queue against one locale \<open>page_fifo\<close>, and the arrays of queues.
  \<^item> \<open>Dirty_Tree\<close>: the dirty trees over any red-black rebalancing that meets its contract.
  \<^item> \<open>Params\<close>: load-time and run-time parameters and their sysfs stores.
  \<^item> \<open>Fm_State\<close>: the driver state \<open>fm\<close> as one record, and the record \<open>kernel\<close> of the kernel functions the
    driver calls, which are parameters of the model.
  \<^item> \<open>Mappings\<close>: removing and write-protecting all mappings of a page through its reverse map.
  \<^item> \<open>Write_Back\<close>: the merged requests of a batch, for devices and for files.
  \<^item> \<open>Fifo_Buffer\<close>: inserting, moving and purging pages; the invariant of the buffer.
  \<^item> \<open>Evictor\<close>, \<open>Evict_Round\<close>: the phases of one iteration of an evictor thread, and what a whole iteration does.
  \<^item> \<open>Min_Heap\<close>, \<open>Buffer_Trees\<close>, \<open>Write_Dirty\<close>: the merge heap against the locale of bounded priority queues, and
    \<^verbatim>\<open>write_dirty_pages\<close> with its callbacks against the locale \<open>page_cleanup\<close>; \<^verbatim>\<open>fsync\<close>.
  \<^item> \<open>Fault_Handler\<close>, \<open>Fault_Progress\<close>, \<open>Vma_Ops\<close>: page faults, first writes, and opening, closing,
    splitting and moving regions; \<open>fm_inv\<close> is the invariant all of them keep.
  \<^item> \<open>Raw_Ioctl\<close>, \<open>Raw_Device\<close>, \<open>Raw_Close\<close> (\<^verbatim>\<open>main.c\<close>): the commands of a device, binding, opening and
    closing, as a step relation with its invariant.

  \<^item> \<open>Wrapfs_State\<close> (\<^verbatim>\<open>wrapfs.h\<close>): the state \<open>wfs\<close> of the stacked file system around \<open>fm\<close> (inodes, dentries, open files, the
    cache of backing objects by inode number, and the references held on lower objects), and the record \<open>lower_fs\<close> of the lower file system.
  \<^item> \<open>Wrapfs_File\<close>, \<open>Wrapfs_Cache\<close> (\<^verbatim>\<open>dmapfs_file.c\<close>): open files as a step relation with its invariant, closing and
    synchronising mapped files, reading and writing them, and emptying the cache.
  \<^item> \<open>Wrapfs_Inode\<close> (\<^verbatim>\<open>dmapfs_lookup.c\<close>, \<^verbatim>\<open>dmapfs_dentry.c\<close>, \<^verbatim>\<open>dmapfs_inode.c\<close>, \<^verbatim>\<open>dmapfs_super.c\<close>, \<^verbatim>\<open>dmapfs_main.c\<close>): mounting, lookup and all
    operations on names and attributes; the record \<open>lower_dir_fs\<close> extends \<open>lower_fs\<close>.
  \<^item> \<open>Wrapfs_Names\<close>, \<open>Wrapfs_Dir\<close>: the references on lower objects are balanced over every sequence of these operations; what
    creating a name and removing the last name of a mapped file do.

  \<^bold>\<open>Parameters.\<close> The records \<open>kernel\<close>, \<open>dev_env\<close>, \<open>lower_fs\<close> and \<open>lower_dir_fs\<close> stand for the kernel, the block layer and the lower file
  system. What a theorem needs of them is a named hypothesis (\<open>rb_lib_ok\<close>, \<open>walk_ok\<close>, \<open>rdx_first_ok\<close>, \<open>stack_copy_ok\<close>) with the documented
  behaviour, and the witnesses instantiate the records with concrete functions.

  \<^bold>\<open>Granularity.\<close> Locks have no value in the model: an operation that the code runs under the page lock or a
  queue lock is one function. Page locks are modelled, because the code tests them; waiting for
  one is the value \<^verbatim>\<open>None\<close> or a distinct result. Following a null pointer, writing
  outside an array and a failed \<^verbatim>\<open>DMAP_BGON\<close> (an assertion that the default build compiles out) set \<open>fm_bug\<close>.

  \<^bold>\<open>Fuel.\<close> Loops over trees and queues are structural or have a termination proof. Where the code retries
  (a fault, the drain of a tree), the function takes fuel; the theorems give a bound that is enough (the
  number of pages of the buffer, of nodes of the trees, or of cached objects), and with it the result.

  \<^bold>\<open>Not modelled.\<close> The registration of devices, file systems, sysfs files and kernel symbols and the allocation of slab caches
  (\<^verbatim>\<open>kernel_syms.c\<close>, the rest of \<^verbatim>\<open>main.c\<close>, \<^verbatim>\<open>dmapfs_main.c\<close> and \<^verbatim>\<open>dmapfs_super.c\<close>) are calls of kernel functions only; the statistics and the printing
  functions have no effect on the state; code that the configuration of \<^verbatim>\<open>shared_defines.h\<close> switches off is left out; the banked buffer is
  modelled as far as it is called. The tests, benchmarks and tools run in user space.
\<close>

end
